(* ===== verification/Prelude.thy ===== *)
theory Prelude
  imports Main "HOL-Library.Word" "HOL-Library.Monad_Syntax"
begin

unbundle bit_operations_syntax

text \<open>
  The vocabulary the components share: the C integer types of the port, the reading and
  writing of a memory object by index, counted loops, and the generic lemmas on option
  computations, lists and words that the component proofs rest on.

  Conventions. A value of type \<open>'a option\<close> is the outcome of a piece of C code: \<open>Some\<close> is
  normal completion, \<open>None\<close> is undefined behaviour (an access outside its object, a null
  dereference) or, where the definition is a \<open>partial_function\<close>, a loop that does not end.
  A theorem that says \<open>f x = Some y\<close> therefore says that the code returns and that every
  access it makes is inside its object.
\<close>

section \<open>Fact collections\<close>

named_theorems word_conv \<open>how casts and masks read as numbers\<close>
named_theorems opt_simps \<open>evaluation of option computations\<close>
named_theorems mem_simps \<open>reads and writes of memory objects\<close>

section \<open>The integer types of the port\<close>

text \<open>
  \<open>core_portme.h\<close> fixes the widths. C keeps signedness in the type; here it is in the
  operation (\<open>sint\<close>, \<open>scast\<close>, \<open>signed_drop_bit\<close> read a word as two's complement), so the
  signed and the unsigned type of a width are one type.
\<close>

type_synonym ee_u8 = "8 word"
type_synonym ee_u16 = "16 word"
type_synonym ee_s16 = "16 word"
type_synonym ee_u32 = "32 word"
type_synonym ee_s32 = "32 word"

section \<open>Option computations\<close>

lemma bind_eq_Some [opt_simps]:
  "Option.bind m f = Some y \<longleftrightarrow> (\<exists>x. m = Some x \<and> f x = Some y)"
  by (cases m) auto

lemma map_option_eq_Some [opt_simps]:
  "map_option f m = Some y \<longleftrightarrow> (\<exists>x. m = Some x \<and> y = f x)"
  by (cases m) auto

definition guard_opt :: "bool \<Rightarrow> unit option" where
  "guard_opt b = (if b then Some () else None)"

lemma guard_opt_True [simp]: "b \<Longrightarrow> guard_opt b = Some ()"
  by (simp add: guard_opt_def)

lemma guard_opt_Some [opt_simps]: "guard_opt b = Some u \<longleftrightarrow> b"
  by (simp add: guard_opt_def)

section \<open>Memory objects\<close>

text \<open>
  A block of memory is the list of its elements; an index outside it is undefined behaviour.
\<close>

definition rd :: "'a list \<Rightarrow> nat \<Rightarrow> 'a option" where
  "rd xs i = (if i < length xs then Some (xs ! i) else None)"

definition wr :: "'a list \<Rightarrow> nat \<Rightarrow> 'a \<Rightarrow> 'a list option" where
  "wr xs i v = (if i < length xs then Some (xs[i := v]) else None)"

lemma rd_in [simp, mem_simps]: "i < length xs \<Longrightarrow> rd xs i = Some (xs ! i)"
  by (simp add: rd_def)

lemma wr_in [simp, mem_simps]: "i < length xs \<Longrightarrow> wr xs i v = Some (xs[i := v])"
  by (simp add: wr_def)

lemma rd_Some_iff [opt_simps]: "rd xs i = Some v \<longleftrightarrow> i < length xs \<and> v = xs ! i"
  by (auto simp: rd_def)

lemma wr_Some_iff [opt_simps]: "wr xs i v = Some ys \<longleftrightarrow> i < length xs \<and> ys = xs[i := v]"
  by (auto simp: wr_def)

lemma rd_None_iff [opt_simps]: "rd xs i = None \<longleftrightarrow> length xs \<le> i"
  by (auto simp: rd_def)

section \<open>Counted loops\<close>

text \<open>
  \<open>for (i = a; i < a + n; i++)\<close> over a state: the body runs once for each index, in order, and
  the first undefined step ends the run.
\<close>

fun for_loop :: "nat \<Rightarrow> nat \<Rightarrow> (nat \<Rightarrow> 's \<Rightarrow> 's option) \<Rightarrow> 's \<Rightarrow> 's option" where
  "for_loop a 0 f s = Some s"
| "for_loop a (Suc n) f s = (case f a s of None \<Rightarrow> None | Some s' \<Rightarrow> for_loop (Suc a) n f s')"

text \<open>The loop rule: an invariant indexed by the loop counter.\<close>

lemma for_loop_rule:
  assumes "I a s"
    and "\<And>i t. a \<le> i \<Longrightarrow> i < a + n \<Longrightarrow> I i t \<Longrightarrow> \<exists>t'. f i t = Some t' \<and> I (Suc i) t'"
  shows "\<exists>t. for_loop a n f s = Some t \<and> I (a + n) t"
  using assms
proof (induction n arbitrary: a s)
  case 0
  then show ?case by simp
next
  case (Suc n)
  obtain s' where s': "f a s = Some s'" "I (Suc a) s'"
    using Suc.prems(2)[of a s] Suc.prems(1) by auto
  have "\<exists>t. for_loop (Suc a) n f s' = Some t \<and> I (Suc a + n) t"
    by (rule Suc.IH) (use s' Suc.prems(2) in auto)
  with s' show ?case by auto
qed

text \<open>What every step keeps, the loop keeps.\<close>

lemma for_loop_keeps:
  assumes "\<And>i s t. f i s = Some t \<Longrightarrow> m t = m s" "for_loop a n f s = Some t"
  shows "m t = m s"
  using assms(2)
proof (induction n arbitrary: a s)
  case (Suc n)
  then obtain u where "f a s = Some u" "for_loop (Suc a) n f u = Some t" by (auto split: option.splits)
  with Suc.IH[of "Suc a" u] assms(1)[of a s u] show ?case by simp
qed simp

text \<open>When each step is known exactly, the loop computes the corresponding fold.\<close>

lemma for_loop_fold:
  assumes "\<And>i t. a \<le> i \<Longrightarrow> i < a + n \<Longrightarrow> f i t = Some (g i t)"
  shows "for_loop a n f s = Some (fold g [a..<a + n] s)"
  using assms
proof (induction n arbitrary: a s)
  case 0
  then show ?case by simp
next
  case (Suc n)
  have "for_loop (Suc a) n f (g a s) = Some (fold g [Suc a..<Suc a + n] (g a s))"
    by (rule Suc.IH) (use Suc.prems in auto)
  then show ?case
    using Suc.prems[of a s] by (simp add: upt_conv_Cons del: upt_Suc)
qed

text \<open>
  Two nested loops over the rows and columns of a square array, whose body uses the flat index,
  are one loop over the array.
\<close>

lemma for_loop_append:
  "for_loop a (m + n) f s = Option.bind (for_loop a m f s) (for_loop (a + m) n f)"
  by (induction m arbitrary: a s) (auto split: option.splits)

lemma for_loop_Suc: "for_loop a (Suc n) f s = Option.bind (for_loop a n f s) (f (a + n))"
proof -
  have "for_loop (a + n) 1 f = f (a + n)" by (rule ext) (simp split: option.splits)
  with for_loop_append[of a n 1 f s] show ?thesis by simp
qed

lemma for_loop_cong:
  "(\<And>i t. a \<le> i \<Longrightarrow> i < a + n \<Longrightarrow> f i t = g i t) \<Longrightarrow> for_loop a n f s = for_loop a n g s"
proof (induction n arbitrary: a s)
  case (Suc n)
  have "for_loop (Suc a) n f t = for_loop (Suc a) n g t" for t
    by (rule Suc.IH) (use Suc.prems in auto)
  then show ?case using Suc.prems[of a s] by (auto split: option.splits)
qed simp

lemma for_loop_shift: "for_loop (a + b) n f s = for_loop a n (\<lambda>i. f (i + b)) s"
  by (induction n arbitrary: a s) (auto split: option.splits simp flip: add_Suc)

lemma for_loop_nested:
  assumes "\<And>i j t. i < m \<Longrightarrow> j < n \<Longrightarrow> f i j t = g (i * n + j) t"
  shows "for_loop 0 m (\<lambda>i. for_loop 0 n (f i)) s = for_loop 0 (m * n) g s"
  using assms
proof (induction m arbitrary: s)
  case (Suc m)
  have "for_loop 0 n (f m) t = for_loop (m * n) n g t" for t
    unfolding for_loop_shift[of 0 "m * n" n g t, unfolded add_0]
    by (rule for_loop_cong) (use Suc.prems[of m] in \<open>simp add: add.commute\<close>)
  moreover have "for_loop 0 m (\<lambda>i. for_loop 0 n (f i)) s = for_loop 0 (m * n) g s"
    by (rule Suc.IH) (use Suc.prems in auto)
  ultimately show ?case
    using for_loop_append[of 0 m 1 "\<lambda>i. for_loop 0 n (f i)" s]
      for_loop_append[of 0 "m * n" n g s]
    by (cases "for_loop 0 (m * n) g s") (auto simp: add.commute split: option.splits)
qed simp

text \<open>A loop that writes every element of an array once, from values that do not depend on it.\<close>

lemma for_loop_fill:
  assumes "\<And>k t. k < n \<Longrightarrow> length t = length xs \<Longrightarrow> f k t = Some (t[k := g k])" "n \<le> length xs"
  shows "for_loop 0 n f xs = Some (map g [0..<n] @ drop n xs)"
proof -
  have "\<exists>t. for_loop 0 n f xs = Some t \<and> t = map g [0..<0 + n] @ drop (0 + n) xs"
  proof (rule for_loop_rule[where I = "\<lambda>k t. t = map g [0..<k] @ drop k xs"])
    fix i t assume i: "0 \<le> i" "i < 0 + n" and t: "t = map g [0..<i] @ drop i xs"
    have "t[i := g i] = map g [0..<Suc i] @ drop (Suc i) xs"
      using i assms(2) by (simp add: t list_update_append Cons_nth_drop_Suc[symmetric])
    with assms i t show "\<exists>t'. f i t = Some t' \<and> t' = map g [0..<Suc i] @ drop (Suc i) xs" by simp
  qed simp
  then show ?thesis by simp
qed

section \<open>Signed arithmetic\<close>

text \<open>
  Signed addition and multiplication of 32-bit integers; overflow is undefined behaviour.
\<close>

definition add_s32 :: "ee_s32 \<Rightarrow> ee_s32 \<Rightarrow> ee_s32 option" where
  "add_s32 a b = (if sint (a + b) = sint a + sint b then Some (a + b) else None)"

definition mul_s32 :: "ee_s32 \<Rightarrow> ee_s32 \<Rightarrow> ee_s32 option" where
  "mul_s32 a b = (if sint (a * b) = sint a * sint b then Some (a * b) else None)"

definition in_s32 :: "int \<Rightarrow> bool" where
  "in_s32 i \<longleftrightarrow> - (2 ^ 31) \<le> i \<and> i < 2 ^ 31"

text \<open>
  Where a C \<open>int\<close> is used as a number only, it is an integer here, and \<open>s32\<close> after each operation
  makes a result outside the type undefined.
\<close>

definition s32 :: "int \<Rightarrow> int option" where
  "s32 i = (if in_s32 i then Some i else None)"

definition neg_s32 :: "ee_s32 \<Rightarrow> ee_s32 option" where
  "neg_s32 x = (if sint x = - (2 ^ 31) then None else Some (- x))"

lemma s32_in [simp]: "in_s32 i \<Longrightarrow> s32 i = Some i"
  by (simp add: s32_def)

lemma s32_Some_iff [opt_simps]: "s32 i = Some j \<longleftrightarrow> in_s32 i \<and> j = i"
  by (auto simp: s32_def)

lemma sint_of_int_s32 [word_conv]: "in_s32 i \<Longrightarrow> sint (word_of_int i :: ee_s32) = i"
  by (simp add: in_s32_def sint_sbintrunc' signed_take_bit_int_eq_self)

lemma sint_of_int_s16 [word_conv]: "- (2 ^ 15) \<le> i \<Longrightarrow> i < 2 ^ 15 \<Longrightarrow> sint (word_of_int i :: ee_s16) = i"
  by (simp add: sint_sbintrunc' signed_take_bit_int_eq_self)

lemma sint_uint_s16 [word_conv]: "uint x < 2 ^ 15 \<Longrightarrow> sint x = uint x" for x :: ee_s16
  unfolding sint_uint
  by (intro signed_take_bit_int_eq_self) (rule order_trans[OF _ unsigned_greater_eq], simp_all)

lemma sint_uint_s32 [word_conv]: "uint x < 2 ^ 31 \<Longrightarrow> sint x = uint x" for x :: ee_s32
  unfolding sint_uint
  by (intro signed_take_bit_int_eq_self) (rule order_trans[OF _ unsigned_greater_eq], simp_all)

lemma sint_scast_s16 [simp, word_conv]: "sint (scast x :: ee_s32) = sint x" for x :: ee_s16
  using sint_greater_eq[of x] sint_less[of x] by (simp add: signed_scast_eq signed_take_bit_int_eq_self)

lemma in_s32_sint [simp]: "in_s32 (sint (a :: ee_s32))"
  using sint_greater_eq[of a] sint_less[of a] by (simp add: in_s32_def)

lemma add_s32_in: "in_s32 (sint a + sint b) \<Longrightarrow> add_s32 a b = Some (word_of_int (sint a + sint b))"
  using sint_of_int_s32[of "sint a + sint b"] by (simp add: add_s32_def)

lemma mul_s32_in: "in_s32 (sint a * sint b) \<Longrightarrow> mul_s32 a b = Some (word_of_int (sint a * sint b))"
  using sint_of_int_s32[of "sint a * sint b"] by (simp add: mul_s32_def)

lemma unat_of_int_s32: "0 \<le> k \<Longrightarrow> k < 2 ^ 32 \<Longrightarrow> w = word_of_int k \<Longrightarrow> unat w = nat k" for w :: ee_s32
  by (simp add: unsigned_of_int take_bit_int_eq_self flip: nat_uint_eq)

lemma unat_neg:
  fixes num :: ee_s32
  assumes "sint num < 0"
  shows "unat (- num) = nat \<bar>sint num\<bar>"
proof -
  have "sint num \<ge> - (2 ^ 31)" using sint_greater_eq[of num] by simp
  then have "unat (- num) = nat (- sint num)" using assms by (intro unat_of_int_s32) simp_all
  then show ?thesis using assms by simp
qed

lemma unat_nonneg: "0 \<le> sint num \<Longrightarrow> unat num = nat \<bar>sint num\<bar>" for num :: ee_s32
  using unat_of_int_s32[of "sint num" num] sint_less[of num] by simp

section \<open>Characters and strings\<close>

text \<open>
  A C string is the list of its characters before the terminating NUL; \<open>char_code\<close> is the value
  of a character (\<open>char\<close> is unsigned on RISC-V).
\<close>

definition char_code :: "char \<Rightarrow> nat" where
  "char_code c = of_char c"

lemma char_code_less [simp]: "char_code c < 256"
  by (simp add: char_code_def)

definition is_digit :: "char \<Rightarrow> bool" where
  "is_digit c \<longleftrightarrow> 48 \<le> char_code c \<and> char_code c \<le> 57"

definition digit_val :: "char \<Rightarrow> nat" where
  "digit_val c = char_code c - 48"

text \<open>The number a list of digits denotes, most significant first.\<close>

definition dec_val :: "string \<Rightarrow> nat" where
  "dec_val ds = foldl (\<lambda>n d. n * 10 + digit_val d) 0 ds"

lemma is_digit_val: "is_digit c \<Longrightarrow> char_code c = 48 + digit_val c \<and> digit_val c < 10"
  by (auto simp: is_digit_def digit_val_def)

lemma dec_val_Nil [simp]: "dec_val [] = 0"
  by (simp add: dec_val_def)

lemma dec_val_snoc [simp]: "dec_val (ds @ [d]) = dec_val ds * 10 + digit_val d"
  by (simp add: dec_val_def)

lemma foldl_dec_val:
  "foldl (\<lambda>n d. n * 10 + digit_val d) k ds = k * 10 ^ length ds + dec_val ds"
  by (induction ds arbitrary: k rule: rev_induct) (simp_all add: algebra_simps)

lemma dec_val_Cons [simp]: "dec_val (d # ds) = digit_val d * 10 ^ length ds + dec_val ds"
  using foldl_dec_val [of "digit_val d" ds] by (simp add: dec_val_def)

section \<open>Words\<close>

lemma unat_and_mask_less [word_conv]: "unat (x AND mask n) < 2 ^ n"
  by (simp add: unsigned_and_eq unsigned_take_bit_eq flip: take_bit_eq_mask)

lemma unat_of_nat_s32 [word_conv]: "n < 2 ^ 32 \<Longrightarrow> unat (of_nat n :: ee_u32) = n"
  by (simp add: unat_of_nat)

lemma and_not_mask_word: "y AND NOT (mask m) = push_bit m (drop_bit m y)" for y :: "'a::len word"
  by (rule bit_word_eqI) (auto simp: bit_simps not_less)

lemma unat_push_drop [word_conv]: "unat (push_bit m (drop_bit m y)) = unat y div 2 ^ m * 2 ^ m"
  for y :: "'a::len word"
proof -
  have "unat y div 2 ^ m * 2 ^ m < 2 ^ LENGTH('a)"
    using div_times_less_eq_dividend[of "unat y" "2 ^ m"] unsigned_less[of y, where ?'a = nat] by linarith
  moreover have "unat (push_bit m (drop_bit m y)) = take_bit LENGTH('a) (push_bit m (drop_bit m (unat y)))"
    using take_bit_nat_eq_self[OF unsigned_less[of y, where ?'a = nat]]
    by (simp add: unsigned_push_bit_eq unsigned_drop_bit_eq)
  ultimately show ?thesis by (simp add: push_bit_eq_mult drop_bit_eq_div take_bit_nat_eq_self)
qed

lemma int_less_uint [word_conv]: "int n < uint w \<longleftrightarrow> n < unat w"
  using of_nat_less_iff [of n "unat w", where ?'a = int] by simp

lemma xor_cancel_left: "c XOR a = c XOR b \<longleftrightarrow> a = b"
  for a b c :: "'a::len word"
proof
  assume "c XOR a = c XOR b"
  then have "c XOR (c XOR a) = c XOR (c XOR b)" by simp
  then show "a = b" by (simp add: xor.assoc [symmetric])
qed simp

end
