(* ===== verification/Core_Util.thy ===== *)
theory Core_Util
  imports Prelude
begin

text \<open>
  \<open>coremark/src/core_util.c\<close>: the 16-bit CRC that every benchmark result goes through
  (\<open>crcu8\<close>, \<open>crcu16\<close>, \<open>crcu32\<close>, \<open>crc16\<close>), the seed sources (\<open>get_seed_32\<close>, \<open>parseval\<close>) and the
  type check (\<open>check_data_types\<close>). The CRC is compared with a bit-serial reference: the
  reflected CRC-16 with generator \<open>0xA001\<close>, consuming its input least significant bit first.
\<close>

section \<open>The CRC as the code computes it\<close>

text \<open>
  The loop of \<open>crcu8\<close>; the first argument is the number of iterations left. \<open>carry\<close> is set from
  \<open>x16\<close> in the same iteration, so it is not part of the loop state.
\<close>

fun crcu8_loop :: "nat \<Rightarrow> ee_u8 \<Rightarrow> ee_u16 \<Rightarrow> ee_u16" where
  "crcu8_loop 0 data crc = crc"
| "crcu8_loop (Suc n) data crc =
     (let x16 = (data AND 1) XOR ((ucast crc :: ee_u8) AND 1);
          data' = drop_bit 1 data;
          carry = (x16 = 1);
          crc1 = (if x16 = 1 then crc XOR 0x4002 else crc);
          crc2 = drop_bit 1 crc1;
          crc3 = (if carry then crc2 OR 0x8000 else crc2 AND 0x7fff)
      in crcu8_loop n data' crc3)"

definition crcu8 :: "ee_u8 \<Rightarrow> ee_u16 \<Rightarrow> ee_u16" where
  "crcu8 data crc = crcu8_loop 8 data crc"

definition crcu16 :: "ee_u16 \<Rightarrow> ee_u16 \<Rightarrow> ee_u16" where
  "crcu16 newval crc =
     (let crc = crcu8 (ucast newval) crc;
          crc = crcu8 (ucast (drop_bit 8 newval)) crc
      in crc)"

definition crc16 :: "ee_s16 \<Rightarrow> ee_u16 \<Rightarrow> ee_u16" where
  "crc16 newval crc = crcu16 newval crc"

definition crcu32 :: "ee_u32 \<Rightarrow> ee_u16 \<Rightarrow> ee_u16" where
  "crcu32 newval crc =
     (let crc = crc16 (ucast newval) crc;
          crc = crc16 (ucast (drop_bit 16 newval)) crc
      in crc)"

section \<open>The bit-serial reference\<close>

definition crc_bit :: "bool \<Rightarrow> ee_u16 \<Rightarrow> ee_u16" where
  "crc_bit b crc =
     (if bit crc 0 \<noteq> b then drop_bit 1 crc XOR 0xA001 else drop_bit 1 crc)"

definition crc_bits :: "bool list \<Rightarrow> ee_u16 \<Rightarrow> ee_u16" where
  "crc_bits bs crc = fold crc_bit bs crc"

definition bits_lsb_first :: "'a::len word \<Rightarrow> bool list" where
  "bits_lsb_first w = map (bit w) [0..<LENGTH('a)]"

lemma crc_bits_simps [simp]:
  "crc_bits [] c = c"
  "crc_bits (b # bs) c = crc_bits bs (crc_bit b c)"
  "crc_bits (bs @ bs') c = crc_bits bs' (crc_bits bs c)"
  by (simp_all add: crc_bits_def)

subsection \<open>One iteration of the loop is one reference step\<close>

lemma xor_low_bits_eq_1 [word_conv]:
  "((a AND 1) XOR ((ucast c :: ee_u8) AND 1) = (1 :: ee_u8)) \<longleftrightarrow> (bit c 0 \<noteq> bit a 0)"
  for c :: ee_u16
proof -
  have a: "a AND 1 = of_bool (bit a 0)"
    by (simp add: and_one_eq mod_2_eq_odd bit_0)
  have "bit (ucast c :: ee_u8) 0 = bit c 0" by (simp only: bit_simps) simp
  then have c: "(ucast c :: ee_u8) AND 1 = of_bool (bit c 0)"
    by (simp add: and_one_eq mod_2_eq_odd flip: bit_0)
  show ?thesis unfolding a c by (cases "bit a 0"; cases "bit c 0") simp_all
qed

lemma less_16_cases: "(n::nat) < 16 \<longleftrightarrow> n \<in> {0, 1, 2, 3, 4, 5, 6, 7, 8, 9, 10, 11, 12, 13, 14, 15}"
  unfolding insert_iff empty_iff by arith

lemma crc_step_carry: "drop_bit 1 (c XOR 0x4002) OR 0x8000 = drop_bit 1 c XOR (0xA001 :: ee_u16)"
  for c :: ee_u16
  by (rule bit_word_eqI) (auto simp: bit_simps less_16_cases dest: bit_imp_le_length)

lemma crc_step_no_carry: "drop_bit 1 c AND 0x7fff = drop_bit 1 c"
  for c :: ee_u16
  by (rule bit_word_eqI) (auto simp: bit_simps less_16_cases dest: bit_imp_le_length)

lemma crcu8_loop_Suc:
  "crcu8_loop (Suc n) a c = crcu8_loop n (drop_bit 1 a) (crc_bit (bit a 0) c)"
  by (simp only: crcu8_loop.simps Let_def word_conv crc_bit_def if_distrib
      crc_step_carry crc_step_no_carry cong: if_cong)
     (cases "bit c 0 = bit a 0"; simp only: if_True if_False simp_thms Let_def
       crc_step_carry crc_step_no_carry)

declare crcu8_loop.simps(2) [simp del]

lemma bits_from_drop: "map (bit (drop_bit 1 a)) [0..<n] = map (bit a) [Suc 0..<Suc n]"
  for a :: "'a::len word"
  by (simp add: map_Suc_upt [symmetric] bit_drop_bit_eq del: upt_Suc)

lemma bits_Suc: "map (bit a) [0..<Suc n] = bit a 0 # map (bit (drop_bit 1 a)) [0..<n]"
  for a :: "'a::len word"
  by (simp only: bits_from_drop) (simp add: upt_conv_Cons del: upt_Suc)

lemma crcu8_loop_bits: "crcu8_loop n a c = crc_bits (map (bit a) [0..<n]) c"
proof (induction n arbitrary: a c)
  case 0
  then show ?case by simp
next
  case (Suc n)
  then show ?case
    by (simp only: crcu8_loop_Suc bits_Suc crc_bits_simps)
qed

lemma crcu8_bits: "crcu8 a c = crc_bits (bits_lsb_first a) c"
  by (simp add: crcu8_def crcu8_loop_bits bits_lsb_first_def)

lemma bits_ucast_split:
  assumes "LENGTH('b::len) + LENGTH('c::len) = LENGTH('a::len)"
  shows "bits_lsb_first (w :: 'a word) =
     bits_lsb_first (ucast w :: 'b word) @ bits_lsb_first (ucast (drop_bit LENGTH('b) w) :: 'c word)"
  unfolding bits_lsb_first_def
  by (rule nth_equalityI) (use assms in \<open>auto simp: nth_append bit_simps\<close>)

lemma crcu16_bits: "crcu16 v c = crc_bits (bits_lsb_first v) c"
  by (simp add: crcu16_def crcu8_bits
      bits_ucast_split [where 'a=16 and 'b=8 and 'c=8, simplified, of v])

lemma crc16_bits: "crc16 v c = crc_bits (bits_lsb_first v) c"
  by (simp add: crc16_def crcu16_bits)

lemma crcu32_bits: "crcu32 v c = crc_bits (bits_lsb_first v) c"
  by (simp add: crcu32_def crc16_bits
      bits_ucast_split [where 'a=32 and 'b=16 and 'c=16, simplified, of v])

lemmas crc_as_bits = crcu8_bits crcu16_bits crc16_bits crcu32_bits

subsection \<open>Linearity and injectivity of the reference\<close>

lemma crc_bit_xor: "crc_bit (a = (\<not> b)) (x XOR y) = crc_bit a x XOR crc_bit b y"
  by (cases a; cases b; cases "bit x 0"; cases "bit y 0")
     (simp_all add: crc_bit_def bit_simps ac_simps)

lemma crc_bits_xor:
  "length as = length bs \<Longrightarrow>
   crc_bits (map2 (\<lambda>a b. a = (\<not> b)) as bs) (x XOR y) = crc_bits as x XOR crc_bits bs y"
  by (induction as bs arbitrary: x y rule: list_induct2) (simp_all add: crc_bit_xor)

lemma crc_bit_eq_0: "crc_bit False z = 0 \<longleftrightarrow> z = 0"
proof
  assume z: "crc_bit False z = 0"
  have b15: "bit (crc_bit False z) 15 = bit z 0"
    by (auto simp: crc_bit_def bit_simps dest: bit_imp_le_length)
  with z have "\<not> bit z 0" by simp
  moreover from this z have d: "drop_bit 1 z = 0" by (simp add: crc_bit_def)
  moreover have "bit z n = bit (0 :: ee_u16) n" if "\<not> bit z 0" for n
  proof (cases n)
    case (Suc m)
    have "bit z (Suc m) = bit (drop_bit 1 z) m" by (simp add: bit_drop_bit_eq)
    with d Suc show ?thesis by simp
  qed (use that in simp)
  ultimately show "z = 0" by (intro bit_word_eqI) simp
qed (simp add: crc_bit_def)

lemma crc_bit_inj: "crc_bit b x = crc_bit b y \<longleftrightarrow> x = y"
proof -
  have "crc_bit False (x XOR y) = crc_bit b x XOR crc_bit b y"
    using crc_bit_xor[of b b x y] by simp
  then show ?thesis
    using xor_cancel_left[of "crc_bit b x" "crc_bit b x" "crc_bit b y"]
      xor_cancel_left[of x x y] crc_bit_eq_0[of "x XOR y"] by auto
qed

lemma crc_bits_inj: "crc_bits bs x = crc_bits bs y \<longleftrightarrow> x = y"
  by (induction bs arbitrary: x y) (simp_all add: crc_bit_inj)

subsection \<open>Short windows\<close>

text \<open>
  Feeding at most 16 bits is the same as mixing them into the register and shifting: this is
  why an error confined to 16 consecutive bits cannot cancel.
\<close>

definition pack_bits :: "bool list \<Rightarrow> ee_u16" where
  "pack_bits bs = horner_sum of_bool 2 bs"

lemma bit_pack_bits [bit_simps]:
  "bit (pack_bits bs) n \<longleftrightarrow> n < 16 \<and> n < length bs \<and> bs ! n"
  by (auto simp: pack_bits_def bit_horner_sum_bit_word_iff)

lemma crc_bit_pack:
  assumes "length bs < 16"
  shows "crc_bit b (pack_bits (b # bs)) = pack_bits bs"
proof -
  have "drop_bit 1 (pack_bits (b # bs)) = pack_bits bs"
    by (rule bit_word_eqI) (use assms in \<open>auto simp: bit_simps\<close>)
  then show ?thesis by (simp add: crc_bit_def bit_pack_bits)
qed

lemma crc_bits_window:
  "length bs \<le> 16 \<Longrightarrow>
   crc_bits bs c = crc_bits (replicate (length bs) False) (c XOR pack_bits bs)"
proof (induction bs arbitrary: c)
  case Nil
  have "pack_bits [] = 0" by (simp add: pack_bits_def)
  then show ?case by simp
next
  case (Cons b bs)
  have "crc_bit False (c XOR pack_bits (b # bs)) = crc_bit b c XOR pack_bits bs"
    using crc_bit_xor[of b b c "pack_bits (b # bs)"] crc_bit_pack[of bs b] Cons.prems by simp
  with Cons show ?case by simp
qed

lemma crc_bits_short_inj:
  assumes "length as = length bs" "length bs \<le> 16"
  shows "crc_bits as c = crc_bits bs c \<longleftrightarrow> as = bs"
proof
  assume "crc_bits as c = crc_bits bs c"
  moreover have "length as \<le> 16" using assms by simp
  ultimately have "c XOR pack_bits as = c XOR pack_bits bs"
    by (simp only: crc_bits_window[OF assms(2), of c] crc_bits_window[of as c] assms(1) crc_bits_inj)
  then have "pack_bits as = pack_bits bs" by (simp only: xor_cancel_left)
  then have eq: "bit (pack_bits as) n = bit (pack_bits bs) n" for n by simp
  show "as = bs"
  proof (rule nth_equalityI)
    show "as ! i = bs ! i" if "i < length as" for i
      using eq[of i] that assms by (simp only: bit_pack_bits) simp
  qed (rule assms(1))
qed simp

lemma bits_lsb_first_inj: "bits_lsb_first v = bits_lsb_first w \<longleftrightarrow> v = w"
  for v w :: "'a::len word"
  by (auto simp: bits_lsb_first_def intro: bit_word_eqI)

lemma length_bits_lsb_first [simp]: "length (bits_lsb_first (v :: 'a::len word)) = LENGTH('a)"
  by (simp add: bits_lsb_first_def)

text \<open>Folding the CRC over a list of 16-bit values, as the list benchmark does.\<close>

definition crc16_list :: "ee_s16 list \<Rightarrow> ee_u16 \<Rightarrow> ee_u16" where
  "crc16_list vs crc = fold crc16 vs crc"

lemma crc16_list_bits: "crc16_list vs c = crc_bits (concat (map bits_lsb_first vs)) c"
  by (induction vs arbitrary: c) (simp_all add: crc16_list_def crc16_bits)

section \<open>Seeds\<close>

text \<open>
  \<open>SEED_METHOD\<close> is \<open>SEED_VOLATILE\<close> in this port: the five volatile words are read by number,
  any other number gives 0. \<open>get_seed\<close> of \<open>core_main.c\<close> narrows the result to 16 bits.
\<close>

record seeds =
  seed1_volatile :: ee_s32
  seed2_volatile :: ee_s32
  seed3_volatile :: ee_s32
  seed4_volatile :: ee_s32
  seed5_volatile :: ee_s32

definition get_seed_32 :: "seeds \<Rightarrow> int \<Rightarrow> ee_s32" where
  "get_seed_32 v i =
     (if i = 1 then seed1_volatile v
      else if i = 2 then seed2_volatile v
      else if i = 3 then seed3_volatile v
      else if i = 4 then seed4_volatile v
      else if i = 5 then seed5_volatile v
      else 0)"

text \<open>
  With \<open>SEED_METHOD\<close> \<open>SEED_FUNC\<close> the seeds come from five functions of the board, \<open>portme_sys1\<close> to \<open>portme_sys5\<close>, which no file of
  the repository defines: \<open>portme_sys k\<close> is what the \<open>k\<close>-th returns.
\<close>

definition get_seed_32_func :: "(nat \<Rightarrow> ee_s32) \<Rightarrow> int \<Rightarrow> ee_s32" where
  "get_seed_32_func portme_sys i =
     (if i = 1 then portme_sys 1
      else if i = 2 then portme_sys 2
      else if i = 3 then portme_sys 3
      else if i = 4 then portme_sys 4
      else if i = 5 then portme_sys 5
      else 0)"

text \<open>Functions that return the volatile words give the same seeds.\<close>

lemma get_seed_32_func_volatile:
  assumes "\<And>k. k \<in> {1..5} \<Longrightarrow> portme_sys k = get_seed_32 v (int k)"
  shows "get_seed_32_func portme_sys = get_seed_32 v"
  using assms[of 1] assms[of 2] assms[of 3] assms[of 4] assms[of 5]
  by (auto simp: fun_eq_iff get_seed_32_func_def get_seed_32_def)

definition get_seed :: "seeds \<Rightarrow> int \<Rightarrow> ee_s16" where
  "get_seed v i = ucast (get_seed_32 v i)"

subsection \<open>Parsing a seed\<close>

text \<open>
  \<open>parseval\<close> reads an optional minus sign, an optional \<open>0x\<close>, digits of that base and an optional
  \<open>K\<close> or \<open>M\<close>. All arithmetic is on \<open>ee_s32\<close>, so a multiplication or addition that leaves the type is
  undefined, also when the sign that is applied last would bring the number back. (It is compiled
  under \<open>SEED_METHOD == SEED_ARG\<close>.)
\<close>

definition is_hex_low :: "char \<Rightarrow> bool" where
  "is_hex_low c \<longleftrightarrow> 97 \<le> char_code c \<and> char_code c \<le> 102"

fun parseval_hex :: "string \<Rightarrow> ee_s32 \<Rightarrow> (ee_s32 \<times> string) option" where
  "parseval_hex [] retval = Some (retval, [])"
| "parseval_hex (c # cs) retval =
     (if is_digit c \<or> is_hex_low c then
        let digit = of_nat (char_code c) - 48;
            digit = (if 9 <s digit then 10 + of_nat (char_code c) - 97 else digit)
        in do { retval \<leftarrow> mul_s32 retval 16; retval \<leftarrow> add_s32 retval digit; parseval_hex cs retval }
      else Some (retval, c # cs))"

fun parseval_dec :: "string \<Rightarrow> ee_s32 \<Rightarrow> (ee_s32 \<times> string) option" where
  "parseval_dec [] retval = Some (retval, [])"
| "parseval_dec (c # cs) retval =
     (if is_digit c then
        let digit = of_nat (char_code c) - 48
        in do { retval \<leftarrow> mul_s32 retval 10; retval \<leftarrow> add_s32 retval digit; parseval_dec cs retval }
      else Some (retval, c # cs))"

definition parseval :: "string \<Rightarrow> ee_s32 option" where
  "parseval valstring =
     (let (neg, s) = (case valstring of
            c # cs \<Rightarrow> if c = CHR ''-'' then (-1, cs) else (1, valstring)
          | [] \<Rightarrow> (1, valstring))
      in do { (retval, s) \<leftarrow> (case s of
                c # d # cs \<Rightarrow> if c = CHR ''0'' \<and> d = CHR ''x''
                              then parseval_hex cs 0 else parseval_dec s 0
              | _ \<Rightarrow> parseval_dec s 0);
              retval \<leftarrow> (case s of c # _ \<Rightarrow> if c = CHR ''K'' then mul_s32 retval 1024 else Some retval
                         | [] \<Rightarrow> Some retval);
              retval \<leftarrow> (case s of c # _ \<Rightarrow> if c = CHR ''M'' then mul_s32 retval (1024 * 1024) else Some retval
                         | [] \<Rightarrow> Some retval);
              mul_s32 retval neg })"

definition get_seed_args :: "nat \<Rightarrow> nat \<Rightarrow> string list \<Rightarrow> ee_s32 option" where
  "get_seed_args i argc argv =
     (if argc > i then Option.bind (rd argv i) parseval else Some 0)"

subsection \<open>The number a seed denotes\<close>

definition is_hex :: "char \<Rightarrow> bool" where
  "is_hex c \<longleftrightarrow> is_digit c \<or> is_hex_low c"

definition hex_digit_val :: "char \<Rightarrow> nat" where
  "hex_digit_val c = (if is_digit c then digit_val c else char_code c - 87)"

definition hex_val :: "string \<Rightarrow> nat" where
  "hex_val ds = foldl (\<lambda>n d. n * 16 + hex_digit_val d) 0 ds"

text \<open>A number that \<open>ee_s32\<close> can hold, and the same with a sign.\<close>

definition num_s32 :: "nat \<Rightarrow> ee_s32 option" where
  "num_s32 n = (if n < 2 ^ 31 then Some (of_nat n) else None)"

definition signed_s32 :: "bool \<Rightarrow> nat \<Rightarrow> ee_s32 option" where
  "signed_s32 neg n = (if n < 2 ^ 31 then Some (if neg then - of_nat n else of_nat n) else None)"

lemma sint_of_nat_s32: "n < 2 ^ 31 \<Longrightarrow> sint (of_nat n :: ee_s32) = int n"
  using sint_of_int_s32[of "int n"] by (simp add: in_s32_def)

lemma add_s32_nat: "a < 2 ^ 31 \<Longrightarrow> b < 2 ^ 31 \<Longrightarrow> add_s32 (of_nat a) (of_nat b) = num_s32 (a + b)"
  using add_s32_in[of "of_nat a" "of_nat b"] sint_less[of "of_nat a + of_nat b :: ee_s32"]
  by (auto simp: num_s32_def sint_of_nat_s32 in_s32_def add_s32_def)

lemma mul_s32_nat:
  assumes "a < 2 ^ 31" "b < 2 ^ 31"
  shows "mul_s32 (of_nat a) (of_nat b) = num_s32 (a * b)"
proof -
  have less: "sint (of_nat a * of_nat b :: ee_s32) < 2 ^ 31" using sint_less[of "of_nat a * of_nat b :: ee_s32"] by simp
  have eq: "sint (of_nat a :: ee_s32) * sint (of_nat b :: ee_s32) = int (a * b)" using assms by (simp add: sint_of_nat_s32)
  show ?thesis
  proof (cases "a * b < 2 ^ 31")
    case True
    with sint_of_nat_s32[OF True] show ?thesis unfolding mul_s32_def eq num_s32_def by simp
  next
    case False
    then have "\<not> int (a * b) < 2 ^ 31" unfolding of_nat_less_numeral_power_cancel_iff .
    with False less show ?thesis unfolding mul_s32_def eq num_s32_def by auto
  qed
qed

lemma mul_s32_sign: "n < 2 ^ 31 \<Longrightarrow> mul_s32 (of_nat n) (if neg then -1 else 1) = signed_s32 neg n"
  using mul_s32_in[of "of_nat n" "if neg then -1 else 1"] by (simp add: signed_s32_def sint_of_nat_s32 in_s32_def)

text \<open>One step of either digit loop; an accumulator that is too large once stays so.\<close>

lemma digit_step:
  assumes "a < 2 ^ 31" "b < 2 ^ 31" "d < 2 ^ 31"
  shows "do { r \<leftarrow> mul_s32 (of_nat a) (of_nat b); r \<leftarrow> add_s32 r (of_nat d); f r } = Option.bind (num_s32 (a * b + d)) f"
  using mul_s32_nat[OF assms(1,2)] add_s32_nat[of "a * b" d] assms(3) by (auto simp: num_s32_def)

lemma foldl_digits_ge: "(n :: nat) \<le> foldl (\<lambda>n d. n * Suc b + v d) n ds"
proof (induction ds arbitrary: n)
  case (Cons d ds)
  have "n \<le> n * Suc b + v d" by simp
  also have "\<dots> \<le> foldl (\<lambda>n d. n * Suc b + v d) (n * Suc b + v d) ds" by (rule Cons.IH)
  finally show ?case by simp
qed simp

lemma dec_digit:
  assumes "is_digit c"
  shows "of_nat (char_code c) - 48 = (of_nat (digit_val c) :: ee_s32)" "digit_val c < 10"
  using is_digit_val[OF assms] by simp_all

lemma hex_digit:
  assumes "is_hex c"
  shows "(if 9 <s (of_nat (char_code c) - 48 :: ee_s32) then 10 + of_nat (char_code c) - 97 else of_nat (char_code c) - 48)
      = (of_nat (hex_digit_val c) :: ee_s32)" "hex_digit_val c < 16"
proof -
  show "hex_digit_val c < 16" using assms is_digit_val[of c] by (auto simp: is_hex_def hex_digit_val_def is_hex_low_def)
  show "(if 9 <s (of_nat (char_code c) - 48 :: ee_s32) then 10 + of_nat (char_code c) - 97 else of_nat (char_code c) - 48)
      = (of_nat (hex_digit_val c) :: ee_s32)"
  proof (cases "is_digit c")
    case True
    then show ?thesis
      using dec_digit[OF True] sint_of_nat_s32[of "digit_val c"] by (simp add: hex_digit_val_def word_sless_alt)
  next
    case False
    with assms obtain k where k: "char_code c = 97 + k" "k < 6" "hex_digit_val c = 10 + k"
      by (auto simp: is_hex_def is_hex_low_def hex_digit_val_def le_iff_add)
    have "sint (of_nat (49 + k) :: ee_s32) = int (49 + k)" using k(2) by (intro sint_of_nat_s32) simp
    with False k show ?thesis by (simp add: word_sless_alt)
  qed
qed

lemma parseval_dec_digits:
  assumes "list_all is_digit ds" "rest = [] \<or> \<not> is_digit (hd rest)" "a < 2 ^ 31"
  shows "parseval_dec (ds @ rest) (of_nat a) =
    map_option (\<lambda>r. (r, rest)) (num_s32 (foldl (\<lambda>n d. n * 10 + digit_val d) a ds))"
  using assms(1,3)
proof (induction ds arbitrary: a)
  case Nil
  with assms(2) show ?case by (cases rest) (auto simp: num_s32_def)
next
  case (Cons d ds)
  then have d: "is_digit d" "list_all is_digit ds" by simp_all
  show ?case
    using Cons.IH[OF d(2), of "a * 10 + digit_val d"] dec_digit[OF d(1)] d(1)
      digit_step[OF Cons.prems(2), of 10 "digit_val d" "parseval_dec (ds @ rest)"]
      foldl_digits_ge[of "a * 10 + digit_val d" 9 digit_val ds]
    by (cases "a * 10 + digit_val d < 2 ^ 31") (simp_all add: num_s32_def)
qed

lemma parseval_hex_digits:
  assumes "list_all is_hex ds" "rest = [] \<or> \<not> is_hex (hd rest)" "a < 2 ^ 31"
  shows "parseval_hex (ds @ rest) (of_nat a) =
    map_option (\<lambda>r. (r, rest)) (num_s32 (foldl (\<lambda>n d. n * 16 + hex_digit_val d) a ds))"
  using assms(1,3)
proof (induction ds arbitrary: a)
  case Nil
  with assms(2) show ?case by (cases rest) (auto simp: num_s32_def is_hex_def)
next
  case (Cons d ds)
  then have d: "is_hex d" "list_all is_hex ds" by simp_all
  have "is_digit d \<or> is_hex_low d" using d(1) by (simp add: is_hex_def)
  then show ?case
    using Cons.IH[OF d(2), of "a * 16 + hex_digit_val d"] hex_digit[OF d(1)]
      digit_step[OF Cons.prems(2), of 16 "hex_digit_val d" "parseval_hex (ds @ rest)"]
      foldl_digits_ge[of "a * 16 + hex_digit_val d" 15 hex_digit_val ds]
    by (cases "a * 16 + hex_digit_val d < 2 ^ 31") (simp_all add: num_s32_def Let_def)
qed

text \<open>The suffix and the sign.\<close>

definition suffix_scale :: "string \<Rightarrow> nat" where
  "suffix_scale suf = (if suf = ''K'' then 1024 else if suf = ''M'' then 1024 * 1024 else 1)"

lemma parseval_finish:
  assumes "suf \<in> {'''', ''K'', ''M''}"
  shows "do { (r, s) \<leftarrow> map_option (\<lambda>r. (r, suf)) (num_s32 n);
       r \<leftarrow> (case s of c # _ \<Rightarrow> if c = CHR ''K'' then mul_s32 r 1024 else Some r | [] \<Rightarrow> Some r);
       r \<leftarrow> (case s of c # _ \<Rightarrow> if c = CHR ''M'' then mul_s32 r (1024 * 1024) else Some r | [] \<Rightarrow> Some r);
       mul_s32 r (if neg then -1 else 1) } = signed_s32 neg (n * suffix_scale suf)"
  using assms mul_s32_sign[of n neg] mul_s32_nat[of n 1024] mul_s32_nat[of n "1024 * 1024"] mul_s32_sign[of "n * 1024" neg]
    mul_s32_sign[of "n * (1024 * 1024)" neg]
  by (auto simp: num_s32_def suffix_scale_def signed_s32_def)

text \<open>The text of a seed as a whole.\<close>

lemma parseval_start:
  assumes "s = [] \<or> hd s \<noteq> CHR ''-''"
  shows "parseval ((if neg then ''-'' else '''') @ s) =
    do { (r, s) \<leftarrow> (case s of c # d # cs \<Rightarrow> if c = CHR ''0'' \<and> d = CHR ''x'' then parseval_hex cs 0 else parseval_dec s 0
           | _ \<Rightarrow> parseval_dec s 0);
         r \<leftarrow> (case s of c # _ \<Rightarrow> if c = CHR ''K'' then mul_s32 r 1024 else Some r | [] \<Rightarrow> Some r);
         r \<leftarrow> (case s of c # _ \<Rightarrow> if c = CHR ''M'' then mul_s32 r (1024 * 1024) else Some r | [] \<Rightarrow> Some r);
         mul_s32 r (if neg then -1 else 1) }"
  using assms by (cases s) (auto simp: parseval_def simp del: parseval_dec.simps parseval_hex.simps)

lemma not_digits: "\<not> is_digit (CHR ''K'')" "\<not> is_digit (CHR ''M'')" "\<not> is_digit (CHR ''-'')" "\<not> is_digit (CHR ''x'')"
  "\<not> is_hex (CHR ''K'')" "\<not> is_hex (CHR ''M'')"
  by (simp_all add: is_digit_def is_hex_def is_hex_low_def char_code_def)

lemma parseval_dec_eq:
  assumes "list_all is_digit ds" "suf \<in> {'''', ''K'', ''M''}"
  shows "parseval ((if neg then ''-'' else '''') @ ds @ suf) = signed_s32 neg (dec_val ds * suffix_scale suf)"
proof -
  have first: "ds @ suf = [] \<or> hd (ds @ suf) \<noteq> CHR ''-''" using assms not_digits by (cases ds) auto
  have second: "(case ds @ suf of c # d # cs \<Rightarrow> if c = CHR ''0'' \<and> d = CHR ''x'' then parseval_hex cs 0 else parseval_dec (ds @ suf) 0
      | _ \<Rightarrow> parseval_dec (ds @ suf) 0) = parseval_dec (ds @ suf) 0"
    using assms not_digits by (cases ds; cases "tl ds") auto
  have "parseval_dec (ds @ suf) 0 = map_option (\<lambda>r. (r, suf)) (num_s32 (dec_val ds))"
    using parseval_dec_digits[OF assms(1), of suf 0] assms(2) not_digits by (auto simp: dec_val_def)
  then show ?thesis unfolding parseval_start[OF first] second using parseval_finish[OF assms(2)] by simp
qed

lemma parseval_hex_eq:
  assumes "list_all is_hex hs" "suf \<in> {'''', ''K'', ''M''}"
  shows "parseval ((if neg then ''-'' else '''') @ ''0x'' @ hs @ suf) = signed_s32 neg (hex_val hs * suffix_scale suf)"
proof -
  have "parseval_hex (hs @ suf) 0 = map_option (\<lambda>r. (r, suf)) (num_s32 (hex_val hs))"
    using parseval_hex_digits[OF assms(1), of suf 0] assms(2) not_digits by (auto simp: hex_val_def)
  then show ?thesis using parseval_start[of "''0x'' @ hs @ suf" neg] parseval_finish[OF assms(2)] by simp
qed

section \<open>The type check\<close>

text \<open>
  The sizes the compiler gives the port's types, in bytes; \<open>check_data_types\<close> counts the ones
  that differ from the width in their name. The result is the count and the lines it prints, in order.
\<close>

record type_sizes =
  size_u8 :: nat
  size_u16 :: nat
  size_s16 :: nat
  size_s32 :: nat
  size_u32 :: nat
  size_ptr_int :: nat
  size_int_ptr :: nat

definition type_error :: "bool \<Rightarrow> string \<Rightarrow> ee_u8 \<times> string list \<Rightarrow> ee_u8 \<times> string list" where
  "type_error bad msg = (\<lambda>(retval, msgs). if bad then (retval + 1, msgs @ [msg]) else (retval, msgs))"

definition check_data_types :: "type_sizes \<Rightarrow> ee_u8 \<times> string list" where
  "check_data_types t =
     (let r = (0, []);
          r = type_error (size_u8 t \<noteq> 1) ''ERROR: ee_u8 is not an 8b datatype!'' r;
          r = type_error (size_u16 t \<noteq> 2) ''ERROR: ee_u16 is not a 16b datatype!'' r;
          r = type_error (size_s16 t \<noteq> 2) ''ERROR: ee_s16 is not a 16b datatype!'' r;
          r = type_error (size_s32 t \<noteq> 4) ''ERROR: ee_s32 is not a 32b datatype!'' r;
          r = type_error (size_u32 t \<noteq> 4) ''ERROR: ee_u32 is not a 32b datatype!'' r;
          (retval, msgs) = type_error (size_ptr_int t \<noteq> size_int_ptr t)
            ''ERROR: ee_ptr_int is not a datatype that holds an int pointer!'' r
      in (retval, msgs @ (if 0 < retval then [''ERROR: Please modify the datatypes in core_portme.h!''] else [])))"

text \<open>The ilp32 ABI the build uses.\<close>

definition ilp32 :: type_sizes where
  "ilp32 = \<lparr>size_u8 = 1, size_u16 = 2, size_s16 = 2, size_s32 = 4, size_u32 = 4,
            size_ptr_int = 4, size_int_ptr = 4\<rparr>"

lemma check_data_types_ilp32: "check_data_types ilp32 = (0, [])"
  by (simp add: check_data_types_def type_error_def ilp32_def)

section \<open>Properties\<close>

text \<open>
  C27. The CRC routines of all three widths compute the bit-serial reflected CRC-16 (generator
  \<open>0xA001\<close>) over the bits of their argument, least significant bit first, for every data value
  and every register value.
\<close>

theorem crc_matches_reference:
  "crcu8 d8 c = crc_bits (bits_lsb_first d8) c \<and>
   crcu16 d16 c = crc_bits (bits_lsb_first d16) c \<and>
   crc16 d16 c = crc_bits (bits_lsb_first d16) c \<and>
   crcu32 d32 c = crc_bits (bits_lsb_first d32) c"
  by (simp add: crc_as_bits)

text \<open>
  C26. Burst detection: two sequences of 16-bit values whose bit streams differ, and differ only
  inside a window of at most 16 consecutive bits (which may straddle a value boundary), never
  have the same CRC from the same start.
\<close>

theorem crc16_list_detects_burst:
  assumes "concat (map bits_lsb_first us) = pre @ as @ post"
    and "concat (map bits_lsb_first vs) = pre @ bs @ post"
    and "length as = length bs" "length bs \<le> 16" "as \<noteq> bs"
  shows "crc16_list us c \<noteq> crc16_list vs c"
  using assms by (simp add: crc16_list_bits crc_bits_inj crc_bits_short_inj)

theorem crc16_list_detects_burst_witness:
  "crc16_list [0x8000, 1] 0xffff \<noteq> crc16_list [0, 0] 0xffff"
proof (rule crc16_list_detects_burst)
  show "concat (map bits_lsb_first [0x8000, 1 :: ee_s16])
      = replicate 15 False @ [True, True] @ replicate 15 False"
    by (simp add: bits_lsb_first_def upt_rec numeral_eq_Suc)
  show "concat (map bits_lsb_first [0, 0 :: ee_s16])
      = replicate 15 False @ [False, False] @ replicate 15 False"
    by (simp add: bits_lsb_first_def upt_rec numeral_eq_Suc)
qed simp_all

text \<open>
  C29. Parsing a seed: an optional minus sign, any run of decimal digits, or \<open>0x\<close> and any run of hexadecimal digits, and an
  optional \<open>K\<close> or \<open>M\<close>. If the number the digits denote, scaled by 1024 or 1048576, is below \<open>2 ^ 31\<close>, the result is that number
  with its sign. If it is not, a signed operation on the way overflows and the code is undefined; with a minus sign that includes
  the number \<open>2 ^ 31\<close>, whose negation \<open>ee_s32\<close> could hold.
\<close>

theorem parseval_number:
  assumes "list_all is_digit ds" "list_all is_hex hs" "suf \<in> {'''', ''K'', ''M''}"
  shows "parseval ((if neg then ''-'' else '''') @ ds @ suf) = signed_s32 neg (dec_val ds * suffix_scale suf) \<and>
    parseval ((if neg then ''-'' else '''') @ ''0x'' @ hs @ suf) = signed_s32 neg (hex_val hs * suffix_scale suf)"
  using parseval_dec_eq parseval_hex_eq assms by blast

theorem parseval_number_witness:
  "parseval ''-12K'' = Some (- 12288) \<and> parseval ''0x7ff'' = Some 2047 \<and>
   parseval ''-2147483648'' = None \<and> parseval ''0x80000000'' = None"
proof -
  have d: "list_all is_digit ''12''" "list_all is_hex ''7ff''" "list_all is_digit ''2147483648''" "list_all is_hex ''80000000''"
    by (simp_all add: is_digit_def is_hex_def is_hex_low_def char_code_def)
  show ?thesis
    using parseval_number[OF d(1,2), of "''K''" True] parseval_number[OF d(1,2), of "''''" False]
      parseval_number[OF d(3,4), of "''''" True] parseval_number[OF d(3,4), of "''''" False]
    by (simp add: digit_val_def hex_digit_val_def is_digit_def hex_val_def suffix_scale_def signed_s32_def char_code_def)
qed

end
