(* ===== verification/Crc_Eval.thy ===== *)
theory Crc_Eval
  imports Core_Util
begin

text \<open>
  The CRC of \<open>coremark/src/core_util.c\<close> in a form that evaluates quickly: a shift register that is a list of sixteen
  bits, least significant first, fed from the binary digits of an integer. The equations replace the definitions on
  words in the evaluation of whole runs.
\<close>

section \<open>The CRC on lists of bits\<close>

definition crc_shift :: "bool \<Rightarrow> bool list \<Rightarrow> bool list" where
  "crc_shift b cs =
     (case cs of [] \<Rightarrow> []
      | c # cs \<Rightarrow> if b = c then cs @ [False]
          else map2 (\<lambda>p d. p \<noteq> d) [True, False, False, False, False, False, False, False, False, False, False, False, False, True, False, True] (cs @ [False]))"

lemma crc_shift_16 [code]:
  "crc_shift b [c0, c1, c2, c3, c4, c5, c6, c7, c8, c9, c10, c11, c12, c13, c14, c15] =
     (if b = c0 then [c1, c2, c3, c4, c5, c6, c7, c8, c9, c10, c11, c12, c13, c14, c15, False]
      else [\<not> c1, c2, c3, c4, c5, c6, c7, c8, c9, c10, c11, c12, c13, \<not> c14, c15, True])"
  by (simp add: crc_shift_def)

fun int_bits :: "nat \<Rightarrow> int \<Rightarrow> bool list" where
  "int_bits 0 i = []"
| "int_bits (Suc n) i = odd i # int_bits n (i div 2)"

fun bits_int :: "bool list \<Rightarrow> int" where
  "bits_int [] = 0"
| "bits_int (b # bs) = of_bool b + 2 * bits_int bs"

lemma int_bits_bit: "int_bits n i = map (bit i) [0..<n]"
proof (induction n arbitrary: i)
  case (Suc n)
  have "map (bit i) [0..<Suc n] = bit i 0 # map (\<lambda>k. bit i (Suc k)) [0..<n]" by (simp add: upt_conv_Cons map_Suc_upt[symmetric] comp_def del: upt_Suc)
  with Suc show ?case by (simp add: bit_Suc bit_0)
qed simp

fun num_bits :: "nat \<Rightarrow> num \<Rightarrow> bool list" where
  "num_bits 0 m = []"
| "num_bits (Suc n) num.One = True # replicate n False"
| "num_bits (Suc n) (num.Bit0 m) = False # num_bits n m"
| "num_bits (Suc n) (num.Bit1 m) = True # num_bits n m"

lemma int_bits_0: "int_bits n 0 = replicate n False"
  by (induction n) simp_all

lemma int_bits_Pos: "int_bits n (Int.Pos m) = num_bits n m"
  by (induction n m rule: num_bits.induct) (simp_all add: int_bits_0 numeral_Bit1_div_2)

declare int_bits_0 [code] int_bits_Pos [code]

lemma bits_lsb_first_int: "bits_lsb_first (w :: 16 word) = int_bits 16 (uint w)"
  by (simp add: bits_lsb_first_def int_bits_bit bit_uint_iff)

lemma pack_bits_int: "pack_bits bs = word_of_int (bits_int bs)"
  by (induction bs) (simp_all add: pack_bits_def)

lemma pack_lsb_first: "pack_bits (bits_lsb_first w) = w"
  by (rule bit_word_eqI) (simp add: bit_pack_bits bits_lsb_first_def)

lemma crc_shift_bit: "bits_lsb_first (crc_bit b w) = crc_shift b (bits_lsb_first w)"
proof -
  have l: "length (crc_shift b (bits_lsb_first w)) = 16"
    by (simp add: crc_shift_def bits_lsb_first_def upt_rec split: list.splits)
  have top: "\<not> bit w (Suc (Suc (Suc (Suc (Suc (Suc (Suc (Suc (Suc (Suc (Suc (Suc (Suc (Suc (Suc (Suc 0))))))))))))))))" using bit_imp_le_length[of w 16] by (auto simp: eval_nat_numeral)
  show ?thesis
  proof (rule nth_equalityI)
    fix i assume "i < length (bits_lsb_first (crc_bit b w))"
    then have "i < 16" by (simp add: bits_lsb_first_def)
    then have "i \<in> {0, 1, 2, 3, 4, 5, 6, 7, 8, 9, 10, 11, 12, 13, 14, 15}" by (simp only: less_16_cases)
    then show "bits_lsb_first (crc_bit b w) ! i = crc_shift b (bits_lsb_first w) ! i"
      by (auto simp: crc_shift_def bits_lsb_first_def upt_rec crc_bit_def bit_simps top simp flip: bit_0)
  qed (use l in simp)
qed

lemma crc_shifts: "bits_lsb_first (crc_bits bs w) = fold crc_shift bs (bits_lsb_first w)"
  by (induction bs arbitrary: w) (simp_all add: crc_shift_bit)

definition crc16_fast :: "int \<Rightarrow> int \<Rightarrow> int" where
  "crc16_fast v c = bits_int (fold crc_shift (int_bits 16 v) (int_bits 16 c))"

lemma crcu16_fast: "crcu16 v c = word_of_int (crc16_fast (uint v) (uint c))"
  unfolding crc16_fast_def crcu16_bits
  by (metis bits_lsb_first_int crc_shifts pack_bits_int pack_lsb_first)

lemma crc16_fast: "crc16 v c = word_of_int (crc16_fast (uint v) (uint c))"
  by (simp add: crc16_def crcu16_fast)

declare crcu16_fast [code] crc16_fast [code]

end
