(* ===== verification/Core_State.thy ===== *)
theory Core_State
  imports Crc_Eval
begin

text \<open>
  \<open>coremark/src/core_state.c\<close>: the number-recognising state machine (\<open>core_state_transition\<close>),
  its input generator (\<open>core_init_state\<close>) and the benchmark that runs it twice over a memory block,
  once clean and once corrupted (\<open>core_bench_state\<close>).

  A memory block is the list of its bytes and a pointer into it is an index. Reads and writes
  outside the block are \<open>None\<close>.
\<close>

section \<open>Bytes\<close>

definition ch :: "char \<Rightarrow> ee_u8" where
  "ch c = of_nat (char_code c)"

definition bytes :: "string \<Rightarrow> ee_u8 list" where
  "bytes s = map ch s"

lemma ch_simps [simp]:
  "ch (CHR '','') = 44" "ch (CHR ''+'') = 43" "ch (CHR ''-'') = 45" "ch (CHR ''.'') = 46"
  "ch (CHR ''0'') = 48" "ch (CHR ''9'') = 57" "ch (CHR ''E'') = 69" "ch (CHR ''e'') = 101"
  by (simp_all add: ch_def char_code_def)

section \<open>The state machine\<close>

datatype core_state =
  CORE_START | CORE_INVALID | CORE_S1 | CORE_S2 | CORE_INT | CORE_FLOAT | CORE_EXPONENT
  | CORE_SCIENTIFIC

text \<open>The order of the enumeration, and an array of \<open>ee_u32\<close> counters indexed by it.\<close>

definition core_states :: "core_state list" where
  "core_states = [CORE_START, CORE_INVALID, CORE_S1, CORE_S2, CORE_INT, CORE_FLOAT,
                  CORE_EXPONENT, CORE_SCIENTIFIC]"

type_synonym counts = "core_state \<Rightarrow> ee_u32"

definition zero_counts :: counts where
  "zero_counts = (\<lambda>_. 0)"

definition incr :: "core_state \<Rightarrow> counts \<Rightarrow> counts" where
  "incr st tc = tc(st := tc st + 1)"

definition ee_isdigit :: "ee_u8 \<Rightarrow> ee_u8" where
  "ee_isdigit c = (if ch (CHR ''0'') \<le> c \<and> c \<le> ch (CHR ''9'') then 1 else 0)"

text \<open>The \<open>switch (state)\<close> of the loop body: the next state and the updated counters.\<close>

fun state_switch :: "core_state \<Rightarrow> ee_u8 \<Rightarrow> counts \<Rightarrow> core_state \<times> counts" where
  "state_switch CORE_START nsym tc =
     (let (st, tc) =
        (if ee_isdigit nsym \<noteq> 0 then (CORE_INT, tc)
         else if nsym = ch (CHR ''+'') \<or> nsym = ch (CHR ''-'') then (CORE_S1, tc)
         else if nsym = ch (CHR ''.'') then (CORE_FLOAT, tc)
         else (CORE_INVALID, incr CORE_INVALID tc))
      in (st, incr CORE_START tc))"
| "state_switch CORE_S1 nsym tc =
     (if ee_isdigit nsym \<noteq> 0 then (CORE_INT, incr CORE_S1 tc)
      else if nsym = ch (CHR ''.'') then (CORE_FLOAT, incr CORE_S1 tc)
      else (CORE_INVALID, incr CORE_S1 tc))"
| "state_switch CORE_INT nsym tc =
     (if nsym = ch (CHR ''.'') then (CORE_FLOAT, incr CORE_INT tc)
      else if ee_isdigit nsym = 0 then (CORE_INVALID, incr CORE_INT tc)
      else (CORE_INT, tc))"
| "state_switch CORE_FLOAT nsym tc =
     (if nsym = ch (CHR ''E'') \<or> nsym = ch (CHR ''e'') then (CORE_S2, incr CORE_FLOAT tc)
      else if ee_isdigit nsym = 0 then (CORE_INVALID, incr CORE_FLOAT tc)
      else (CORE_FLOAT, tc))"
| "state_switch CORE_S2 nsym tc =
     (if nsym = ch (CHR ''+'') \<or> nsym = ch (CHR ''-'') then (CORE_EXPONENT, incr CORE_S2 tc)
      else (CORE_INVALID, incr CORE_S2 tc))"
| "state_switch CORE_EXPONENT nsym tc =
     (if ee_isdigit nsym \<noteq> 0 then (CORE_SCIENTIFIC, incr CORE_EXPONENT tc)
      else (CORE_INVALID, incr CORE_EXPONENT tc))"
| "state_switch CORE_SCIENTIFIC nsym tc =
     (if ee_isdigit nsym = 0 then (CORE_INVALID, incr CORE_INVALID tc)
      else (CORE_SCIENTIFIC, tc))"
| "state_switch CORE_INVALID nsym tc = (CORE_INVALID, tc)"

text \<open>The scanning loop: \<open>str\<close> moves right until a NUL, a comma or the invalid state.\<close>

function core_state_loop ::
  "ee_u8 list \<Rightarrow> nat \<Rightarrow> core_state \<Rightarrow> counts \<Rightarrow> (core_state \<times> nat \<times> counts) option" where
  "core_state_loop mem str st tc =
     (case rd mem str of
        None \<Rightarrow> None
      | Some nsym \<Rightarrow>
          if nsym = 0 \<or> st = CORE_INVALID then Some (st, str, tc)
          else if nsym = ch (CHR '','') then Some (st, Suc str, tc)
          else (let (st', tc') = state_switch st nsym tc
                in core_state_loop mem (Suc str) st' tc'))"
  by pat_completeness auto
termination
  by (relation "measure (\<lambda>(mem, str, st, tc). length mem - str)") (auto simp: opt_simps)

declare core_state_loop.simps [simp del]

definition core_state_transition ::
  "ee_u8 list \<Rightarrow> nat \<Rightarrow> counts \<Rightarrow> (core_state \<times> nat \<times> counts) option" where
  "core_state_transition mem instr transition_count =
     core_state_loop mem instr CORE_START transition_count"

text \<open>The scan stops at the first NUL at the latest.\<close>

lemma core_state_loop_bounds:
  assumes "n < length mem" "mem ! n = 0" "str \<le> n"
  shows "\<exists>st' str' tc'. core_state_loop mem str st tc = Some (st', str', tc') \<and> str \<le> str' \<and> str' \<le> n
    \<and> (mem ! str \<noteq> 0 \<and> st \<noteq> CORE_INVALID \<longrightarrow> str < str')"
  using assms
proof (induction mem str st tc rule: core_state_loop.induct)
  case (1 mem str st tc)
  show ?case
  proof (cases "mem ! str = 0 \<or> st = CORE_INVALID \<or> mem ! str = ch (CHR '','')")
    case True
    with "1.prems" show ?thesis
      by (subst core_state_loop.simps) (auto simp: Suc_le_eq order_le_less)
  next
    case False
    obtain st' tc' where sw: "state_switch st (mem ! str) tc = (st', tc')" by fastforce
    from False "1.prems" have lt: "Suc str \<le> n" by (metis Suc_leI order_le_imp_less_or_eq)
    then have rd: "rd mem str = Some (mem ! str)" using "1.prems" by simp
    from "1.IH"[OF rd _ _ sw[symmetric] refl] False lt "1.prems"
    obtain r where "core_state_loop mem (Suc str) st' tc' = Some r"
      "Suc str \<le> fst (snd r)" "fst (snd r) \<le> n"
      by fastforce
    with False sw rd show ?thesis
      by (subst core_state_loop.simps) (cases r, auto)
  qed
qed

lemma core_state_transition_bounds:
  assumes "n < length mem" "mem ! n = 0" "str < n" "mem ! str \<noteq> 0"
  shows "\<exists>st str' tc'. core_state_transition mem str tc = Some (st, str', tc') \<and> str < str' \<and> str' \<le> n"
  using core_state_loop_bounds[of n mem str CORE_START tc] assms
  by (fastforce simp: core_state_transition_def)

text \<open>Whatever the memory holds, a scan that returns from a non-NUL byte has moved.\<close>

lemma core_state_loop_mono:
  "core_state_loop mem str st tc = Some (st', str', tc') \<Longrightarrow> str \<le> str'"
proof (induction mem str st tc rule: core_state_loop.induct)
  case (1 mem str st tc)
  show ?case
  proof (cases "rd mem str")
    case None
    with "1.prems" show ?thesis by (simp add: core_state_loop.simps [of mem str])
  next
    case (Some c)
    obtain s2 t2 where sw: "state_switch st c tc = (s2, t2)" by fastforce
    note IH = "1.IH"[OF Some _ _ sw[symmetric] refl]
    from Some "1.prems" sw IH show ?thesis
      by (simp add: core_state_loop.simps [of mem str] split: if_splits)
  qed
qed

lemma core_state_transition_progress:
  assumes "core_state_transition mem str tc = Some (st, str', tc')" "rd mem str = Some c" "c \<noteq> 0"
  shows "str < str'"
  using assms unfolding core_state_transition_def
  by (subst (asm) core_state_loop.simps)
     (auto split: if_splits prod.splits dest!: core_state_loop_mono)

section \<open>The language of the machine\<close>

text \<open>
  What the states stand for, as sets of byte strings, written without reference to the machine:
  an optional sign, digits, a point, an exponent.
\<close>

definition digit_byte :: "ee_u8 \<Rightarrow> bool" where
  "digit_byte c \<longleftrightarrow> 48 \<le> c \<and> c \<le> 57"

definition sign_byte :: "ee_u8 \<Rightarrow> bool" where
  "sign_byte c \<longleftrightarrow> c = 43 \<or> c = 45"

definition opt_sign :: "ee_u8 list \<Rightarrow> bool" where
  "opt_sign s \<longleftrightarrow> s = [] \<or> (\<exists>c. s = [c] \<and> sign_byte c)"

definition int_form :: "ee_u8 list \<Rightarrow> bool" where
  "int_form w \<longleftrightarrow> (\<exists>s ds. w = s @ ds \<and> opt_sign s \<and> ds \<noteq> [] \<and> list_all digit_byte ds)"

definition float_form :: "ee_u8 list \<Rightarrow> bool" where
  "float_form w \<longleftrightarrow> (\<exists>s as bs. w = s @ as @ [46] @ bs \<and> opt_sign s \<and>
      list_all digit_byte as \<and> list_all digit_byte bs)"

definition exp_mark_form :: "ee_u8 list \<Rightarrow> bool" where
  "exp_mark_form w \<longleftrightarrow> (\<exists>f e. w = f @ [e] \<and> float_form f \<and> (e = 69 \<or> e = 101))"

definition exp_sign_form :: "ee_u8 list \<Rightarrow> bool" where
  "exp_sign_form w \<longleftrightarrow> (\<exists>f e. w = f @ [e] \<and> exp_mark_form f \<and> sign_byte e)"

definition sci_form :: "ee_u8 list \<Rightarrow> bool" where
  "sci_form w \<longleftrightarrow> (\<exists>f ds. w = f @ ds \<and> exp_sign_form f \<and> ds \<noteq> [] \<and> list_all digit_byte ds)"

fun form_of :: "core_state \<Rightarrow> ee_u8 list \<Rightarrow> bool" where
  "form_of CORE_START w = (w = [])"
| "form_of CORE_S1 w = (\<exists>c. w = [c] \<and> sign_byte c)"
| "form_of CORE_INT w = int_form w"
| "form_of CORE_FLOAT w = float_form w"
| "form_of CORE_S2 w = exp_mark_form w"
| "form_of CORE_EXPONENT w = exp_sign_form w"
| "form_of CORE_SCIENTIFIC w = sci_form w"
| "form_of CORE_INVALID w = False"

text \<open>The machine as a run of its transition function over a byte string.\<close>

definition step_state :: "core_state \<Rightarrow> ee_u8 \<Rightarrow> core_state" where
  "step_state st c = fst (state_switch st c zero_counts)"

definition run_states :: "core_state \<Rightarrow> ee_u8 list \<Rightarrow> core_state" where
  "run_states st w = foldl step_state st w"

lemma fst_state_switch: "fst (state_switch st c tc) = step_state st c"
  by (cases st) (simp_all add: step_state_def)

lemma isdigit_iff [simp]:
  "ee_isdigit c = 0 \<longleftrightarrow> \<not> digit_byte c" "ee_isdigit c \<noteq> 0 \<longleftrightarrow> digit_byte c"
  by (auto simp: ee_isdigit_def digit_byte_def)

lemma run_states_simps [simp]:
  "run_states st [] = st"
  "run_states st (w @ [c]) = step_state (run_states st w) c"
  "run_states st (c # w) = run_states (step_state st c) w"
  by (simp_all add: run_states_def)

lemma step_state_cases:
  "step_state CORE_START c = (if digit_byte c then CORE_INT else if sign_byte c then CORE_S1
     else if c = 46 then CORE_FLOAT else CORE_INVALID)"
  "step_state CORE_S1 c = (if digit_byte c then CORE_INT else if c = 46 then CORE_FLOAT
     else CORE_INVALID)"
  "step_state CORE_INT c = (if c = 46 then CORE_FLOAT else if digit_byte c then CORE_INT
     else CORE_INVALID)"
  "step_state CORE_FLOAT c = (if c = 69 \<or> c = 101 then CORE_S2 else if digit_byte c then CORE_FLOAT
     else CORE_INVALID)"
  "step_state CORE_S2 c = (if sign_byte c then CORE_EXPONENT else CORE_INVALID)"
  "step_state CORE_EXPONENT c = (if digit_byte c then CORE_SCIENTIFIC else CORE_INVALID)"
  "step_state CORE_SCIENTIFIC c = (if digit_byte c then CORE_SCIENTIFIC else CORE_INVALID)"
  "step_state CORE_INVALID c = CORE_INVALID"
  by (simp_all add: step_state_def sign_byte_def)

lemma not_digit_bytes [simp]:
  "\<not> digit_byte 46" "\<not> digit_byte 43" "\<not> digit_byte 45" "\<not> digit_byte 69" "\<not> digit_byte 101"
  "\<not> sign_byte 46" "\<not> digit_byte 0" "\<not> digit_byte 44"
  by (simp_all add: digit_byte_def sign_byte_def)

text \<open>Sound: a run that ends in a state has read a string of that state's form.\<close>

lemma opt_sign_simps [simp]: "opt_sign []" "opt_sign [c] \<longleftrightarrow> sign_byte c"
  by (simp_all add: opt_sign_def)

lemma int_formI: "opt_sign s \<Longrightarrow> ds \<noteq> [] \<Longrightarrow> list_all digit_byte ds \<Longrightarrow> int_form (s @ ds)"
  by (auto simp: int_form_def)

lemma float_formI:
  "opt_sign s \<Longrightarrow> list_all digit_byte as \<Longrightarrow> list_all digit_byte bs \<Longrightarrow> float_form (s @ as @ [46] @ bs)"
  by (auto simp: float_form_def)

lemma sci_formI:
  "exp_sign_form f \<Longrightarrow> ds \<noteq> [] \<Longrightarrow> list_all digit_byte ds \<Longrightarrow> sci_form (f @ ds)"
  by (auto simp: sci_form_def)

text \<open>One more byte: the form of the successor state, for every live transition.\<close>

lemma form_snoc:
  "digit_byte c \<Longrightarrow> form_of CORE_INT [c]"
  "sign_byte c \<Longrightarrow> form_of CORE_S1 [c]"
  "digit_byte c \<Longrightarrow> form_of CORE_S1 w \<Longrightarrow> form_of CORE_INT (w @ [c])"
  "digit_byte c \<Longrightarrow> form_of CORE_INT w \<Longrightarrow> form_of CORE_INT (w @ [c])"
  "form_of CORE_FLOAT [46]"
  "form_of CORE_S1 w \<Longrightarrow> form_of CORE_FLOAT (w @ [46])"
  "form_of CORE_INT w \<Longrightarrow> form_of CORE_FLOAT (w @ [46])"
  "digit_byte c \<Longrightarrow> form_of CORE_FLOAT w \<Longrightarrow> form_of CORE_FLOAT (w @ [c])"
  "e = 69 \<or> e = 101 \<Longrightarrow> form_of CORE_FLOAT w \<Longrightarrow> form_of CORE_S2 (w @ [e])"
  "sign_byte c \<Longrightarrow> form_of CORE_S2 w \<Longrightarrow> form_of CORE_EXPONENT (w @ [c])"
  "digit_byte c \<Longrightarrow> form_of CORE_EXPONENT w \<Longrightarrow> form_of CORE_SCIENTIFIC (w @ [c])"
  "digit_byte c \<Longrightarrow> form_of CORE_SCIENTIFIC w \<Longrightarrow> form_of CORE_SCIENTIFIC (w @ [c])"
proof -
  show "digit_byte c \<Longrightarrow> form_of CORE_INT [c]"
    using int_formI[of "[]" "[c]"] by simp
  show "sign_byte c \<Longrightarrow> form_of CORE_S1 [c]" by simp
  show "digit_byte c \<Longrightarrow> form_of CORE_S1 w \<Longrightarrow> form_of CORE_INT (w @ [c])"
    using int_formI[of w "[c]"] by auto
  show "form_of CORE_INT (w @ [c])" if c: "digit_byte c" and w: "form_of CORE_INT w"
  proof -
    from w obtain s ds where "w = s @ ds" "opt_sign s" "list_all digit_byte ds"
      by (auto simp: int_form_def)
    with c show ?thesis using int_formI[of s "ds @ [c]"] by simp
  qed
  show "form_of CORE_FLOAT [46]" using float_formI[of "[]" "[]" "[]"] by simp
  show "form_of CORE_S1 w \<Longrightarrow> form_of CORE_FLOAT (w @ [46])"
    using float_formI[of w "[]" "[]"] by auto
  show "form_of CORE_FLOAT (w @ [46])" if w: "form_of CORE_INT w"
  proof -
    from w obtain s ds where "w = s @ ds" "opt_sign s" "list_all digit_byte ds"
      by (auto simp: int_form_def)
    then show ?thesis using float_formI[of s ds "[]"] by simp
  qed
  show "form_of CORE_FLOAT (w @ [c])" if c: "digit_byte c" and w: "form_of CORE_FLOAT w"
  proof -
    from w obtain s as bs where "w = s @ as @ [46] @ bs" "opt_sign s" "list_all digit_byte as"
      "list_all digit_byte bs" by (auto simp: float_form_def)
    with c show ?thesis using float_formI[of s as "bs @ [c]"] by simp
  qed
  show "e = 69 \<or> e = 101 \<Longrightarrow> form_of CORE_FLOAT w \<Longrightarrow> form_of CORE_S2 (w @ [e])"
    by (simp add: exp_mark_form_def)
  show "sign_byte c \<Longrightarrow> form_of CORE_S2 w \<Longrightarrow> form_of CORE_EXPONENT (w @ [c])"
    by (simp add: exp_sign_form_def)
  show "digit_byte c \<Longrightarrow> form_of CORE_EXPONENT w \<Longrightarrow> form_of CORE_SCIENTIFIC (w @ [c])"
    using sci_formI[of w "[c]"] by simp
  show "form_of CORE_SCIENTIFIC (w @ [c])" if c: "digit_byte c" and w: "form_of CORE_SCIENTIFIC w"
  proof -
    from w obtain f ds where "w = f @ ds" "exp_sign_form f" "list_all digit_byte ds"
      by (auto simp: sci_form_def)
    with c show ?thesis using sci_formI[of f "ds @ [c]"] by simp
  qed
qed

lemma step_state_form:
  "form_of st w \<Longrightarrow> step_state st c \<noteq> CORE_INVALID \<Longrightarrow> form_of (step_state st c) (w @ [c])"
  by (cases st)
     (auto simp: step_state_cases simp del: form_of.simps(2-7) split: if_splits intro: form_snoc)

lemma run_states_sound:
  "run_states CORE_START w \<noteq> CORE_INVALID \<Longrightarrow> form_of (run_states CORE_START w) w"
proof (induction w rule: rev_induct)
  case (snoc c w)
  then show ?case using step_state_form[of "run_states CORE_START w" w c]
    by (cases "run_states CORE_START w = CORE_INVALID") (auto simp: step_state_cases)
qed simp

text \<open>Complete: a string of a state's form takes the machine there.\<close>

lemma run_states_digits:
  "list_all digit_byte ds \<Longrightarrow> st \<in> {CORE_INT, CORE_FLOAT, CORE_SCIENTIFIC} \<Longrightarrow> run_states st ds = st"
  by (induction ds) (auto simp: step_state_cases digit_byte_def)

lemma run_states_append: "run_states st (u @ w) = run_states (run_states st u) w"
  by (simp add: run_states_def)

lemma run_states_form: "form_of st w \<Longrightarrow> run_states CORE_START w = st"
proof -
  have dig: "ds \<noteq> [] \<Longrightarrow> list_all digit_byte ds \<Longrightarrow> step_state st (hd ds) = st' \<Longrightarrow>
      st' \<in> {CORE_INT, CORE_FLOAT, CORE_SCIENTIFIC} \<Longrightarrow> run_states st ds = st'" for st st' ds
    by (cases ds) (auto simp: run_states_digits)
  have int: "run_states CORE_START w = CORE_INT" if iw: "int_form w" for w
  proof -
    from iw obtain s ds where w: "w = s @ ds" "opt_sign s" "ds \<noteq> []" "list_all digit_byte ds"
      by (auto simp: int_form_def)
    have "digit_byte (hd ds)" using w by (cases ds) auto
    with w show ?thesis
      by (auto simp: run_states_append opt_sign_def step_state_cases sign_byte_def intro!: dig)
  qed
  have float: "run_states CORE_START w = CORE_FLOAT" if fw: "float_form w" for w
  proof -
    from fw obtain s as bs where w: "w = s @ as @ [46] @ bs" "opt_sign s"
      "list_all digit_byte as" "list_all digit_byte bs" by (auto simp: float_form_def)
    have "run_states CORE_START (s @ as) \<in> {CORE_START, CORE_S1, CORE_INT}"
    proof (cases "as = []")
      case True
      then show ?thesis using w by (auto simp: opt_sign_def step_state_cases sign_byte_def)
    next
      case False
      with w have "int_form (s @ as)" by (auto simp: int_form_def)
      then show ?thesis using int by simp
    qed
    then have "run_states CORE_START (s @ as @ [46]) = CORE_FLOAT"
      by (auto simp: step_state_cases simp flip: append_assoc)
    then show ?thesis using w
      by (metis append.assoc insertI1 insert_commute run_states_append run_states_digits)
  qed
  have mark: "run_states CORE_START w = CORE_S2" if "exp_mark_form w" for w
    using that float by (auto simp: exp_mark_form_def step_state_cases)
  have sgn: "run_states CORE_START w = CORE_EXPONENT" if "exp_sign_form w" for w
    using that mark by (auto simp: exp_sign_form_def step_state_cases)
  have sci: "run_states CORE_START w = CORE_SCIENTIFIC" if sw: "sci_form w" for w
  proof -
    from sw obtain f ds where w: "w = f @ ds" "exp_sign_form f" "ds \<noteq> []" "list_all digit_byte ds"
      by (auto simp: sci_form_def)
    have "digit_byte (hd ds)" using w by (cases ds) auto
    with w sgn show ?thesis
      by (auto simp: run_states_append step_state_cases intro!: dig)
  qed
  show "form_of st w \<Longrightarrow> run_states CORE_START w = st"
    using int float mark sgn sci by (cases st) (auto simp: step_state_cases sign_byte_def)
qed

lemma run_states_iff: "st \<noteq> CORE_INVALID \<Longrightarrow> run_states CORE_START w = st \<longleftrightarrow> form_of st w"
  using run_states_form run_states_sound by blast

lemma run_states_INVALID [simp]: "run_states CORE_INVALID w = CORE_INVALID"
  by (induction w) (simp_all add: step_state_cases)

section \<open>The scan on memory\<close>

lemma core_state_loop_INVALID:
  "str < length mem \<Longrightarrow> core_state_loop mem str CORE_INVALID tc = Some (CORE_INVALID, str, tc)"
  by (simp add: core_state_loop.simps)

lemma core_state_loop_spec:
  assumes "st \<noteq> CORE_INVALID" "0 \<notin> set w" "44 \<notin> set w" "t = 0 \<or> t = 44"
  shows "\<exists>k tc'. core_state_loop (pre @ w @ t # post) (length pre) st tc
      = Some (run_states st w, length pre + k, tc') \<and>
    (if run_states st w \<noteq> CORE_INVALID then k = length w + (if t = 44 then 1 else 0)
     else 0 < k \<and> k \<le> length w \<and> run_states st (take (k - 1) w) \<noteq> CORE_INVALID \<and>
          run_states st (take k w) = CORE_INVALID)"
  using assms
proof (induction w arbitrary: pre st tc)
  case Nil
  then show ?case by (auto simp: core_state_loop.simps nth_append)
next
  case (Cons c w)
  let ?mem = "pre @ (c # w) @ t # post"
  obtain st' tc' where sw: "state_switch st c tc = (st', tc')" by fastforce
  then have st': "st' = step_state st c" by (metis fst_conv fst_state_switch)
  have go: "core_state_loop ?mem (length pre) st tc = core_state_loop ?mem (Suc (length pre)) st' tc'"
    using Cons.prems sw by (subst core_state_loop.simps) (simp add: nth_append)
  show ?case
  proof (cases "st' = CORE_INVALID")
    case True
    then show ?thesis
      using Cons.prems st' go by (auto simp: core_state_loop_INVALID intro!: exI[of _ "1::nat"])
  next
    case False
    then obtain k tc'' where k:
      "core_state_loop ((pre @ [c]) @ w @ t # post) (length (pre @ [c])) st' tc'
        = Some (run_states st' w, length (pre @ [c]) + k, tc'')"
      "if run_states st' w \<noteq> CORE_INVALID then k = length w + (if t = 44 then 1 else 0)
       else 0 < k \<and> k \<le> length w \<and> run_states st' (take (k - 1) w) \<noteq> CORE_INVALID \<and>
            run_states st' (take k w) = CORE_INVALID"
      using Cons.IH[of st' "pre @ [c]" tc'] Cons.prems by auto
    show ?thesis
    proof (intro exI conjI)
      show "core_state_loop ?mem (length pre) st tc
          = Some (run_states st (c # w), length pre + Suc k, tc'')"
        using go k(1) st' by simp
      show "if run_states st (c # w) \<noteq> CORE_INVALID then Suc k = length (c # w) + (if t = 44 then 1 else 0)
        else 0 < Suc k \<and> Suc k \<le> length (c # w) \<and>
             run_states st (take (Suc k - 1) (c # w)) \<noteq> CORE_INVALID \<and>
             run_states st (take (Suc k) (c # w)) = CORE_INVALID"
        using k(2) st' Cons.prems(1) by (cases k) (auto split: if_splits)
    qed
  qed
qed

section \<open>The benchmark\<close>

text \<open>
  \<open>while (*p != 0) { fstate = core_state_transition(&p, track_counts); final_counts[fstate]++; }\<close>.
\<close>

function run_loop ::
  "ee_u8 list \<Rightarrow> nat \<Rightarrow> counts \<Rightarrow> counts \<Rightarrow> (counts \<times> counts) option" where
  "run_loop mem p track final =
     (case rd mem p of
        None \<Rightarrow> None
      | Some c \<Rightarrow>
          if c \<noteq> 0 then
            (case core_state_transition mem p track of
               None \<Rightarrow> None
             | Some (fstate, p', track') \<Rightarrow> run_loop mem p' track' (incr fstate final))
          else Some (track, final))"
  by pat_completeness auto
termination
  by (relation "measure (\<lambda>(mem, p, _). length mem - p)")
     (auto dest: core_state_transition_progress simp: opt_simps)

declare run_loop.simps [simp del]

text \<open>
  \<open>while (p < (memblock + blksize)) { if (*p != ',') *p ^= (ee_u8)seed; p += step; }\<close>. The offset of
  \<open>p\<close> is an integer, because \<open>step\<close> is signed.
\<close>

definition rd_off :: "ee_u8 list \<Rightarrow> int \<Rightarrow> ee_u8 option" where
  "rd_off mem p = (if 0 \<le> p then rd mem (nat p) else None)"

partial_function (option) corrupt_loop ::
  "ee_u8 list \<Rightarrow> int \<Rightarrow> ee_u32 \<Rightarrow> ee_s16 \<Rightarrow> ee_s16 \<Rightarrow> ee_u8 list option" where
  "corrupt_loop mem p blksize seed step =
     (if p < uint blksize then
        do { c \<leftarrow> rd_off mem p;
             corrupt_loop (if c \<noteq> ch (CHR '','') then mem[nat p := c XOR ucast seed] else mem)
               (p + sint step) blksize seed step }
      else Some mem)"

declare corrupt_loop.simps [code]

definition core_bench_state ::
  "ee_u32 \<Rightarrow> ee_u8 list \<Rightarrow> ee_s16 \<Rightarrow> ee_s16 \<Rightarrow> ee_s16 \<Rightarrow> ee_u16 \<Rightarrow> (ee_u16 \<times> ee_u8 list) option" where
  "core_bench_state blksize memblock seed1 seed2 step crc =
     do { (track, final) \<leftarrow> run_loop memblock 0 zero_counts zero_counts;
          mem \<leftarrow> corrupt_loop memblock 0 blksize seed1 step;
          (track, final) \<leftarrow> run_loop mem 0 track final;
          mem \<leftarrow> corrupt_loop mem 0 blksize seed2 step;
          Some (fold (\<lambda>i crc. crcu32 (track i) (crcu32 (final i) crc)) core_states crc, mem) }"

subsection \<open>Input generation\<close>

definition intpat :: "string list" where
  "intpat = [''5012'', ''1234'', ''-874'', ''+122'']"

definition floatpat :: "string list" where
  "floatpat = [''35.54400'', ''.1234500'', ''-110.700'', ''+0.64400'']"

definition scipat :: "string list" where
  "scipat = [''5.500e+3'', ''-.123e-2'', ''-87e+832'', ''+0.6e-12'']"

definition errpat :: "string list" where
  "errpat = [''T0.3e-1F'', ''-T.T++Tq'', ''1T3.4e4z'', ''34.0e-T^'']"

text \<open>The \<open>switch (seed & 0x7)\<close>: the pattern and the number of its bytes that are used.\<close>

definition pick_pattern :: "ee_s16 \<Rightarrow> ee_u8 list \<times> ee_u32" where
  "pick_pattern seed =
     (let k = (scast seed :: ee_s32) AND 0x7;
          j = unat (signed_drop_bit 3 (scast seed :: ee_s32) AND 0x3)
      in if k \<le> 2 then (bytes (intpat ! j), 4)
         else if k \<le> 4 then (bytes (floatpat ! j), 8)
         else if k \<le> 6 then (bytes (scipat ! j), 8)
         else (bytes (errpat ! j), 8))"

text \<open>
  The filling loop over \<open>total\<close>, \<open>next\<close>, \<open>buf\<close> and \<open>seed\<close>; the arithmetic is that of \<open>ee_u32\<close>. The
  pending pattern is copied, followed by a comma, when the next iteration finds room for it.
\<close>

definition copy_token :: "ee_u8 list \<Rightarrow> ee_u32 \<Rightarrow> ee_u32 \<Rightarrow> ee_u8 list \<Rightarrow> ee_u8 list option" where
  "copy_token buf tot len p =
     do { p \<leftarrow> for_loop 0 (unat len)
                 (\<lambda>i p. do { c \<leftarrow> rd buf i; wr p (unat (tot + of_nat i)) c }) p;
          wr p (unat (tot + len)) (ch (CHR '','')) }"

partial_function (option) init_loop ::
  "ee_u32 \<Rightarrow> ee_u32 \<Rightarrow> ee_u32 \<Rightarrow> ee_u8 list \<Rightarrow> ee_s16 \<Rightarrow> ee_u8 list \<Rightarrow> (ee_u32 \<times> ee_u8 list) option"
  where
  "init_loop sz tot len buf seed p =
     (if tot + len + 1 < sz then
        do { p \<leftarrow> (if len > 0 then copy_token buf tot len p else Some p);
             init_loop sz (if len > 0 then tot + (len + 1) else tot)
               (snd (pick_pattern (seed + 1))) (fst (pick_pattern (seed + 1))) (seed + 1) p }
      else Some (tot, p))"

declare init_loop.simps [code]

definition core_init_state :: "ee_u32 \<Rightarrow> ee_s16 \<Rightarrow> ee_u8 list \<Rightarrow> ee_u8 list option" where
  "core_init_state sz seed p =
     do { (tot, p) \<leftarrow> init_loop (sz - 1) 0 0 [] seed p;
          for_loop (unat tot) (unat sz - unat tot) (\<lambda>i p. wr p i 0) p }"

section \<open>Corruption and its undoing\<close>

definition corrupt_from :: "nat \<Rightarrow> nat \<Rightarrow> ee_u8 \<Rightarrow> nat \<Rightarrow> ee_u8 list \<Rightarrow> ee_u8 list" where
  "corrupt_from q k s blk mem =
     map (\<lambda>i. if q \<le> i \<and> i < blk \<and> k dvd i \<and> mem ! i \<noteq> 44 then mem ! i XOR s else mem ! i)
       [0..<length mem]"

lemma length_corrupt_from [simp]: "length (corrupt_from q k s blk mem) = length mem"
  by (simp add: corrupt_from_def)

lemma nth_corrupt_from:
  "i < length mem \<Longrightarrow> corrupt_from q k s blk mem ! i =
     (if q \<le> i \<and> i < blk \<and> k dvd i \<and> mem ! i \<noteq> 44 then mem ! i XOR s else mem ! i)"
  by (simp add: corrupt_from_def)

lemma corrupt_from_ge: "blk \<le> q \<Longrightarrow> corrupt_from q k s blk mem = mem"
  by (rule nth_equalityI) (auto simp: nth_corrupt_from)

lemma corrupt_from_step:
  assumes "q < blk" "blk \<le> length mem" "k dvd q" "0 < k"
  shows "corrupt_from q k s blk mem =
    corrupt_from (q + k) k s blk (if mem ! q \<noteq> 44 then mem[q := mem ! q XOR s] else mem)"
proof (rule nth_equalityI)
  fix i assume "i < length (corrupt_from q k s blk mem)"
  then have i: "i < length mem" by simp
  have "q + k \<le> i" if "q < i" "k dvd i"
    using that assms(3) by (metis dvd_minus_self le_add_diff_inverse less_imp_le nat_dvd_not_less
        not_le zero_less_diff dvd_diff_nat less_diff_conv2 add.commute)
  with i assms show "corrupt_from q k s blk mem ! i =
    corrupt_from (q + k) k s blk (if mem ! q \<noteq> 44 then mem[q := mem ! q XOR s] else mem) ! i"
    by (auto simp: nth_corrupt_from nth_list_update order_le_less)
qed simp

lemma corrupt_loop_eq:
  assumes "sint step = int k" "0 < k" "unat blksize \<le> length mem" "k dvd q"
  shows "corrupt_loop mem (int q) blksize seed step
    = Some (corrupt_from q k (ucast seed) (unat blksize) mem)"
  using assms
proof (induction "unat blksize - q" arbitrary: q mem rule: less_induct)
  case less
  show ?case
  proof (cases "q < unat blksize")
    case True
    let ?mem = "if mem ! q \<noteq> 44 then mem[q := mem ! q XOR ucast seed] else mem"
    have "corrupt_loop mem (int q) blksize seed step
        = corrupt_loop ?mem (int (q + k)) blksize seed step"
      using True less.prems by (subst corrupt_loop.simps) (simp add: rd_off_def word_conv)
    also have "\<dots> = Some (corrupt_from (q + k) k (ucast seed) (unat blksize) ?mem)"
      by (rule less.hyps) (use True less.prems in auto)
    finally show ?thesis
      using corrupt_from_step[OF True less.prems(3,4,2), of "ucast seed"] by simp
  next
    case False
    then show ?thesis by (subst corrupt_loop.simps) (simp add: corrupt_from_ge word_conv)
  qed
qed

lemma corrupt_from_undo:
  assumes "\<And>i. q \<le> i \<Longrightarrow> i < blk \<Longrightarrow> i < length mem \<Longrightarrow> k dvd i \<Longrightarrow> mem ! i XOR s \<noteq> 44"
  shows "corrupt_from q k s blk (corrupt_from q k s blk mem) = mem"
  by (rule nth_equalityI) (use assms in \<open>auto simp: nth_corrupt_from xor.assoc\<close>)

section \<open>The benchmark returns\<close>

lemma run_loop_total:
  "n < length mem \<Longrightarrow> mem ! n = 0 \<Longrightarrow> p \<le> n \<Longrightarrow> \<exists>r. run_loop mem p track final = Some r"
proof (induction "n - p" arbitrary: p track final rule: less_induct)
  case less
  show ?case
  proof (cases "mem ! p = 0")
    case True
    with less.prems show ?thesis by (simp add: run_loop.simps)
  next
    case False
    with less.prems have "p < n" by (cases "p = n") auto
    with core_state_transition_bounds[OF less.prems(1,2) _ False]
    obtain st p' tc where t: "core_state_transition mem p track = Some (st, p', tc)" "p < p'" "p' \<le> n"
      by blast
    have "\<exists>r. run_loop mem p' tc (incr st final) = Some r"
      by (rule less.hyps) (use t \<open>p < n\<close> less.prems in auto)
    with False t less.prems show ?thesis by (subst run_loop.simps) simp
  qed
qed

text \<open>
  What the benchmark needs of its block: it lies inside the memory and its last two bytes are
  NUL. Two, because the corruption may hit one of them.
\<close>

definition block_ok :: "ee_u32 \<Rightarrow> ee_u8 list \<Rightarrow> bool" where
  "block_ok blksize mem \<longleftrightarrow> 2 \<le> unat blksize \<and> unat blksize \<le> length mem \<and>
     mem ! (unat blksize - 1) = 0 \<and> mem ! (unat blksize - 2) = 0"

lemma corrupt_from_NUL:
  assumes "block_ok blksize mem" "2 \<le> k"
  shows "\<exists>n<length mem. corrupt_from 0 k s (unat blksize) mem ! n = 0"
proof -
  let ?b = "unat blksize"
  have b: "2 \<le> ?b" "?b \<le> length mem" "mem ! (?b - 1) = 0" "mem ! (?b - 2) = 0"
    using assms(1) by (auto simp: block_ok_def)
  show ?thesis
  proof (cases "k dvd ?b - 1")
    case True
    have "\<not> k dvd ?b - 2"
    proof
      assume "k dvd ?b - 2"
      with True have "k dvd (?b - 1) - (?b - 2)" by (rule dvd_diff_nat)
      moreover have "(?b - 1) - (?b - 2) = 1" using b by simp
      ultimately show False using assms(2) by simp
    qed
    with b show ?thesis by (intro exI[of _ "?b - 2"]) (simp add: nth_corrupt_from)
  next
    case False
    with b show ?thesis by (intro exI[of _ "?b - 1"]) (simp add: nth_corrupt_from)
  qed
qed

lemma core_bench_state_eq:
  assumes "block_ok blksize mem" "2 \<le> sint step"
  defines "k \<equiv> nat (sint step)" and "b \<equiv> unat blksize"
  shows "\<exists>crc'. core_bench_state blksize mem seed1 seed2 step crc =
    Some (crc', corrupt_from 0 k (ucast seed2) b (corrupt_from 0 k (ucast seed1) b mem))"
proof -
  have k: "sint step = int k" "0 < k" "2 \<le> k" using assms(2) by (auto simp: k_def)
  have b: "unat blksize \<le> length mem" using assms(1) by (simp add: block_ok_def)
  have "b - 1 < length mem" "mem ! (b - 1) = 0" using assms(1) by (auto simp: block_ok_def b_def)
  then obtain tr fi where r1: "run_loop mem 0 zero_counts zero_counts = Some (tr, fi)"
    using run_loop_total[of "b - 1" mem 0 zero_counts zero_counts] by (metis le0 surj_pair)
  let ?m1 = "corrupt_from 0 k (ucast seed1) b mem"
  have c1: "corrupt_loop mem 0 blksize seed1 step = Some ?m1"
    using corrupt_loop_eq[OF k(1,2) b, of 0 seed1] by (simp add: b_def)
  obtain n where "n < length ?m1" "?m1 ! n = 0"
    using corrupt_from_NUL[OF assms(1) k(3)] by (auto simp: b_def)
  then obtain tr' fi' where r2: "run_loop ?m1 0 tr fi = Some (tr', fi')"
    using run_loop_total[of n ?m1 0 tr fi] by (metis le0 surj_pair)
  have c2: "corrupt_loop ?m1 0 blksize seed2 step = Some (corrupt_from 0 k (ucast seed2) b ?m1)"
    using corrupt_loop_eq[OF k(1,2), of blksize ?m1 0 seed2] b by (simp add: b_def)
  show ?thesis by (simp add: core_bench_state_def r1 c1 r2 c2)
qed

section \<open>What the generator writes\<close>

lemma bytes_intpat: "map (map char_code) intpat = [[53, 48, 49, 50], [49, 50, 51, 52],
   [45, 56, 55, 52], [43, 49, 50, 50]]"
  by (simp add: intpat_def char_code_def)

lemma two_bits_cases: "unat (x AND 3 :: ee_s32) = 0 \<or> unat (x AND 3) = 1 \<or>
    unat (x AND 3) = 2 \<or> unat (x AND 3) = 3"
  using unat_and_mask_less[of x 2] by (simp add: mask_eq_exp_minus_1) arith

lemma pick_pattern_cases:
  "pick_pattern seed \<in> (\<lambda>s. (bytes s, 4)) ` set intpat \<union>
     (\<lambda>s. (bytes s, 8)) ` set (floatpat @ scipat @ errpat)"
proof -
  let ?j = "unat (signed_drop_bit 3 (scast seed :: ee_s32) AND 0x3)"
  have "?j < 4" using two_bits_cases[of "signed_drop_bit 3 (scast seed :: ee_s32)"] by auto
  then show ?thesis
    unfolding pick_pattern_def Let_def
    by (simp add: intpat_def floatpat_def scipat_def errpat_def nth_Cons' split: if_splits)
qed

text \<open>The bytes of the patterns: no NUL, no comma, and no digit 9.\<close>

definition pattern_bytes :: "ee_u8 list" where
  "pattern_bytes = [43, 45, 46, 48, 49, 50, 51, 52, 53, 54, 55, 56, 70, 84, 94, 101, 113, 122]"

lemma set_bytes_patterns:
  "s \<in> set (intpat @ floatpat @ scipat @ errpat) \<Longrightarrow> set (bytes s) \<subseteq> set pattern_bytes"
  by (auto simp: intpat_def floatpat_def scipat_def errpat_def bytes_def ch_def char_code_def
      pattern_bytes_def)

lemma pick_pattern_facts:
  "length (fst (pick_pattern seed)) = unat (snd (pick_pattern seed))"
  "snd (pick_pattern seed) = 4 \<or> snd (pick_pattern seed) = 8"
  "set (fst (pick_pattern seed)) \<subseteq> set pattern_bytes"
proof -
  show "set (fst (pick_pattern seed)) \<subseteq> set pattern_bytes"
    using pick_pattern_cases[of seed] set_bytes_patterns by fastforce
  show "length (fst (pick_pattern seed)) = unat (snd (pick_pattern seed))"
    using pick_pattern_cases[of seed]
    by (auto simp: intpat_def floatpat_def scipat_def errpat_def bytes_def)
  show "snd (pick_pattern seed) = 4 \<or> snd (pick_pattern seed) = 8"
    using pick_pattern_cases[of seed] by auto
qed

text \<open>
  The tokens the generator writes into \<open>room\<close> bytes, from the seed of the first one: as many as
  fit with their comma and one byte to spare.
\<close>

function state_tokens :: "nat \<Rightarrow> ee_s16 \<Rightarrow> ee_u8 list list" where
  "state_tokens room seed =
     (let t = fst (pick_pattern seed)
      in if length t + 1 < room then t # state_tokens (room - (length t + 1)) (seed + 1) else [])"
  by pat_completeness auto
termination
  by (relation "measure fst") auto

declare state_tokens.simps [simp del]

definition join_tokens :: "ee_u8 list list \<Rightarrow> ee_u8 list" where
  "join_tokens ts = concat (map (\<lambda>t. t @ [44]) ts)"

lemma join_tokens_simps [simp]:
  "join_tokens [] = []" "join_tokens (t # ts) = t @ 44 # join_tokens ts"
  by (simp_all add: join_tokens_def)

lemma state_tokens_fit:
  "0 < room \<Longrightarrow> length (join_tokens (state_tokens room seed)) < room"
proof (induction room seed rule: state_tokens.induct)
  case (1 room seed)
  let ?t = "fst (pick_pattern seed)"
  show ?case
  proof (cases "length ?t + 1 < room")
    case True
    have "length (join_tokens (state_tokens (room - (length ?t + 1)) (seed + 1))) < room - (length ?t + 1)"
      using "1.IH"[OF refl True] True by simp
    with True show ?thesis by (subst state_tokens.simps) (simp add: Let_def)
  next
    case False
    with "1.prems" show ?thesis by (subst state_tokens.simps) (simp add: Let_def)
  qed
qed

lemma state_tokens_patterns:
  "t \<in> set (state_tokens room seed) \<Longrightarrow> set t \<subseteq> set pattern_bytes \<and> t \<noteq> []"
proof (induction room seed rule: state_tokens.induct)
  case (1 room seed)
  let ?t = "fst (pick_pattern seed)"
  have "set ?t \<subseteq> set pattern_bytes \<and> ?t \<noteq> []"
    using pick_pattern_facts[of seed] by (cases ?t) auto
  with 1 show ?case
    by (subst (asm) (2) state_tokens.simps) (auto simp: Let_def split: if_splits)
qed

lemma copy_token_eq:
  assumes "length buf = unat len" "unat tot + unat len < length p" "unat tot + unat len < 2 ^ 32"
  shows "copy_token buf tot len p =
    Some (take (unat tot) p @ buf @ 44 # drop (unat tot + unat len + 1) p)"
proof -
  let ?T = "unat tot"
  have addr: "unat (tot + of_nat i) = ?T + i" if "i \<le> unat len" for i
    using that assms(3)
    by (simp add: unat_word_ariths unat_of_nat)
  have "\<exists>t. for_loop 0 (unat len) (\<lambda>i p. do { c \<leftarrow> rd buf i; wr p (unat (tot + of_nat i)) c }) p
      = Some t \<and> t = take ?T p @ take (0 + unat len) buf @ drop (?T + (0 + unat len)) p"
  proof (rule for_loop_rule)
    show "p = take ?T p @ take 0 buf @ drop (?T + 0) p" by simp
    fix i t
    assume i: "i < 0 + unat len" and t: "t = take ?T p @ take i buf @ drop (?T + i) p"
    have "drop (?T + i) p = p ! (?T + i) # drop (Suc (?T + i)) p"
      using i assms by (intro Cons_nth_drop_Suc[symmetric]) simp
    then show "\<exists>t'. do { c \<leftarrow> rd buf i; wr t (unat (tot + of_nat i)) c } = Some t' \<and>
        t' = take ?T p @ take (Suc i) buf @ drop (?T + Suc i) p"
      using i t assms by (simp add: addr list_update_append take_Suc_conv_app_nth)
  qed
  then show ?thesis
    using assms addr[of "unat len"]
    by (simp add: copy_token_def list_update_append Cons_nth_drop_Suc[symmetric])
qed

lemma init_loop_eq:
  assumes "unat sz < 2 ^ 31" "unat tot \<le> unat sz" "unat sz \<le> length p"
    and "len = snd (pick_pattern seed)" "buf = fst (pick_pattern seed)"
  shows "\<exists>tot'. init_loop sz tot len buf seed p =
      Some (tot', take (unat tot) p @ join_tokens (state_tokens (unat sz - unat tot) seed) @
              drop (unat tot + length (join_tokens (state_tokens (unat sz - unat tot) seed))) p) \<and>
    unat tot' = unat tot + length (join_tokens (state_tokens (unat sz - unat tot) seed))"
  using assms
proof (induction "unat sz - unat tot" arbitrary: tot len buf seed p rule: less_induct)
  case less
  let ?S = "unat sz" and ?T = "unat tot" and ?L = "unat len"
  let ?t = "fst (pick_pattern seed)"
  have L: "?L = 4 \<or> ?L = 8" "length ?t = ?L" "0 < len"
    using pick_pattern_facts[of seed] less.prems(4) by auto
  have sum: "unat (tot + len + 1) = ?T + ?L + 1" "unat (tot + (len + 1)) = ?T + ?L + 1"
    using less.prems(1,2) L by (auto simp: unat_word_ariths)
  have cond: "tot + len + 1 < sz \<longleftrightarrow> length ?t + 1 < ?S - ?T"
    using less.prems(2) L sum by (auto simp: word_less_nat_alt)
  show ?case
  proof (cases "length ?t + 1 < ?S - ?T")
    case True
    define tot2 where "tot2 = tot + (len + 1)"
    define p2 where "p2 = take ?T p @ buf @ 44 # drop (?T + ?L + 1) p"
    define js where "js = join_tokens (state_tokens (?S - unat tot2) (seed + 1))"
    have tot2: "unat tot2 = ?T + ?L + 1" using sum by (simp add: tot2_def)
    have lenp: "length p2 = length p" using less.prems L True by (auto simp: p2_def)
    have copy: "copy_token buf tot len p = Some p2"
      unfolding p2_def by (rule copy_token_eq) (use less.prems L True in auto)
    have "\<exists>tot'. init_loop sz tot2 (snd (pick_pattern (seed + 1)))
        (fst (pick_pattern (seed + 1))) (seed + 1) p2 =
      Some (tot', take (unat tot2) p2 @ js @ drop (unat tot2 + length js) p2) \<and>
      unat tot' = unat tot2 + length js"
      unfolding js_def
      by (rule less.hyps) (use True L tot2 lenp less.prems(1-3) in auto)
    then obtain tot' where IH: "init_loop sz tot2 (snd (pick_pattern (seed + 1)))
        (fst (pick_pattern (seed + 1))) (seed + 1) p2 =
      Some (tot', take (unat tot2) p2 @ js @ drop (unat tot2 + length js) p2)"
      "unat tot' = unat tot2 + length js" by blast
    have ts: "join_tokens (state_tokens (?S - ?T) seed) = ?t @ 44 # js"
      using True L tot2 by (subst state_tokens.simps) (simp add: Let_def js_def)
    have "take (unat tot2) p2 = take ?T p @ ?t @ [44]"
      using tot2 L less.prems True by (simp add: p2_def min_def)
    moreover have "drop (unat tot2 + n) p2 = drop (?T + length (?t @ [44]) + n) p" for n
      using tot2 L less.prems True by (simp add: p2_def ac_simps)
    moreover have "init_loop sz tot len buf seed p = init_loop sz tot2
        (snd (pick_pattern (seed + 1))) (fst (pick_pattern (seed + 1))) (seed + 1) p2"
      using copy L(3) True cond by (subst init_loop.simps) (simp add: tot2_def)
    ultimately show ?thesis
      using IH L(2) tot2 ts by (simp add: ac_simps)
  next
    case False
    then have ts: "state_tokens (?S - ?T) seed = []"
      by (subst state_tokens.simps) (simp add: Let_def)
    with False cond show ?thesis by (subst init_loop.simps) simp
  qed
qed

lemma fill_zero:
  "a + n \<le> length p \<Longrightarrow>
   for_loop a n (\<lambda>i p. wr p i 0) p = Some (take a p @ replicate n 0 @ drop (a + n) p)"
proof (induction n arbitrary: a p)
  case (Suc n)
  then have "take (Suc a) (p[a := 0]) = take a p @ [0]" "a < length p"
    by (simp_all add: take_Suc_conv_app_nth)
  with Suc show ?case by (simp add: drop_update_cancel)
qed simp

lemma core_init_state_eq:
  fixes seed :: ee_s16
  assumes "2 \<le> unat sz" "unat sz \<le> 2 ^ 31" "unat sz \<le> length p"
  defines "body \<equiv> join_tokens (state_tokens (unat sz - 1) (seed + 1))"
  shows "core_init_state sz seed p =
    Some (body @ replicate (unat sz - length body) 0 @ drop (unat sz) p)"
    and "length body + 2 \<le> unat sz"
proof -
  let ?q = "pick_pattern (seed + 1)"
  have S: "unat (sz - 1) = unat sz - 1"
    using assms(1) by (simp add: unat_sub_if' word_le_nat_alt)
  have pre: "unat sz - 1 < 2 ^ 31" "unat sz - 1 \<le> length p"
    using assms(1-3) by linarith+
  show fit: "length body + 2 \<le> unat sz"
    using state_tokens_fit[of "unat sz - 1" "seed + 1"] assms(1) by (simp add: body_def)
  obtain tot where tot: "init_loop (sz - 1) 0 (snd ?q) (fst ?q) (seed + 1) p
      = Some (tot, body @ drop (length body) p)" "unat tot = length body"
    using init_loop_eq[of "sz - 1" 0 p "snd ?q" "seed + 1" "fst ?q", OF _ _ _ refl refl] pre
    unfolding S body_def by auto
  have first: "init_loop (sz - 1) 0 0 [] seed p = Some (tot, body @ drop (length body) p)"
  proof (cases "1 < sz - 1")
    case True
    then show ?thesis using tot(1) by (subst init_loop.simps) simp
  next
    case False
    then have "unat sz = 2" using S assms(1) by (simp add: word_less_nat_alt)
    then have "body = []" by (simp add: body_def state_tokens.simps Let_def)
    with False tot show ?thesis by (subst init_loop.simps) (simp add: unat_eq_0)
  qed
  have "length body + (unat sz - length body) = unat sz" using fit by simp
  then show "core_init_state sz seed p =
      Some (body @ replicate (unat sz - length body) 0 @ drop (unat sz) p)"
    using first tot(2) fit assms(3)
    by (simp add: core_init_state_def fill_zero)
qed

lemma join_tokens_bytes:
  "\<forall>t\<in>set ts. set t \<subseteq> set pattern_bytes \<Longrightarrow> set (join_tokens ts) \<subseteq> insert 44 (set pattern_bytes)"
  by (induction ts) auto

lemma core_init_state_block_ok:
  assumes "2 \<le> unat sz" "unat sz \<le> 2 ^ 31" "unat sz \<le> length p" "core_init_state sz seed p = Some mem"
  shows "block_ok sz mem" "length mem = length p"
    "\<And>i. i < unat sz \<Longrightarrow> mem ! i \<in> insert 0 (insert 44 (set pattern_bytes))"
proof -
  define body where "body = join_tokens (state_tokens (unat sz - 1) (seed + 1))"
  have mem: "mem = body @ replicate (unat sz - length body) 0 @ drop (unat sz) p"
    and fit: "length body + 2 \<le> unat sz"
    using core_init_state_eq[OF assms(1-3), of seed] assms(4) by (simp_all add: body_def)
  show "length mem = length p" using mem fit assms(3) by simp
  have "mem ! i = 0" if "length body \<le> i" "i < unat sz" for i
    using that mem by (simp add: nth_append diff_less_mono)
  with fit assms(1,3) show "block_ok sz mem"
    using \<open>length mem = length p\<close> by (simp add: block_ok_def)
  have "set body \<subseteq> insert 44 (set pattern_bytes)"
    unfolding body_def using state_tokens_patterns by (intro join_tokens_bytes) blast
  moreover have "mem ! i \<in> set body \<or> mem ! i = 0" if "i < unat sz" for i
    using that mem by (auto simp: nth_append diff_less_mono)
  ultimately show "mem ! i \<in> insert 0 (insert 44 (set pattern_bytes))" if "i < unat sz" for i
    using that by blast
qed

lemma core_bench_state_undo:
  assumes "block_ok blksize mem" "2 \<le> sint step"
    and "\<And>i. i < unat blksize \<Longrightarrow> mem ! i \<noteq> 44 \<Longrightarrow> mem ! i XOR ucast s \<noteq> 44"
  shows "\<exists>crc'. core_bench_state blksize mem s s step crc = Some (crc', mem)"
proof -
  let ?c = "corrupt_from 0 (nat (sint step)) (ucast s) (unat blksize)"
  have "?c (?c mem) = mem"
    by (rule nth_equalityI) (use assms(3) in \<open>auto simp: nth_corrupt_from xor.assoc\<close>)
  then show ?thesis
    using core_bench_state_eq[OF assms(1,2), of s s crc] by simp
qed

section \<open>Properties\<close>

text \<open>
  C6. Scanning one token. The token \<open>w\<close> holds no NUL and no comma and is followed by one of them.
  If it has one of the machine's forms (integer, float, scientific and their prefixes), the scan
  returns exactly that state and stops behind the token, past the comma; the form is unique. If
  not, it returns \<open>CORE_INVALID\<close> and stops right behind the first byte that rules every form out.
\<close>

theorem core_state_transition_classifies:
  assumes "0 \<notin> set w" "44 \<notin> set w" "t = 0 \<or> t = 44"
  shows "\<exists>st k tc'. core_state_transition (pre @ w @ t # post) (length pre) tc
      = Some (st, length pre + k, tc') \<and>
    (if \<exists>s. form_of s w
     then form_of st w \<and> (\<forall>s. form_of s w \<longrightarrow> s = st) \<and> k = length w + (if t = 44 then 1 else 0)
     else st = CORE_INVALID \<and> 0 < k \<and> k \<le> length w \<and>
          (\<exists>s. form_of s (take (k - 1) w)) \<and> \<not> (\<exists>s. form_of s (take k w)))"
proof -
  obtain k tc' where k: "core_state_transition (pre @ w @ t # post) (length pre) tc
      = Some (run_states CORE_START w, length pre + k, tc')"
    "if run_states CORE_START w \<noteq> CORE_INVALID then k = length w + (if t = 44 then 1 else 0)
     else 0 < k \<and> k \<le> length w \<and> run_states CORE_START (take (k - 1) w) \<noteq> CORE_INVALID \<and>
          run_states CORE_START (take k w) = CORE_INVALID"
    using core_state_loop_spec[OF _ assms, of CORE_START pre post tc]
    by (auto simp: core_state_transition_def)
  have form: "(\<exists>s. form_of s u) \<longleftrightarrow> run_states CORE_START u \<noteq> CORE_INVALID" for u
    using run_states_form run_states_sound by fastforce
  show ?thesis
    using k form[of w] form[of "take (k - 1) w"] form[of "take k w"] run_states_form run_states_sound
    by (intro exI[of _ "run_states CORE_START w"] exI[of _ k] exI[of _ tc'])
       (auto split: if_splits)
qed

theorem core_state_transition_classifies_witness:
  "\<exists>st k tc'. core_state_transition ([] @ bytes ''-1.5'' @ 44 # [0]) (length ([] :: ee_u8 list)) zero_counts
      = Some (st, length ([] :: ee_u8 list) + k, tc') \<and>
    (if \<exists>s. form_of s (bytes ''-1.5'')
     then form_of st (bytes ''-1.5'') \<and> (\<forall>s. form_of s (bytes ''-1.5'') \<longrightarrow> s = st) \<and>
          k = length (bytes ''-1.5'') + (if (44 :: ee_u8) = 44 then 1 else 0)
     else st = CORE_INVALID \<and> 0 < k \<and> k \<le> length (bytes ''-1.5'') \<and>
          (\<exists>s. form_of s (take (k - 1) (bytes ''-1.5''))) \<and>
          \<not> (\<exists>s. form_of s (take k (bytes ''-1.5''))))"
  by (rule core_state_transition_classifies) (simp_all add: bytes_def ch_def char_code_def)

text \<open>
  C9. The input generator fills its block, and nothing else, with the patterns chosen by the
  successive seeds, each followed by a comma, as many as leave room, and NULs to the end; at least
  the last two bytes are NUL.
\<close>

theorem core_init_state_writes:
  assumes "2 \<le> unat sz" "unat sz \<le> 2 ^ 31" "unat sz \<le> length p"
  shows "\<exists>mem. core_init_state sz seed p = Some mem \<and>
    mem = join_tokens (state_tokens (unat sz - 1) (seed + 1)) @
          replicate (unat sz - length (join_tokens (state_tokens (unat sz - 1) (seed + 1)))) 0 @
          drop (unat sz) p \<and>
    length (join_tokens (state_tokens (unat sz - 1) (seed + 1))) + 2 \<le> unat sz"
  using core_init_state_eq[OF assms, of seed] by simp

theorem core_init_state_writes_witness:
  "\<exists>mem. core_init_state 12 0 (replicate 13 7) = Some mem \<and>
    mem = bytes ''5012,5012,'' @ [0, 0, 7]"
proof -
  have t: "state_tokens 11 1 = [bytes ''5012'', bytes ''5012'']" by code_simp
  have r: "replicate 2 (0 :: ee_u8) = [0, 0]" by (simp add: numeral_2_eq_2)
  show ?thesis
    using core_init_state_writes[of 12 "replicate 13 7" 0] by (simp add: t r bytes_def)
qed

text \<open>
  C7. The state benchmark is memory safe and terminates on every generated block: for any three
  seeds and any step of at least 2 it returns, having read and written only inside the block.
\<close>

theorem core_bench_state_safe:
  assumes "2 \<le> unat sz" "unat sz \<le> 2 ^ 31" "unat sz \<le> length p"
    and "core_init_state sz seed p = Some mem" "2 \<le> sint step"
  shows "\<exists>crc' mem'. core_bench_state sz mem seed1 seed2 step crc = Some (crc', mem') \<and>
    length mem' = length p \<and> drop (unat sz) mem' = drop (unat sz) p"
proof -
  note ok = core_init_state_block_ok[OF assms(1-4)]
  have "drop (unat sz) mem = drop (unat sz) p"
    using core_init_state_eq[OF assms(1-3), of seed] assms(4) by auto
  then have tail: "i < length p \<Longrightarrow> unat sz \<le> i \<Longrightarrow> mem ! i = p ! i" for i
    using assms(3) ok(2) by (metis le_add_diff_inverse nth_drop)
  obtain crc' where "core_bench_state sz mem seed1 seed2 step crc = Some (crc',
      corrupt_from 0 (nat (sint step)) (ucast seed2) (unat sz)
        (corrupt_from 0 (nat (sint step)) (ucast seed1) (unat sz) mem))" (is "_ = Some (_, ?m)")
    using core_bench_state_eq[OF ok(1) assms(5)] by blast
  moreover have "drop (unat sz) ?m = drop (unat sz) p"
    by (rule nth_equalityI) (use ok(2) tail in \<open>auto simp: nth_corrupt_from\<close>)
  ultimately show ?thesis using ok(2) by auto
qed

theorem core_bench_state_safe_witness:
  "\<exists>mem crc' mem'. core_bench_state 12 mem 1 2 0x22 0 = Some (crc', mem') \<and> length mem' = 13 \<and>
     drop (unat (12 :: ee_u32)) mem' = drop (unat (12 :: ee_u32)) (replicate 13 7)"
proof -
  obtain mem where "core_init_state 12 0 (replicate 13 7) = Some mem"
    using core_init_state_eq(1)[of 12 "replicate 13 7" 0] by auto
  from core_bench_state_safe[OF _ _ _ this, of "0x22" 1 2 0] show ?thesis by auto
qed

text \<open>
  C8. When the two seeds are equal and no pattern byte (nor NUL) XORed with the seed's low byte
  gives a comma, the second corruption undoes the first: the block is unchanged by the benchmark,
  so every iteration sees the same input.
\<close>

theorem core_bench_state_restores:
  assumes "2 \<le> unat sz" "unat sz \<le> 2 ^ 31" "unat sz \<le> length p"
    and "core_init_state sz seed p = Some mem" "2 \<le> sint step"
    and "\<forall>c\<in>insert 0 (set pattern_bytes). c XOR ucast s \<noteq> 44"
  shows "\<exists>crc'. core_bench_state sz mem s s step crc = Some (crc', mem)"
proof (rule core_bench_state_undo)
  note ok = core_init_state_block_ok[OF assms(1-4)]
  show "block_ok sz mem" by (rule ok(1))
  show "mem ! i XOR ucast s \<noteq> 44" if "i < unat sz" "mem ! i \<noteq> 44" for i
    using ok(3)[OF that(1)] that(2) assms(6) by auto
qed (rule assms(5))

text \<open>The seed of the validation run satisfies the condition.\<close>

theorem core_bench_state_restores_witness:
  "\<exists>mem crc'. core_init_state 666 0x3415 (replicate 666 0) = Some mem \<and>
     core_bench_state 666 mem 0x3415 0x3415 0x22 0 = Some (crc', mem)"
proof -
  obtain mem where m: "core_init_state 666 0x3415 (replicate 666 0) = Some mem"
    using core_init_state_eq(1)[of 666 "replicate 666 0" "0x3415"] by auto
  have "\<forall>c\<in>insert 0 (set pattern_bytes). c XOR ucast (0x3415 :: ee_s16) \<noteq> 44"
    by (simp add: pattern_bytes_def)
  from core_bench_state_restores[OF _ _ _ m _ this, of "0x22" 0] m show ?thesis by auto
qed

text \<open>
  C28. The condition of the restoring property is needed: the comment "undo corruption is seed1 and
  seed2 are equal" is not true of every seed. With both seeds 25, a block of 100 bytes generated
  from that seed and the step \<open>0x22\<close>, the byte at offset 68 becomes a comma, the second pass skips
  it, and the block stays changed.
\<close>

theorem core_bench_state_not_restored:
  "\<exists>mem crc' mem'. core_init_state 100 25 (replicate 100 0) = Some mem \<and>
     core_bench_state 100 mem 25 25 0x22 0 = Some (crc', mem') \<and> mem ! 68 = 53 \<and> mem' ! 68 = 44"
proof -
  have t: "join_tokens (state_tokens 99 26) ! 68 = 53 \<and> length (join_tokens (state_tokens 99 26)) = 92"
    by code_simp
  define mem where "mem = join_tokens (state_tokens 99 26) @ replicate 8 0"
  have m: "core_init_state 100 25 (replicate 100 0) = Some mem"
    using core_init_state_eq(1)[of 100 "replicate 100 0" 25] t by (simp add: mem_def)
  have m68: "mem ! 68 = 53" "length mem = 100" using t by (simp_all add: mem_def nth_append)
  have ok: "block_ok 100 mem"
    using core_init_state_block_ok(1)[OF _ _ _ m] by simp
  let ?c = "corrupt_from 0 34 25 100"
  obtain crc' where b: "core_bench_state 100 mem 25 25 0x22 0 = Some (crc', ?c (?c mem))"
    using core_bench_state_eq[OF ok, of "0x22" 25 25 0] by auto
  have "?c (?c mem) ! 68 = 44" using m68 by (simp add: nth_corrupt_from)
  with m b m68 show ?thesis by blast
qed

end
