(* ===== verification/List_Heap.thy ===== *)
theory List_Heap
  imports Prelude
begin

text \<open>
  The linked list of \<open>coremark/src/core_list_join.c\<close> as cells in a store: \<open>list_head\<close> cells (a next
  pointer and a pointer to the data) and \<open>list_data\<close> cells, addressed separately. A pointer to a
  head is an address or NULL (\<open>None\<close>); dereferencing NULL or an address without a cell is \<open>None\<close>.

  This theory holds the store, the pointer operations that do not sort (\<open>core_list_find\<close>,
  \<open>core_list_reverse\<close>, \<open>core_list_remove\<close>, \<open>core_list_undo_remove\<close>, \<open>core_list_insert_new\<close>,
  \<open>copy_info\<close>, \<open>cmp_idx\<close>) and what they do to the list of addresses reachable from a pointer.
\<close>

named_theorems heap_simps \<open>reads and writes of list cells\<close>

section \<open>The store\<close>

record list_data =
  data16 :: ee_s16
  idx :: ee_s16

record list_head =
  lnext :: "nat option"
  info :: nat

text \<open>
  The record is extensible: the benchmark state of \<open>core_results\<close> extends it, and the list
  operations work on every extension.
\<close>

record store =
  heads :: "nat \<rightharpoonup> list_head"
  datas :: "nat \<rightharpoonup> list_data"

type_synonym ptr = "nat option"

definition get_next :: "'a store_scheme \<Rightarrow> ptr \<Rightarrow> ptr option" where
  "get_next s p = (case p of None \<Rightarrow> None | Some a \<Rightarrow> map_option lnext (heads s a))"

definition get_info :: "'a store_scheme \<Rightarrow> ptr \<Rightarrow> nat option" where
  "get_info s p = (case p of None \<Rightarrow> None | Some a \<Rightarrow> map_option info (heads s a))"

definition set_next :: "'a store_scheme \<Rightarrow> ptr \<Rightarrow> ptr \<Rightarrow> 'a store_scheme option" where
  "set_next s p v = (case p of None \<Rightarrow> None | Some a \<Rightarrow>
     (case heads s a of None \<Rightarrow> None
      | Some c \<Rightarrow> Some (s\<lparr>heads := (heads s)(a \<mapsto> c\<lparr>lnext := v\<rparr>)\<rparr>)))"

definition set_info :: "'a store_scheme \<Rightarrow> ptr \<Rightarrow> nat \<Rightarrow> 'a store_scheme option" where
  "set_info s p v = (case p of None \<Rightarrow> None | Some a \<Rightarrow>
     (case heads s a of None \<Rightarrow> None
      | Some c \<Rightarrow> Some (s\<lparr>heads := (heads s)(a \<mapsto> c\<lparr>info := v\<rparr>)\<rparr>)))"

definition set_data :: "'a store_scheme \<Rightarrow> nat \<Rightarrow> list_data \<Rightarrow> 'a store_scheme option" where
  "set_data s d v = (if datas s d = None then None else Some (s\<lparr>datas := (datas s)(d \<mapsto> v)\<rparr>))"

lemma get_next_Some [simp, heap_simps]: "get_next s (Some a) = map_option lnext (heads s a)"
  and get_next_None [simp, heap_simps]: "get_next s None = None"
  by (simp_all add: get_next_def)

lemma get_info_Some [simp, heap_simps]: "get_info s (Some a) = map_option info (heads s a)"
  and get_info_None [simp, heap_simps]: "get_info s None = None"
  by (simp_all add: get_info_def)

lemma set_next_cell [heap_simps]:
  "heads s a = Some c \<Longrightarrow> set_next s (Some a) v = Some (s\<lparr>heads := (heads s)(a \<mapsto> c\<lparr>lnext := v\<rparr>)\<rparr>)"
  by (simp add: set_next_def)

lemma set_info_cell [heap_simps]:
  "heads s a = Some c \<Longrightarrow> set_info s (Some a) v = Some (s\<lparr>heads := (heads s)(a \<mapsto> c\<lparr>info := v\<rparr>)\<rparr>)"
  by (simp add: set_info_def)

lemma set_data_cell [heap_simps]:
  "datas s d = Some c \<Longrightarrow> set_data s d v = Some (s\<lparr>datas := (datas s)(d \<mapsto> v)\<rparr>)"
  by (simp add: set_data_def)

section \<open>The operations\<close>

text \<open>
  \<open>core_list_find\<close> looks for an index when the wanted index is not negative and otherwise for a
  data byte; the byte is compared with the wanted 16-bit value after promotion to \<open>int\<close>.
\<close>

partial_function (option) find_idx :: "'a store_scheme \<Rightarrow> ptr \<Rightarrow> ee_s16 \<Rightarrow> ptr option" where
  "find_idx s list key =
     (case list of
        None \<Rightarrow> Some None
      | Some a \<Rightarrow> do { d \<leftarrow> get_info s list; v \<leftarrow> datas s d;
                      if idx v \<noteq> key then do { n \<leftarrow> get_next s list; find_idx s n key }
                      else Some list })"

definition data_byte :: "ee_s16 \<Rightarrow> ee_s32" where
  "data_byte d = scast d AND 0xff"

partial_function (option) find_data :: "'a store_scheme \<Rightarrow> ptr \<Rightarrow> ee_s16 \<Rightarrow> ptr option" where
  "find_data s list key =
     (case list of
        None \<Rightarrow> Some None
      | Some a \<Rightarrow> do { d \<leftarrow> get_info s list; v \<leftarrow> datas s d;
                      if data_byte (data16 v) \<noteq> scast key then do { n \<leftarrow> get_next s list; find_data s n key }
                      else Some list })"

declare find_idx.simps [code] find_data.simps [code]

definition core_list_find :: "'a store_scheme \<Rightarrow> ptr \<Rightarrow> list_data \<Rightarrow> ptr option" where
  "core_list_find s list i =
     (if 0 \<le>s idx i then find_idx s list (idx i) else find_data s list (data16 i))"

partial_function (option) reverse_loop ::
  "'a store_scheme \<Rightarrow> ptr \<Rightarrow> ptr \<Rightarrow> (ptr \<times> 'a store_scheme) option" where
  "reverse_loop s list nxt =
     (case list of
        None \<Rightarrow> Some (nxt, s)
      | Some a \<Rightarrow> do { tmp \<leftarrow> get_next s list;
                      s \<leftarrow> set_next s list nxt;
                      reverse_loop s tmp list })"

declare reverse_loop.simps [code]

definition core_list_reverse :: "'a store_scheme \<Rightarrow> ptr \<Rightarrow> (ptr \<times> 'a store_scheme) option" where
  "core_list_reverse s list = reverse_loop s list None"

definition core_list_remove :: "'a store_scheme \<Rightarrow> ptr \<Rightarrow> (ptr \<times> 'a store_scheme) option" where
  "core_list_remove s item =
     do { ret \<leftarrow> get_next s item;
          tmp \<leftarrow> get_info s item;
          ri \<leftarrow> get_info s ret;
          s \<leftarrow> set_info s item ri;
          s \<leftarrow> set_info s ret tmp;
          n \<leftarrow> get_next s item;
          nn \<leftarrow> get_next s n;
          s \<leftarrow> set_next s item nn;
          s \<leftarrow> set_next s ret None;
          Some (ret, s) }"

definition core_list_undo_remove ::
  "'a store_scheme \<Rightarrow> ptr \<Rightarrow> ptr \<Rightarrow> (ptr \<times> 'a store_scheme) option" where
  "core_list_undo_remove s item_removed item_modified =
     do { tmp \<leftarrow> get_info s item_removed;
          mi \<leftarrow> get_info s item_modified;
          s \<leftarrow> set_info s item_removed mi;
          s \<leftarrow> set_info s item_modified tmp;
          n \<leftarrow> get_next s item_modified;
          s \<leftarrow> set_next s item_removed n;
          s \<leftarrow> set_next s item_modified item_removed;
          Some (item_removed, s) }"

definition copy_info :: "'a store_scheme \<Rightarrow> nat \<Rightarrow> list_data \<Rightarrow> 'a store_scheme option" where
  "copy_info s to from =
     do { v \<leftarrow> datas s to;
          s \<leftarrow> set_data s to (v\<lparr>data16 := data16 from\<rparr>);
          v \<leftarrow> datas s to;
          set_data s to (v\<lparr>idx := idx from\<rparr>) }"

text \<open>
  \<open>core_list_insert_new\<close> takes the two allocation pointers by reference; the result carries their
  new values. A full block is the answer NULL with nothing changed.
\<close>

definition core_list_insert_new ::
  "'a store_scheme \<Rightarrow> ptr \<Rightarrow> list_data \<Rightarrow> nat \<Rightarrow> nat \<Rightarrow> nat \<Rightarrow> nat \<Rightarrow>
   (ptr \<times> nat \<times> nat \<times> 'a store_scheme) option" where
  "core_list_insert_new s insert_point i memblock datablock memblock_end datablock_end =
     (if memblock + 1 \<ge> memblock_end then Some (None, memblock, datablock, s)
      else if datablock + 1 \<ge> datablock_end then Some (None, memblock, datablock, s)
      else
        do { let newitem = Some memblock;
             n \<leftarrow> get_next s insert_point;
             s \<leftarrow> set_next s newitem n;
             s \<leftarrow> set_next s insert_point newitem;
             s \<leftarrow> set_info s newitem datablock;
             s \<leftarrow> copy_info s datablock i;
             Some (newitem, memblock + 1, datablock + 1, s) })"

text \<open>
  \<open>cmp_idx\<close>: with a NULL \<open>res\<close> the low byte of both data words is first restored from the high
  byte. The difference of the two 16-bit indices is computed in \<open>int\<close>.
\<close>

definition regen :: "ee_s16 \<Rightarrow> ee_s16" where
  "regen d = (d AND 0xff00) OR (0x00ff AND ucast (signed_drop_bit 8 (scast d :: ee_s32)))"

definition cmp_idx :: "bool \<Rightarrow> nat \<Rightarrow> nat \<Rightarrow> 'a store_scheme \<Rightarrow> (ee_s32 \<times> 'a store_scheme) option" where
  "cmp_idx res_null a b s =
     do { s \<leftarrow> (if res_null then
                  do { va \<leftarrow> datas s a;
                       s \<leftarrow> set_data s a (va\<lparr>data16 := regen (data16 va)\<rparr>);
                       vb \<leftarrow> datas s b;
                       set_data s b (vb\<lparr>data16 := regen (data16 vb)\<rparr>) }
                else Some s);
          va \<leftarrow> datas s a;
          vb \<leftarrow> datas s b;
          Some (scast (idx va) - scast (idx vb), s) }"

section \<open>Chains\<close>

text \<open>
  \<open>chain h p xs q\<close>: following next pointers from \<open>p\<close> visits the cells at the addresses \<open>xs\<close>, in
  order, and arrives at \<open>q\<close>.
\<close>

primrec chain :: "(nat \<rightharpoonup> list_head) \<Rightarrow> ptr \<Rightarrow> nat list \<Rightarrow> ptr \<Rightarrow> bool" where
  "chain h p [] q = (p = q)"
| "chain h p (x # xs) q = (p = Some x \<and> (\<exists>c. h x = Some c \<and> chain h (lnext c) xs q))"

lemma chain_append [simp]:
  "chain h p (xs @ ys) q \<longleftrightarrow> (\<exists>r. chain h p xs r \<and> chain h r ys q)"
  by (induction xs arbitrary: p) auto

lemma chain_cells: "chain h p xs q \<Longrightarrow> x \<in> set xs \<Longrightarrow> \<exists>c. h x = Some c"
  by (induction xs arbitrary: p) auto

lemma chain_cong: "chain h p xs q \<Longrightarrow> (\<And>x. x \<in> set xs \<Longrightarrow> h' x = h x) \<Longrightarrow> chain h' p xs q"
  by (induction xs arbitrary: p) auto

lemma chain_upd [simp]: "a \<notin> set xs \<Longrightarrow> chain (h(a \<mapsto> c)) p xs q = chain h p xs q"
  by (induction xs arbitrary: p) auto

lemma chain_head: "chain h p xs q \<Longrightarrow> xs \<noteq> [] \<Longrightarrow> p = Some (hd xs)"
  by (cases xs) auto

lemma chain_None [simp]: "chain h None xs q \<longleftrightarrow> xs = [] \<and> q = None"
  by (cases xs) auto

lemma chain_unique: "chain h p xs None \<Longrightarrow> chain h p ys None \<Longrightarrow> xs = ys"
  by (induction xs arbitrary: p ys) (case_tac ys; auto)+

lemma chain_distinct: "chain h p xs None \<Longrightarrow> distinct xs"
proof (induction xs arbitrary: p)
  case (Cons x xs)
  then obtain c where c: "h x = Some c" "chain h (lnext c) xs None" by auto
  have "x \<notin> set xs"
  proof
    assume "x \<in> set xs"
    then obtain us vs where xs: "xs = us @ x # vs" by (auto simp: in_set_conv_decomp)
    with c have "chain h (lnext c) vs None" by auto
    with c(2) have "xs = vs" by (rule chain_unique)
    with xs show False by simp
  qed
  with Cons c show ?case by auto
qed simp

text \<open>Redirecting the last cell of a chain.\<close>

lemma chain_set_last:
  assumes "chain h p (xs @ [t]) q" "distinct (xs @ [t])" "h t = Some c"
  shows "chain (h(t \<mapsto> c\<lparr>lnext := r\<rparr>)) p (xs @ [t]) r"
  using assms by auto

text \<open>
  \<open>same_cells S h h'\<close>: only next pointers of cells in \<open>S\<close> differ; no cell appears or disappears.
\<close>

definition same_cells :: "nat set \<Rightarrow> (nat \<rightharpoonup> list_head) \<Rightarrow> (nat \<rightharpoonup> list_head) \<Rightarrow> bool" where
  "same_cells S h h' \<longleftrightarrow>
     (\<forall>x. x \<notin> S \<longrightarrow> h' x = h x) \<and> (\<forall>x. map_option info (h' x) = map_option info (h x))"

lemma same_cells_refl [simp, intro]: "same_cells S h h"
  by (simp add: same_cells_def)

lemma same_cells_trans: "same_cells S h h' \<Longrightarrow> same_cells T h' h'' \<Longrightarrow> same_cells (S \<union> T) h h''"
  by (simp add: same_cells_def)

lemma same_cells_mono: "same_cells S h h' \<Longrightarrow> S \<subseteq> T \<Longrightarrow> same_cells T h h'"
  by (auto simp: same_cells_def)

lemma same_cells_set_next:
  "h x = Some c \<Longrightarrow> x \<in> S \<Longrightarrow> same_cells S h (h(x \<mapsto> c\<lparr>lnext := v\<rparr>))"
  by (auto simp: same_cells_def)

lemma same_cells_info: "same_cells S h h' \<Longrightarrow> map_option info (h' x) = map_option info (h x)"
  by (simp add: same_cells_def)

lemma same_cells_dom: "same_cells S h h' \<Longrightarrow> dom h' = dom h"
  unfolding same_cells_def dom_def by (metis map_option_is_None)

lemma same_cells_chain:
  "same_cells S h h' \<Longrightarrow> set xs \<inter> S = {} \<Longrightarrow> chain h p xs q \<Longrightarrow> chain h' p xs q"
  by (erule chain_cong) (auto simp: same_cells_def)

section \<open>What the operations do to chains\<close>

subsection \<open>Search\<close>

text \<open>The data a node carries.\<close>

definition node_data :: "'a store_scheme \<Rightarrow> nat \<Rightarrow> list_data option" where
  "node_data s x = Option.bind (map_option info (heads s x)) (datas s)"

definition first_such :: "('b \<Rightarrow> bool) \<Rightarrow> 'b list \<Rightarrow> 'b option" where
  "first_such P xs = (case dropWhile (\<lambda>x. \<not> P x) xs of [] \<Rightarrow> None | x # _ \<Rightarrow> Some x)"

lemma first_such_simps [simp]:
  "first_such P [] = None"
  "first_such P (x # xs) = (if P x then Some x else first_such P xs)"
  by (simp_all add: first_such_def)

lemma find_idx_chain:
  assumes "chain (heads s) p xs None" "\<forall>x\<in>set xs. node_data s x = Some (val x)"
  shows "find_idx s p key = Some (first_such (\<lambda>x. idx (val x) = key) xs)"
  using assms
proof (induction xs arbitrary: p)
  case Nil
  then show ?case by (subst find_idx.simps) simp
next
  case (Cons x xs)
  then show ?case
    by (subst find_idx.simps) (auto simp: node_data_def opt_simps)
qed

lemma find_data_chain:
  assumes "chain (heads s) p xs None" "\<forall>x\<in>set xs. node_data s x = Some (val x)"
  shows "find_data s p key = Some (first_such (\<lambda>x. data_byte (data16 (val x)) = scast key) xs)"
  using assms
proof (induction xs arbitrary: p)
  case Nil
  then show ?case by (subst find_data.simps) simp
next
  case (Cons x xs)
  then show ?case
    by (subst find_data.simps) (auto simp: node_data_def opt_simps)
qed

subsection \<open>Reversal\<close>

lemma reverse_loop_chain:
  assumes "chain (heads s) p xs None" "chain (heads s) nxt ys None" "set xs \<inter> set ys = {}"
  shows "\<exists>r h. reverse_loop s p nxt = Some (r, s\<lparr>heads := h\<rparr>) \<and> chain h r (rev xs @ ys) None \<and>
    same_cells (set xs) (heads s) h"
  using assms
proof (induction xs arbitrary: s p nxt ys)
  case Nil
  then show ?case
    by (subst reverse_loop.simps) (auto intro!: exI[of _ "heads s"])
next
  case (Cons x xs)
  from Cons.prems(1) obtain c where c: "p = Some x" "heads s x = Some c" "chain (heads s) (lnext c) xs None"
    by auto
  define h1 where "h1 = (heads s)(x \<mapsto> c\<lparr>lnext := nxt\<rparr>)"
  have x: "x \<notin> set xs" using chain_distinct[OF Cons.prems(1)] by simp
  have "chain h1 (lnext c) xs None" "chain h1 (Some x) (x # ys) None"
    using c x Cons.prems(2,3) by (auto simp: h1_def)
  then obtain r h where IH: "reverse_loop (s\<lparr>heads := h1\<rparr>) (lnext c) (Some x) = Some (r, s\<lparr>heads := h\<rparr>)"
    "chain h r (rev xs @ x # ys) None" "same_cells (set xs) h1 h"
    using Cons.IH[of "s\<lparr>heads := h1\<rparr>" "lnext c" "Some x" "x # ys"] Cons.prems(3) x by auto
  have "same_cells {x} (heads s) h1"
    unfolding h1_def using c(2) by (simp add: same_cells_set_next)
  from same_cells_trans[OF this IH(3)] have "same_cells (set (x # xs)) (heads s) h" by simp
  moreover have "set_next s (Some x) nxt = Some (s\<lparr>heads := h1\<rparr>)"
    using c(2) by (simp add: set_next_cell h1_def)
  ultimately show ?case
    using IH(1,2) c by (subst reverse_loop.simps) (auto intro!: exI[of _ h])
qed

lemma core_list_reverse_chain:
  assumes "chain (heads s) p xs None"
  shows "\<exists>r h. core_list_reverse s p = Some (r, s\<lparr>heads := h\<rparr>) \<and> chain h r (rev xs) None \<and>
    same_cells (set xs) (heads s) h"
  using reverse_loop_chain[OF assms, of None "[]"] by (simp add: core_list_reverse_def)

subsection \<open>Removal and its undoing\<close>

text \<open>The store after \<open>core_list_remove\<close> of the cell \<open>x\<close> whose successor is \<open>y\<close>.\<close>

lemma core_list_remove_eq:
  assumes "heads s x = Some cx" "lnext cx = Some y" "heads s y = Some cy" "x \<noteq> y"
  shows "core_list_remove s (Some x) = Some (Some y, s\<lparr>heads := (heads s)
     (x \<mapsto> \<lparr>lnext = lnext cy, info = info cy\<rparr>, y \<mapsto> \<lparr>lnext = None, info = info cx\<rparr>)\<rparr>)"
  using assms
  by (cases cx; cases cy)
     (simp add: core_list_remove_def set_next_def set_info_def fun_upd_twist)

lemma core_list_undo_remove_eq:
  assumes "heads s x = Some cx" "heads s y = Some cy" "x \<noteq> y"
  shows "core_list_undo_remove s (Some y) (Some x) = Some (Some y, s\<lparr>heads := (heads s)
     (x \<mapsto> \<lparr>lnext = Some y, info = info cy\<rparr>, y \<mapsto> \<lparr>lnext = lnext cx, info = info cx\<rparr>)\<rparr>)"
  using assms
  by (cases cx; cases cy)
     (simp add: core_list_undo_remove_def set_next_def set_info_def fun_upd_twist)

text \<open>The data a chain carries, node by node.\<close>

definition infos :: "(nat \<rightharpoonup> list_head) \<Rightarrow> nat list \<Rightarrow> nat option list" where
  "infos h xs = map (\<lambda>x. map_option info (h x)) xs"

lemma infos_upd [simp]: "x \<notin> set xs \<Longrightarrow> infos (h(x \<mapsto> c)) xs = infos h xs"
  by (auto simp: infos_def)

lemma core_list_remove_chain:
  assumes "chain (heads s) (Some x) (x # y # zs) None"
  shows "\<exists>h. core_list_remove s (Some x) = Some (Some y, s\<lparr>heads := h\<rparr>) \<and>
     chain h (Some x) (x # zs) None \<and> infos h (x # zs) = tl (infos (heads s) (x # y # zs)) \<and>
     chain h (Some y) [y] None \<and> infos h [y] = [hd (infos (heads s) (x # y # zs))] \<and>
     (\<forall>a. a \<noteq> x \<longrightarrow> a \<noteq> y \<longrightarrow> h a = heads s a)"
proof -
  from assms obtain cx cy where c: "heads s x = Some cx" "lnext cx = Some y" "heads s y = Some cy"
    "chain (heads s) (lnext cy) zs None" by auto
  have d: "x \<noteq> y" "x \<notin> set zs" "y \<notin> set zs" using chain_distinct[OF assms] by auto
  show ?thesis
    unfolding core_list_remove_eq[OF c(1-3) d(1)]
    using c d by (intro exI conjI) (simp, auto simp: infos_def)
qed

subsection \<open>Insertion\<close>

lemma core_list_insert_new_eq:
  assumes "heads s ip = Some c" "heads s mb = Some f" "datas s db = Some g" "ip \<noteq> mb"
    and "mb + 1 < mend" "db + 1 < dend"
  shows "core_list_insert_new s (Some ip) i mb db mend dend =
    Some (Some mb, mb + 1, db + 1,
      s\<lparr>heads := (heads s)(mb \<mapsto> \<lparr>lnext = lnext c, info = db\<rparr>, ip \<mapsto> c\<lparr>lnext := Some mb\<rparr>),
        datas := (datas s)(db \<mapsto> \<lparr>data16 = data16 i, idx = idx i\<rparr>)\<rparr>)"
  using assms
  by (cases f; cases g)
     (simp add: core_list_insert_new_def copy_info_def set_next_def set_info_def set_data_def Let_def
       fun_upd_twist)

lemma core_list_insert_new_full:
  "mend \<le> mb + 1 \<or> dend \<le> db + 1 \<Longrightarrow> core_list_insert_new s p i mb db mend dend = Some (None, mb, db, s)"
  by (auto simp: core_list_insert_new_def)

subsection \<open>Comparison by index\<close>

definition regen_data :: "list_data \<Rightarrow> list_data" where
  "regen_data v = v\<lparr>data16 := regen (data16 v)\<rparr>"

lemma regen_idem [simp]: "regen (regen d) = regen d"
proof (rule bit_word_eqI)
  fix n assume "n < LENGTH(16)"
  then show "bit (regen (regen d)) n = bit (regen d) n"
    unfolding regen_def
    by (auto simp: bit_simps numeral_eq_Suc less_Suc_eq)
qed

lemma regen_data_simps [simp]:
  "idx (regen_data v) = idx v" "regen_data (regen_data v) = regen_data v"
  by (simp_all add: regen_data_def)

lemma cmp_idx_eq:
  assumes "datas s a = Some va" "datas s b = Some vb"
  shows "cmp_idx True a b s = Some (scast (idx va) - scast (idx vb),
           s\<lparr>datas := (datas s)(a \<mapsto> regen_data va, b \<mapsto> regen_data vb)\<rparr>)"
    and "cmp_idx False a b s = Some (scast (idx va) - scast (idx vb), s)"
  using assms
  by (cases "a = b"; auto simp: cmp_idx_def set_data_def regen_data_def [symmetric])+

lemma signed_difference_le_0:
  "(scast x - scast y :: ee_s32) \<le>s 0 \<longleftrightarrow> sint x \<le> sint y" for x y :: ee_s16
proof -
  have "sint (scast x - scast y :: ee_s32) = sint x - sint y"
    using sint_greater_eq[of x] sint_less[of x] sint_greater_eq[of y] sint_less[of y]
    by (simp add: sint_word_ariths signed_scast_eq signed_take_bit_int_eq_self)
  then show ?thesis by (simp add: word_sle_eq)
qed

section \<open>Properties\<close>

text \<open>A list of three nodes, out of order, for the concrete instances.\<close>

definition sample_store :: store where
  "sample_store = \<lparr>
     heads = [0 \<mapsto> \<lparr>lnext = Some 2, info = 1\<rparr>, 2 \<mapsto> \<lparr>lnext = Some 1, info = 0\<rparr>,
              1 \<mapsto> \<lparr>lnext = None, info = 2\<rparr>],
     datas = [0 \<mapsto> \<lparr>data16 = 0x1281, idx = 7\<rparr>, 1 \<mapsto> \<lparr>data16 = 0x3456, idx = 9\<rparr>,
              2 \<mapsto> \<lparr>data16 = 0x789a, idx = 7\<rparr>]\<rparr>"

lemma sample_chain: "chain (heads sample_store) (Some 0) [0, 2, 1] None"
  by (simp add: sample_store_def)

lemma sample_data: "\<forall>x\<in>set [0, 2, 1]. node_data sample_store x \<noteq> None"
  by (simp add: sample_store_def node_data_def)

lemma first_such_in: "first_such P xs = Some x \<Longrightarrow> x \<in> set xs"
  by (induction xs) (auto split: if_splits)

lemma core_list_find_total:
  assumes "chain (heads s) p xs None" "\<forall>x\<in>set xs. node_data s x \<noteq> None"
  shows "\<exists>q. core_list_find s p i = Some q \<and> (\<forall>x. q = Some x \<longrightarrow> x \<in> set xs)"
proof -
  have "\<forall>x\<in>set xs. node_data s x = Some (the (node_data s x))" using assms(2) by auto
  from find_idx_chain[OF assms(1) this] find_data_chain[OF assms(1) this] show ?thesis
    by (auto simp: core_list_find_def intro: first_such_in)
qed

text \<open>A chain and the data pointers of its nodes determine the cells.\<close>

lemma same_cells_same_chain:
  assumes "same_cells (set xs) h h'" "chain h p xs q" "chain h' p xs q"
  shows "h' = h"
proof
  have "h' x = h x" if "x \<in> set xs" "chain h p xs q" "chain h' p xs q" for x p
    using that
  proof (induction xs arbitrary: p)
    case (Cons y ys)
    then obtain c c' where c: "h y = Some c" "h' y = Some c'" "chain h (lnext c) ys q" "chain h' (lnext c') ys q"
      by auto
    have "lnext c' = lnext c"
      using c by (cases ys) auto
    then have "h' y = h y" "chain h' (lnext c) ys q"
      using c same_cells_info[OF assms(1), of y] by simp_all
    with Cons.IH[OF _ c(3)] Cons.prems(1) show ?case by (cases "x = y") simp_all
  qed simp
  with assms show "h' x = h x" for x by (cases "x \<in> set xs") (auto simp: same_cells_def)
qed

text \<open>
  \<open>core_list_find\<close> on a list whose nodes carry the data \<open>val\<close> terminates and returns the first
  node with the wanted index, when that is not negative, and otherwise the first node whose low data
  byte is the wanted value; NULL when there is none.
\<close>

theorem core_list_find_first:
  assumes "chain (heads s) p xs None" "\<forall>x\<in>set xs. node_data s x = Some (val x)"
  shows "core_list_find s p i = Some (if 0 \<le>s idx i
     then first_such (\<lambda>x. idx (val x) = idx i) xs
     else first_such (\<lambda>x. data_byte (data16 (val x)) = scast (data16 i)) xs)"
  unfolding core_list_find_def using find_idx_chain[OF assms] find_data_chain[OF assms] by simp

theorem core_list_find_first_witness:
  "core_list_find sample_store (Some 0) \<lparr>data16 = 0x56, idx = -1\<rparr> = Some (Some 0) \<and>
   core_list_find sample_store (Some 0) \<lparr>data16 = 0, idx = 7\<rparr> = Some (Some 2) \<and>
   core_list_find sample_store (Some 0) \<lparr>data16 = 0, idx = 8\<rparr> = Some None"
proof -
  have d: "\<forall>x\<in>set [0, 2, 1]. node_data sample_store x = Some (the (node_data sample_store x))"
    using sample_data by auto
  note F = core_list_find_first[OF sample_chain d]
  show ?thesis
    unfolding F by (simp add: sample_store_def node_data_def data_byte_def word_sle_eq)
qed

text \<open>
  C36. \<open>core_list_reverse\<close> terminates and reverses the list in place, touching next pointers of its
  nodes only; reversing the result gives back the first pointer and the identical store.
\<close>

theorem core_list_reverse_twice:
  assumes "chain (heads s) p xs None"
  shows "\<exists>r h. core_list_reverse s p = Some (r, s\<lparr>heads := h\<rparr>) \<and> chain h r (rev xs) None \<and>
    same_cells (set xs) (heads s) h \<and> core_list_reverse (s\<lparr>heads := h\<rparr>) r = Some (p, s)"
proof -
  obtain r h where r: "core_list_reverse s p = Some (r, s\<lparr>heads := h\<rparr>)" "chain h r (rev xs) None"
    "same_cells (set xs) (heads s) h"
    using core_list_reverse_chain[OF assms] by blast
  obtain r' h' where r': "core_list_reverse (s\<lparr>heads := h\<rparr>) r = Some (r', s\<lparr>heads := h'\<rparr>)"
    "chain h' r' xs None" "same_cells (set xs) h h'"
    using core_list_reverse_chain[of "s\<lparr>heads := h\<rparr>" r "rev xs"] r(2) by auto
  have "r' = p" using assms r'(2) by (cases xs) auto
  moreover have "h' = heads s"
    using same_cells_same_chain[of xs "heads s" h' p None] same_cells_trans[OF r(3) r'(3)] assms r'(2)
      calculation by simp
  ultimately show ?thesis using r r'(1) by auto
qed

theorem core_list_reverse_twice_witness:
  "\<exists>r h. core_list_reverse sample_store (Some 0) = Some (r, sample_store\<lparr>heads := h\<rparr>) \<and>
    chain h r [1, 2, 0] None \<and> same_cells {0, 2, 1} (heads sample_store) h \<and>
    core_list_reverse (sample_store\<lparr>heads := h\<rparr>) r = Some (Some 0, sample_store)"
  using core_list_reverse_twice[OF sample_chain] by simp

lemma core_list_remove_undo_chain:
  assumes "chain (heads s) (Some x) (x # y # zs) None"
  shows "\<exists>h. core_list_remove s (Some x) = Some (Some y, s\<lparr>heads := h\<rparr>) \<and>
    chain h (Some x) (x # zs) None \<and> infos h (x # zs) = tl (infos (heads s) (x # y # zs)) \<and>
    chain h (Some y) [y] None \<and> infos h [y] = [hd (infos (heads s) (x # y # zs))] \<and>
    (\<forall>a. a \<noteq> x \<longrightarrow> a \<noteq> y \<longrightarrow> h a = heads s a) \<and>
    core_list_undo_remove (s\<lparr>heads := h\<rparr>) (Some y) (Some x) = Some (Some y, s)"
proof -
  from assms obtain cx cy where c: "heads s x = Some cx" "lnext cx = Some y" "heads s y = Some cy" by auto
  have xy: "x \<noteq> y" using chain_distinct[OF assms] by auto
  obtain h where h: "core_list_remove s (Some x) = Some (Some y, s\<lparr>heads := h\<rparr>)"
    "chain h (Some x) (x # zs) None" "infos h (x # zs) = tl (infos (heads s) (x # y # zs))"
    "chain h (Some y) [y] None" "infos h [y] = [hd (infos (heads s) (x # y # zs))]"
    "\<forall>a. a \<noteq> x \<longrightarrow> a \<noteq> y \<longrightarrow> h a = heads s a"
    using core_list_remove_chain[OF assms] by blast
  have "heads (s\<lparr>heads := h\<rparr>) = heads (s\<lparr>heads := (heads s)
      (x \<mapsto> \<lparr>lnext = lnext cy, info = info cy\<rparr>, y \<mapsto> \<lparr>lnext = None, info = info cx\<rparr>)\<rparr>)"
    using h(1) core_list_remove_eq[OF c xy] by simp
  then have hxy: "h x = Some \<lparr>lnext = lnext cy, info = info cy\<rparr>" "h y = Some \<lparr>lnext = None, info = info cx\<rparr>"
    using xy by simp_all
  have "h(x \<mapsto> \<lparr>lnext = Some y, info = info cx\<rparr>, y \<mapsto> \<lparr>lnext = lnext cy, info = info cy\<rparr>) = heads s"
    using h(6) c by (intro ext) (auto intro: list_head.equality)
  then have "core_list_undo_remove (s\<lparr>heads := h\<rparr>) (Some y) (Some x) = Some (Some y, s)"
    using core_list_undo_remove_eq[of "s\<lparr>heads := h\<rparr>" x _ y] hxy xy by simp
  with h show ?thesis by blast
qed

text \<open>
  C35. \<open>core_list_remove\<close> on a node with a successor takes the data of that node out of the list: the
  list from the node carries the remaining data in order, the returned node carries the removed
  data, and no other cell changes. \<open>core_list_undo_remove\<close> then gives back the identical store.
\<close>

theorem core_list_remove_undo:
  assumes "chain (heads s) (Some x) (x # y # zs) None"
  shows "\<exists>h. core_list_remove s (Some x) = Some (Some y, s\<lparr>heads := h\<rparr>) \<and>
    chain h (Some x) (x # zs) None \<and> infos h (x # zs) = tl (infos (heads s) (x # y # zs)) \<and>
    chain h (Some y) [y] None \<and> infos h [y] = [hd (infos (heads s) (x # y # zs))] \<and>
    (\<forall>a. a \<noteq> x \<longrightarrow> a \<noteq> y \<longrightarrow> h a = heads s a) \<and>
    core_list_undo_remove (s\<lparr>heads := h\<rparr>) (Some y) (Some x) = Some (Some y, s)"
  by (rule core_list_remove_undo_chain[OF assms])

theorem core_list_remove_undo_witness:
  "\<exists>h. core_list_remove sample_store (Some 0) = Some (Some 2, sample_store\<lparr>heads := h\<rparr>) \<and>
    chain h (Some 0) [0, 1] None \<and> infos h [0, 1] = [Some 0, Some 2] \<and> infos h [2] = [Some 1] \<and>
    core_list_undo_remove (sample_store\<lparr>heads := h\<rparr>) (Some 2) (Some 0) = Some (Some 2, sample_store)"
proof -
  have "infos (heads sample_store) [0, 2, 1] = [Some 1, Some 0, Some 2]"
    by (simp add: infos_def sample_store_def)
  with core_list_remove_undo[OF sample_chain] show ?thesis by auto
qed

text \<open>
  C37. \<open>core_list_insert_new\<close> with room in both blocks links a fresh node with a copy of the data
  behind the insertion point and advances both allocation pointers; with either block full it
  returns NULL and changes nothing.
\<close>

theorem core_list_insert_new_spec:
  assumes "chain (heads s) (Some ip) (ip # xs) None" "mb \<notin> set (ip # xs)"
    and "mb \<in> dom (heads s)" "db \<in> dom (datas s)"
  shows "if mb + 1 < mend \<and> db + 1 < dend
    then \<exists>h. core_list_insert_new s (Some ip) i mb db mend dend = Some (Some mb, mb + 1, db + 1,
           s\<lparr>heads := h, datas := (datas s)(db \<mapsto> \<lparr>data16 = data16 i, idx = idx i\<rparr>)\<rparr>) \<and>
         chain h (Some ip) (ip # mb # xs) None \<and> map_option info (h mb) = Some db \<and>
         same_cells {ip} ((heads s)(mb := h mb)) h
    else core_list_insert_new s (Some ip) i mb db mend dend = Some (None, mb, db, s)"
proof (cases "mb + 1 < mend \<and> db + 1 < dend")
  case True
  from assms obtain c f g where c: "heads s ip = Some c" "heads s mb = Some f" "datas s db = Some g" "ip \<noteq> mb"
    "chain (heads s) (lnext c) xs None" by auto
  define h where "h = (heads s)(mb \<mapsto> \<lparr>lnext = lnext c, info = db\<rparr>, ip \<mapsto> c\<lparr>lnext := Some mb\<rparr>)"
  have "ip \<notin> set xs" using chain_distinct[OF assms(1)] by simp
  then have "chain h (Some ip) (ip # mb # xs) None" "map_option info (h mb) = Some db"
    using c assms(2) by (auto simp: h_def)
  moreover have "same_cells {ip} ((heads s)(mb := h mb)) h"
    using c by (auto simp: same_cells_def h_def)
  ultimately show ?thesis
    unfolding if_P[OF True] using core_list_insert_new_eq[OF c(1-4), of mend dend i, folded h_def] True
    by blast
next
  case False
  then have "mend \<le> mb + 1 \<or> dend \<le> db + 1" by auto
  with False show ?thesis by (subst if_not_P) (auto intro: core_list_insert_new_full)
qed

theorem core_list_insert_new_spec_witness:
  "\<exists>h. core_list_insert_new (sample_store\<lparr>heads := (heads sample_store)(3 \<mapsto> \<lparr>lnext = None, info = 0\<rparr>),
        datas := (datas sample_store)(3 \<mapsto> \<lparr>data16 = 0, idx = 0\<rparr>)\<rparr>) (Some 0) \<lparr>data16 = 5, idx = 6\<rparr> 3 3 5 5 =
      Some (Some 3, 4, 4, sample_store\<lparr>heads := h,
        datas := (datas sample_store)(3 \<mapsto> \<lparr>data16 = 5, idx = 6\<rparr>)\<rparr>) \<and>
    chain h (Some 0) [0, 3, 2, 1] None"
proof -
  let ?s = "sample_store\<lparr>heads := (heads sample_store)(3 \<mapsto> \<lparr>lnext = None, info = 0\<rparr>),
        datas := (datas sample_store)(3 \<mapsto> \<lparr>data16 = 0, idx = 0\<rparr>)\<rparr>"
  have "chain (heads ?s) (Some 0) (0 # [2, 1]) None" using sample_chain by (simp add: sample_store_def)
  from core_list_insert_new_spec[OF this, of 3 3 5 5 "\<lparr>data16 = 5, idx = 6\<rparr>"] show ?thesis by auto
qed

end
