(* ===== verification/List_Sort.thy ===== *)
theory List_Sort
  imports List_Heap "HOL-Library.Multiset"
begin

text \<open>
  \<open>core_list_mergesort\<close> of \<open>coremark/src/core_list_join.c\<close>: the in-place, bottom-up merge sort of the
  list cells, over any comparison function that may also change the benchmark state.

  The development is in three layers. The heap code is modelled loop by loop. A list-level sort
  \<open>sort_runs\<close> threads the comparison state through lists of addresses, and the heap code is shown
  to compute it, for every comparison that does not look at the cells (locale \<open>list_cmp\<close>).
  \<open>sort_runs\<close> is then shown to return a permutation, for every comparison that returns (locale
  \<open>list_cmp_total\<close>), and the stable sort by a key, for every comparison that compares keys
  (locale \<open>list_cmp_key\<close>); \<open>cmp_idx\<close> is an interpretation of the last one.
\<close>

section \<open>The code\<close>

type_synonym 's list_cmp_fun = "nat \<Rightarrow> nat \<Rightarrow> 's \<Rightarrow> (ee_s32 \<times> 's) option"

text \<open>
  \<open>for (i = 0; i < insize; i++) { psize++; q = q->next; if (!q) break; }\<close>; the first argument is
  the number of iterations left.
\<close>

fun advance :: "nat \<Rightarrow> 'a store_scheme \<Rightarrow> ptr \<Rightarrow> nat \<Rightarrow> (ptr \<times> nat) option" where
  "advance 0 s q psize = Some (q, psize)"
| "advance (Suc n) s q psize =
     do { q' \<leftarrow> get_next s q;
          if q' = None then Some (q', Suc psize) else advance n s q' (Suc psize) }"

text \<open>The variables of the merge: \<open>p\<close>, \<open>psize\<close>, \<open>q\<close>, \<open>qsize\<close>, \<open>list\<close> and \<open>tail\<close>.\<close>

record merge_vars =
  mp :: ptr
  mpsize :: nat
  mq :: ptr
  mqsize :: nat
  mlist :: ptr
  mtail :: ptr

text \<open>Whether the next element comes from \<open>p\<close>: the chain of conditions of the loop body.\<close>

definition from_p ::
  "'a store_scheme list_cmp_fun \<Rightarrow> merge_vars \<Rightarrow> 'a store_scheme \<Rightarrow> (bool \<times> 'a store_scheme) option" where
  "from_p cmp v s =
     (if mpsize v = 0 then Some (False, s)
      else if mqsize v = 0 \<or> mq v = None then Some (True, s)
      else do { pi \<leftarrow> get_info s (mp v);
                qi \<leftarrow> get_info s (mq v);
                (c, s) \<leftarrow> cmp pi qi s;
                Some (c \<le>s 0, s) })"

text \<open>Adding \<open>e\<close> to the merged list.\<close>

definition add_to_tail ::
  "ptr \<Rightarrow> merge_vars \<Rightarrow> 'a store_scheme \<Rightarrow> (merge_vars \<times> 'a store_scheme) option" where
  "add_to_tail e v s =
     (if mtail v \<noteq> None then
        do { s \<leftarrow> set_next s (mtail v) e; Some (v\<lparr>mtail := e\<rparr>, s) }
      else Some (v\<lparr>mlist := e, mtail := e\<rparr>, s))"

definition merge_step ::
  "'a store_scheme list_cmp_fun \<Rightarrow> merge_vars \<Rightarrow> 'a store_scheme \<Rightarrow> (merge_vars \<times> 'a store_scheme) option"
  where
  "merge_step cmp v s =
     do { (b, s) \<leftarrow> from_p cmp v s;
          if b then
            do { n \<leftarrow> get_next s (mp v);
                 add_to_tail (mp v) (v\<lparr>mp := n, mpsize := mpsize v - 1\<rparr>) s }
          else
            do { n \<leftarrow> get_next s (mq v);
                 add_to_tail (mq v) (v\<lparr>mq := n, mqsize := mqsize v - 1\<rparr>) s } }"

text \<open>\<open>while (psize > 0 || (qsize > 0 && q))\<close>\<close>

partial_function (option) merge_loop ::
  "'a store_scheme list_cmp_fun \<Rightarrow> merge_vars \<Rightarrow> 'a store_scheme \<Rightarrow> (merge_vars \<times> 'a store_scheme) option"
  where
  "merge_loop cmp v s =
     (if mpsize v > 0 \<or> (mqsize v > 0 \<and> mq v \<noteq> None) then
        do { (v, s) \<leftarrow> merge_step cmp v s; merge_loop cmp v s }
      else Some (v, s))"

text \<open>One pass, \<open>while (p)\<close>: the result is \<open>list\<close>, \<open>tail\<close>, \<open>nmerges\<close> and the store.\<close>

partial_function (option) pass_loop ::
  "'a store_scheme list_cmp_fun \<Rightarrow> nat \<Rightarrow> ptr \<Rightarrow> ptr \<Rightarrow> ptr \<Rightarrow> nat \<Rightarrow> 'a store_scheme \<Rightarrow>
   (ptr \<times> ptr \<times> nat \<times> 'a store_scheme) option" where
  "pass_loop cmp insize p list tail nmerges s =
     (if p \<noteq> None then
        do { (q, psize) \<leftarrow> advance insize s p 0;
             (v, s) \<leftarrow> merge_loop cmp \<lparr>mp = p, mpsize = psize, mq = q, mqsize = insize,
                                     mlist = list, mtail = tail\<rparr> s;
             pass_loop cmp insize (mq v) (mlist v) (mtail v) (Suc nmerges) s }
      else Some (list, tail, nmerges, s))"

text \<open>
  The outer loop. \<open>insize\<close> is an \<open>ee_s32\<close>: doubling it past \<open>2 ^ 31 - 1\<close> is signed overflow,
  which is \<open>None\<close> here. (\<open>psize\<close> and \<open>qsize\<close> never exceed \<open>insize\<close>.)
\<close>

partial_function (option) sort_loop ::
  "'a store_scheme list_cmp_fun \<Rightarrow> nat \<Rightarrow> ptr \<Rightarrow> 'a store_scheme \<Rightarrow> (ptr \<times> 'a store_scheme) option" where
  "sort_loop cmp insize p s =
     do { (list, tail, nmerges, s) \<leftarrow> pass_loop cmp insize p None None 0 s;
          s \<leftarrow> set_next s tail None;
          if nmerges \<le> 1 then Some (list, s)
          else if insize * 2 < 2 ^ 31 then sort_loop cmp (insize * 2) list s
          else None }"

declare merge_loop.simps [code] pass_loop.simps [code] sort_loop.simps [code]

definition core_list_mergesort ::
  "ptr \<Rightarrow> 'a store_scheme list_cmp_fun \<Rightarrow> 'a store_scheme \<Rightarrow> (ptr \<times> 'a store_scheme) option" where
  "core_list_mergesort list cmp s = sort_loop cmp 1 list s"

section \<open>The list-level sort\<close>

text \<open>
  Merging two lists of addresses; \<open>dof\<close> gives the data address of a node. The state is threaded
  through the comparisons in the order the code makes them.
\<close>

fun merge_runs ::
  "'s list_cmp_fun \<Rightarrow> (nat \<Rightarrow> nat) \<Rightarrow> nat list \<Rightarrow> nat list \<Rightarrow> 's \<Rightarrow> (nat list \<times> 's) option" where
  "merge_runs cmp dof [] [] s = Some ([], s)"
| "merge_runs cmp dof [] (y # ys) s =
     do { (zs, s) \<leftarrow> merge_runs cmp dof [] ys s; Some (y # zs, s) }"
| "merge_runs cmp dof (x # xs) [] s =
     do { (zs, s) \<leftarrow> merge_runs cmp dof xs [] s; Some (x # zs, s) }"
| "merge_runs cmp dof (x # xs) (y # ys) s =
     do { (c, s) \<leftarrow> cmp (dof x) (dof y) s;
          if c \<le>s 0 then do { (zs, s) \<leftarrow> merge_runs cmp dof xs (y # ys) s; Some (x # zs, s) }
          else do { (zs, s) \<leftarrow> merge_runs cmp dof (x # xs) ys s; Some (y # zs, s) } }"

text \<open>One pass over a list of runs of length \<open>k\<close>: the merged list and the number of merges.\<close>

function pass_runs ::
  "'s list_cmp_fun \<Rightarrow> (nat \<Rightarrow> nat) \<Rightarrow> nat \<Rightarrow> nat list \<Rightarrow> 's \<Rightarrow> (nat list \<times> nat \<times> 's) option" where
  "pass_runs cmp dof k xs s =
     (if xs = [] \<or> k = 0 then Some ([], 0, s)
      else do { (zs, s) \<leftarrow> merge_runs cmp dof (take k xs) (take k (drop k xs)) s;
                (ws, n, s) \<leftarrow> pass_runs cmp dof k (drop (2 * k) xs) s;
                Some (zs @ ws, Suc n, s) })"
  by pat_completeness auto
termination
  by (relation "measure (\<lambda>(cmp, dof, k, xs, s). length xs)") auto

declare pass_runs.simps [simp del]

text \<open>The number of merges of a pass depends on the length only.\<close>

lemma merge_runs_length:
  "merge_runs cmp dof xs ys s = Some (zs, s') \<Longrightarrow> length zs = length xs + length ys"
proof (induction cmp dof xs ys s arbitrary: zs s' rule: merge_runs.induct)
  case (4 cmp dof x xs y ys s)
  from "4.prems" obtain c s1 where c: "cmp (dof x) (dof y) s = Some (c, s1)"
    by (auto simp: opt_simps)
  show ?case
    using "4.prems" "4.IH"(1)[OF c refl] "4.IH"(2)[OF c refl]
    by (cases "c \<le>s 0") (auto simp: c opt_simps)
qed (auto simp: opt_simps)

lemma pass_runs_count:
  "0 < k \<Longrightarrow> pass_runs cmp dof k xs s = Some (ys, n, s') \<Longrightarrow>
   length ys = length xs \<and> length xs \<le> n * (2 * k) \<and>
   (if xs = [] then n = 0 else n * (2 * k) < length xs + 2 * k)"
proof (induction cmp dof k xs s arbitrary: ys n s' rule: pass_runs.induct)
  case (1 cmp dof k xs s)
  show ?case
  proof (cases "xs = []")
    case True
    with "1.prems" show ?thesis by (simp add: pass_runs.simps)
  next
    case False
    with "1.prems" obtain zs s1 ws m where
      m: "merge_runs cmp dof (take k xs) (take k (drop k xs)) s = Some (zs, s1)"
      and p: "pass_runs cmp dof k (drop (2 * k) xs) s1 = Some (ws, m, s')"
      and ys: "ys = zs @ ws" "n = Suc m"
      by (subst (asm) pass_runs.simps) (auto simp: opt_simps)
    have nz: "\<not> (xs = [] \<or> k = 0)" using False "1.prems"(1) by simp
    note IH = "1.IH"[OF nz m refl "1.prems"(1) p]
    have "length zs = length (take k xs) + length (take k (drop k xs))"
      by (rule merge_runs_length[OF m])
    then show ?thesis
      using IH False ys by (cases "length xs \<le> 2 * k") auto
  qed
qed

lemma pass_runs_progress:
  assumes "0 < k" "pass_runs cmp dof k xs s = Some (ys, n, s')" "\<not> n \<le> 1"
  shows "length ys = length xs" "k < length xs" "length ys - k * 2 < length xs - k"
proof -
  note cnt = pass_runs_count[OF assms(1,2)]
  then show len: "length ys = length xs" by simp
  have "2 * (2 * k) \<le> n * (2 * k)" using assms(3) by (intro mult_le_mono1) simp
  moreover have "n * (2 * k) < length xs + 2 * k" using cnt assms(3) by (auto split: if_splits)
  ultimately show k: "k < length xs" by linarith
  then show "length ys - k * 2 < length xs - k" using len assms(1) by simp
qed

function sort_runs ::
  "'s list_cmp_fun \<Rightarrow> (nat \<Rightarrow> nat) \<Rightarrow> nat \<Rightarrow> nat list \<Rightarrow> 's \<Rightarrow> (nat list \<times> 's) option" where
  "sort_runs cmp dof k xs s =
     (if k = 0 then None
      else case pass_runs cmp dof k xs s of
          None \<Rightarrow> None
        | Some (ys, n, s') \<Rightarrow>
            if n \<le> 1 then Some (ys, s')
            else if k * 2 < 2 ^ 31 then sort_runs cmp dof (k * 2) ys s'
            else None)"
  by pat_completeness auto
termination
proof (relation "measure (\<lambda>(cmp, dof, k, xs, s). length xs - k)")
  fix cmp :: "'s list_cmp_fun" and dof k xs s r ys q n s'
  assume *: "k \<noteq> (0::nat)" "pass_runs cmp dof k xs s = Some r" "(ys, q) = r" "(n, s') = q" "\<not> n \<le> (1::nat)"
  then have "length ys - k * 2 < length xs - k"
    by (intro pass_runs_progress(3)[of k cmp dof xs s ys n s']) auto
  with * show "((cmp, dof, k * 2, ys, s'), cmp, dof, k, xs, s) \<in> measure (\<lambda>(cmp, dof, k, xs, s). length xs - k)"
    by simp
qed simp

declare sort_runs.simps [simp del]

lemma merge_runs_mset:
  "merge_runs cmp dof xs ys s = Some (zs, s') \<Longrightarrow> mset zs = mset xs + mset ys"
proof (induction cmp dof xs ys s arbitrary: zs s' rule: merge_runs.induct)
  case (4 cmp dof x xs y ys s)
  from "4.prems" obtain c s1 where c: "cmp (dof x) (dof y) s = Some (c, s1)"
    by (auto simp: opt_simps)
  show ?case
    using "4.prems" "4.IH"(1)[OF c refl] "4.IH"(2)[OF c refl]
    by (cases "c \<le>s 0") (auto simp: c opt_simps)
qed (auto simp: opt_simps)

lemma merge_runs_set:
  "merge_runs cmp dof xs ys s = Some (zs, s') \<Longrightarrow> set zs = set xs \<union> set ys"
  by (drule merge_runs_mset) (metis set_mset_mset set_mset_union)

lemma mset_take_take_drop:
  "mset (take k xs) + mset (take k (drop k xs)) + mset (drop (2 * k) xs) = mset xs"
proof -
  have "xs = take k xs @ take k (drop k xs) @ drop (2 * k) xs"
    by (metis append_take_drop_id drop_drop mult_2)
  then have "mset xs = mset (take k xs @ take k (drop k xs) @ drop (2 * k) xs)" by simp
  then show ?thesis by (simp del: append_take_drop_id add: add.assoc)
qed

lemma pass_runs_mset:
  "0 < k \<Longrightarrow> pass_runs cmp dof k xs s = Some (ys, n, s') \<Longrightarrow> mset ys = mset xs"
proof (induction cmp dof k xs s arbitrary: ys n s' rule: pass_runs.induct)
  case (1 cmp dof k xs s)
  show ?case
  proof (cases "xs = []")
    case True
    with "1.prems" show ?thesis by (simp add: pass_runs.simps)
  next
    case False
    with "1.prems" obtain zs s1 ws m where
      m: "merge_runs cmp dof (take k xs) (take k (drop k xs)) s = Some (zs, s1)"
      and p: "pass_runs cmp dof k (drop (2 * k) xs) s1 = Some (ws, m, s')"
      and ys: "ys = zs @ ws"
      by (subst (asm) pass_runs.simps) (auto simp: opt_simps)
    have nz: "\<not> (xs = [] \<or> k = 0)" using False "1.prems"(1) by simp
    show ?thesis
      using "1.IH"[OF nz m refl "1.prems"(1) p] merge_runs_mset[OF m] ys mset_take_take_drop[of k xs]
      by simp
  qed
qed

lemma sort_runs_mset: "sort_runs cmp dof k xs s = Some (ys, s') \<Longrightarrow> mset ys = mset xs"
proof (induction cmp dof k xs s arbitrary: ys s' rule: sort_runs.induct)
  case (1 cmp dof k xs s)
  from "1.prems" obtain zs n s1 where k: "k \<noteq> 0" and p: "pass_runs cmp dof k xs s = Some (zs, n, s1)"
    by (subst (asm) sort_runs.simps) (auto split: if_splits option.splits)
  have "mset zs = mset xs" using pass_runs_mset[OF _ p] k by simp
  then show ?case
    using "1.prems" k p "1.IH"[OF k p refl refl]
    by (simp add: sort_runs.simps [of cmp dof k xs] split: if_splits)
qed

section \<open>The heap code computes the list-level sort\<close>

text \<open>The part of the merged list built so far: \<open>tail\<close> is its last cell, whose next pointer is stale.\<close>

definition built :: "(nat \<rightharpoonup> list_head) \<Rightarrow> ptr \<Rightarrow> ptr \<Rightarrow> nat list \<Rightarrow> bool" where
  "built h list tail ds \<longleftrightarrow>
     (if ds = [] then list = None \<and> tail = None
      else tail = Some (last ds) \<and> (\<exists>e. chain h list ds e))"

text \<open>
  The loop invariant: \<open>ds\<close> is built, \<open>ps\<close> is what is left of the first run, \<open>qs\<close> of the second,
  and \<open>rest\<close> is the list behind it.
\<close>

definition merge_inv ::
  "(nat \<rightharpoonup> list_head) \<Rightarrow> merge_vars \<Rightarrow> nat list \<Rightarrow> nat list \<Rightarrow> nat list \<Rightarrow> nat list \<Rightarrow> bool" where
  "merge_inv h v ds ps qs rest \<longleftrightarrow>
     built h (mlist v) (mtail v) ds \<and> mpsize v = length ps \<and> (\<exists>e. chain h (mp v) ps e) \<and>
     chain h (mq v) (qs @ rest) None \<and> qs = take (mqsize v) (qs @ rest) \<and>
     distinct (ds @ ps @ qs @ rest)"

definition info_at :: "(nat \<rightharpoonup> list_head) \<Rightarrow> (nat \<Rightarrow> nat) \<Rightarrow> nat set \<Rightarrow> bool" where
  "info_at h dof A \<longleftrightarrow> (\<forall>x\<in>A. map_option info (h x) = Some (dof x))"

lemma info_at_same_cells: "same_cells S h h' \<Longrightarrow> info_at h dof A \<Longrightarrow> info_at h' dof A"
  by (simp add: info_at_def same_cells_def)

lemma info_at_mono: "info_at h dof A \<Longrightarrow> B \<subseteq> A \<Longrightarrow> info_at h dof B"
  by (auto simp: info_at_def)

lemma set_last_next:
  assumes "chain h list ds e" "ds \<noteq> []" "distinct ds"
  shows "\<exists>h'. set_next (s\<lparr>heads := h\<rparr>) (Some (last ds)) r = Some (s\<lparr>heads := h'\<rparr>) \<and>
    chain h' list ds r \<and> same_cells (set ds) h h'"
proof -
  have ds: "ds = butlast ds @ [last ds]" using assms(2) by simp
  obtain c where c: "h (last ds) = Some c" using chain_cells[OF assms(1), of "last ds"] assms(2) by auto
  define h' where "h' = h(last ds \<mapsto> c\<lparr>lnext := r\<rparr>)"
  have "chain h' list (butlast ds @ [last ds]) r"
    unfolding h'_def by (rule chain_set_last) (use assms ds c in auto)
  moreover have "same_cells (set ds) h h'"
    unfolding h'_def using c assms(2) by (simp add: same_cells_set_next)
  moreover have "set_next (s\<lparr>heads := h\<rparr>) (Some (last ds)) r = Some (s\<lparr>heads := h'\<rparr>)"
    using c by (simp add: set_next_def h'_def)
  ultimately show ?thesis using ds by auto
qed

lemma add_to_tail_built:
  assumes "built h (mlist v) (mtail v) ds" "distinct (ds @ [e])" "h e = Some c"
  shows "\<exists>l h'. add_to_tail (Some e) v (s\<lparr>heads := h\<rparr>)
      = Some (v\<lparr>mlist := l, mtail := Some e\<rparr>, s\<lparr>heads := h'\<rparr>) \<and>
    built h' l (Some e) (ds @ [e]) \<and> same_cells (set ds) h h'"
proof (cases "ds = []")
  case True
  with assms show ?thesis
    by (intro exI[of _ "Some e"] exI[of _ h]) (auto simp: built_def add_to_tail_def)
next
  case False
  with assms(1) obtain e0 where t: "mtail v = Some (last ds)" and ch: "chain h (mlist v) ds e0"
    by (auto simp: built_def)
  obtain h' where h': "set_next (s\<lparr>heads := h\<rparr>) (Some (last ds)) (Some e) = Some (s\<lparr>heads := h'\<rparr>)"
    "chain h' (mlist v) ds (Some e)" "same_cells (set ds) h h'"
    using set_last_next[OF ch False, of s "Some e"] assms(2) by auto
  have "h' e = Some c" using h'(3) assms(2,3) by (simp add: same_cells_def)
  with h'(2) have "chain h' (mlist v) (ds @ [e]) (lnext c)" by auto
  with h' t show ?thesis
    by (intro exI[of _ "mlist v"] exI[of _ h']) (auto simp: add_to_tail_def built_def simp del: chain_append)
qed

lemma merge_inv_take_p:
  assumes "merge_inv h v ds (x # ps) qs rest"
  shows "\<exists>n v' h'. get_next (s\<lparr>heads := h\<rparr>) (mp v) = Some n \<and>
    add_to_tail (mp v) (v\<lparr>mp := n, mpsize := mpsize v - 1\<rparr>) (s\<lparr>heads := h\<rparr>)
      = Some (v', s\<lparr>heads := h'\<rparr>) \<and>
    merge_inv h' v' (ds @ [x]) ps qs rest \<and> same_cells (set ds) h h'"
proof -
  from assms obtain c e where c: "mp v = Some x" "h x = Some c" "chain h (lnext c) ps e"
    by (auto simp: merge_inv_def)
  let ?v = "v\<lparr>mp := lnext c, mpsize := mpsize v - 1\<rparr>"
  obtain l h' where h': "add_to_tail (Some x) ?v (s\<lparr>heads := h\<rparr>)
      = Some (?v\<lparr>mlist := l, mtail := Some x\<rparr>, s\<lparr>heads := h'\<rparr>)"
    "built h' l (Some x) (ds @ [x])" "same_cells (set ds) h h'"
    using add_to_tail_built[of h ?v ds x c s] assms c(2) by (auto simp: merge_inv_def)
  have "chain h' (lnext c) ps e" "chain h' (mq v) (qs @ rest) None"
    using assms c by (auto intro!: same_cells_chain[OF h'(3)] simp: merge_inv_def simp del: chain_append)
  with h' c assms show ?thesis by (auto simp: merge_inv_def simp del: chain_append)
qed

lemma merge_inv_take_q:
  assumes "merge_inv h v ds ps (y # qs) rest"
  shows "\<exists>n v' h'. get_next (s\<lparr>heads := h\<rparr>) (mq v) = Some n \<and>
    add_to_tail (mq v) (v\<lparr>mq := n, mqsize := mqsize v - 1\<rparr>) (s\<lparr>heads := h\<rparr>)
      = Some (v', s\<lparr>heads := h'\<rparr>) \<and>
    merge_inv h' v' (ds @ [y]) ps qs rest \<and> same_cells (set ds) h h'"
proof -
  from assms obtain c e where c: "mq v = Some y" "h y = Some c" "chain h (lnext c) (qs @ rest) None"
    "chain h (mp v) ps e"
    by (auto simp: merge_inv_def simp del: chain_append)
  let ?v = "v\<lparr>mq := lnext c, mqsize := mqsize v - 1\<rparr>"
  obtain l h' where h': "add_to_tail (Some y) ?v (s\<lparr>heads := h\<rparr>)
      = Some (?v\<lparr>mlist := l, mtail := Some y\<rparr>, s\<lparr>heads := h'\<rparr>)"
    "built h' l (Some y) (ds @ [y])" "same_cells (set ds) h h'"
    using add_to_tail_built[of h ?v ds y c s] assms c(2) by (auto simp: merge_inv_def)
  have "chain h' (mp v) ps e" "chain h' (lnext c) (qs @ rest) None"
    using assms c by (auto intro!: same_cells_chain[OF h'(3)] simp: merge_inv_def simp del: chain_append)
  moreover have "qs = take (mqsize v - 1) (qs @ rest)"
    using assms by (cases "mqsize v") (auto simp: merge_inv_def)
  ultimately show ?thesis using h' c assms by (auto simp: merge_inv_def simp del: chain_append)
qed

section \<open>The comparison interface\<close>

text \<open>
  What the sort needs of a comparison: it neither reads nor writes list cells. Its result and its
  effect on the rest of the state are the same whatever the cells hold.
\<close>

locale list_cmp =
  fixes cmp :: "nat \<Rightarrow> nat \<Rightarrow> 'a store_scheme \<Rightarrow> (ee_s32 \<times> 'a store_scheme) option"
  assumes cells_irrelevant:
    "cmp a b (s\<lparr>heads := h\<rparr>) = map_option (\<lambda>(c, t). (c, t\<lparr>heads := h\<rparr>)) (cmp a b s)"
begin

lemma from_p_sim:
  assumes "merge_inv h v ds ps qs rest" "info_at h dof (set ps \<union> set qs)"
    and "merge_runs cmp dof ps qs s = Some (zs, t)" "ps \<noteq> [] \<or> qs \<noteq> []"
  shows "\<exists>b s1. from_p cmp v (s\<lparr>heads := h\<rparr>) = Some (b, s1\<lparr>heads := h\<rparr>) \<and>
    (if b then \<exists>x ps' zs'. ps = x # ps' \<and> zs = x # zs' \<and> merge_runs cmp dof ps' qs s1 = Some (zs', t)
     else \<exists>y qs' zs'. qs = y # qs' \<and> zs = y # zs' \<and> merge_runs cmp dof ps qs' s1 = Some (zs', t))"
proof -
  consider (q) y qs' where "ps = []" "qs = y # qs'" | (p) x ps' where "ps = x # ps'" "qs = []"
    | (both) x ps' y qs' where "ps = x # ps'" "qs = y # qs'"
    using assms(4) by (cases ps; cases qs) auto
  then show ?thesis
  proof cases
    case q
    have "mpsize v = 0" using assms(1) q(1) by (simp add: merge_inv_def)
    moreover have "\<exists>zs'. zs = y # zs' \<and> merge_runs cmp dof ps qs' s = Some (zs', t)"
      using assms(3) q by (auto simp: opt_simps)
    ultimately show ?thesis using q(2)
      by (intro exI[of _ False] exI[of _ s]) (simp add: from_p_def)
  next
    case p
    then have "mqsize v = 0 \<or> mq v = None"
      using assms(1) by (cases rest) (auto simp: merge_inv_def)
    moreover have "mpsize v \<noteq> 0" using assms(1) p(1) by (simp add: merge_inv_def)
    moreover have "\<exists>zs'. zs = x # zs' \<and> merge_runs cmp dof ps' qs s = Some (zs', t)"
      using assms(3) p by (auto simp: opt_simps)
    ultimately show ?thesis using p(1)
      by (intro exI[of _ True] exI[of _ s]) (simp add: from_p_def)
  next
    case both
    from assms(3) both obtain c s1 where c: "cmp (dof x) (dof y) s = Some (c, s1)"
      by (auto simp: opt_simps)
    then have ch: "cmp (dof x) (dof y) (s\<lparr>heads := h\<rparr>) = Some (c, s1\<lparr>heads := h\<rparr>)"
      by (simp add: cells_irrelevant)
    have "mqsize v \<noteq> 0" "mq v = Some y" "mp v = Some x" "mpsize v \<noteq> 0"
      using assms(1) both by (auto simp: merge_inv_def)
    then have "from_p cmp v (s\<lparr>heads := h\<rparr>) = Some (c \<le>s 0, s1\<lparr>heads := h\<rparr>)"
      using ch assms(2) both by (auto simp: from_p_def info_at_def opt_simps)
    then show ?thesis
      using assms(3) both c by (auto simp: opt_simps split: if_splits)
  qed
qed

lemma merge_step_sim:
  assumes "merge_inv h v ds ps qs rest" "info_at h dof (set ps \<union> set qs)"
    and "merge_runs cmp dof ps qs s = Some (zs, t)" "ps \<noteq> [] \<or> qs \<noteq> []"
  shows "\<exists>v' s1 h' e ps' qs' zs'. merge_step cmp v (s\<lparr>heads := h\<rparr>) = Some (v', s1\<lparr>heads := h'\<rparr>) \<and>
    merge_inv h' v' (ds @ [e]) ps' qs' rest \<and> same_cells (set ds) h h' \<and> zs = e # zs' \<and>
    merge_runs cmp dof ps' qs' s1 = Some (zs', t) \<and> length ps' + length qs' < length ps + length qs \<and>
    set ps' \<union> set qs' \<subseteq> set ps \<union> set qs"
proof -
  obtain b s1 where b: "from_p cmp v (s\<lparr>heads := h\<rparr>) = Some (b, s1\<lparr>heads := h\<rparr>)"
    "if b then \<exists>x ps' zs'. ps = x # ps' \<and> zs = x # zs' \<and> merge_runs cmp dof ps' qs s1 = Some (zs', t)
     else \<exists>y qs' zs'. qs = y # qs' \<and> zs = y # zs' \<and> merge_runs cmp dof ps qs' s1 = Some (zs', t)"
    using from_p_sim[OF assms] by blast
  show ?thesis
  proof (cases b)
    case True
    with b(2) obtain x ps' zs' where x: "ps = x # ps'" "zs = x # zs'"
      "merge_runs cmp dof ps' qs s1 = Some (zs', t)" by auto
    obtain n v' h' where "get_next (s1\<lparr>heads := h\<rparr>) (mp v) = Some n"
      "add_to_tail (mp v) (v\<lparr>mp := n, mpsize := mpsize v - 1\<rparr>) (s1\<lparr>heads := h\<rparr>) = Some (v', s1\<lparr>heads := h'\<rparr>)"
      "merge_inv h' v' (ds @ [x]) ps' qs rest" "same_cells (set ds) h h'"
      using merge_inv_take_p[of h v ds x ps' qs rest s1] assms(1) x(1) by blast
    with b(1) True x show ?thesis
      by (intro exI[of _ v'] exI[of _ s1] exI[of _ h'] exI[of _ x] exI[of _ ps'] exI[of _ qs] exI[of _ zs'])
         (auto simp: merge_step_def)
  next
    case False
    with b(2) obtain y qs' zs' where y: "qs = y # qs'" "zs = y # zs'"
      "merge_runs cmp dof ps qs' s1 = Some (zs', t)" by auto
    obtain n v' h' where "get_next (s1\<lparr>heads := h\<rparr>) (mq v) = Some n"
      "add_to_tail (mq v) (v\<lparr>mq := n, mqsize := mqsize v - 1\<rparr>) (s1\<lparr>heads := h\<rparr>) = Some (v', s1\<lparr>heads := h'\<rparr>)"
      "merge_inv h' v' (ds @ [y]) ps qs' rest" "same_cells (set ds) h h'"
      using merge_inv_take_q[of h v ds ps y qs' rest s1] assms(1) y(1) by blast
    with b(1) False y show ?thesis
      by (intro exI[of _ v'] exI[of _ s1] exI[of _ h'] exI[of _ y] exI[of _ ps] exI[of _ qs'] exI[of _ zs'])
         (auto simp: merge_step_def)
  qed
qed

lemma merge_loop_sim:
  assumes "merge_inv h v ds ps qs rest" "info_at h dof (set ps \<union> set qs)"
    and "merge_runs cmp dof ps qs s = Some (zs, t)"
  shows "\<exists>v' h'. merge_loop cmp v (s\<lparr>heads := h\<rparr>) = Some (v', t\<lparr>heads := h'\<rparr>) \<and>
    merge_inv h' v' (ds @ zs) [] [] rest \<and> same_cells (set (ds @ zs)) h h'"
  using assms
proof (induction "length ps + length qs" arbitrary: h v ds ps qs s zs rule: less_induct)
  case less
  show ?case
  proof (cases "ps = [] \<and> qs = []")
    case True
    then have "\<not> (mpsize v > 0 \<or> (mqsize v > 0 \<and> mq v \<noteq> None))"
      using less.prems(1) by (cases rest) (auto simp: merge_inv_def)
    with True less.prems show ?thesis
      by (subst merge_loop.simps) (auto intro!: exI[of _ h])
  next
    case False
    then have cond: "mpsize v > 0 \<or> (mqsize v > 0 \<and> mq v \<noteq> None)"
      using less.prems(1) by (cases ps; cases qs) (auto simp: merge_inv_def)
    obtain v1 s1 h1 e ps1 qs1 zs1 where st:
      "merge_step cmp v (s\<lparr>heads := h\<rparr>) = Some (v1, s1\<lparr>heads := h1\<rparr>)"
      "merge_inv h1 v1 (ds @ [e]) ps1 qs1 rest" "same_cells (set ds) h h1" "zs = e # zs1"
      "merge_runs cmp dof ps1 qs1 s1 = Some (zs1, t)"
      "length ps1 + length qs1 < length ps + length qs" "set ps1 \<union> set qs1 \<subseteq> set ps \<union> set qs"
      using merge_step_sim[OF less.prems] False by blast
    have "info_at h1 dof (set ps1 \<union> set qs1)"
      using info_at_mono[OF info_at_same_cells[OF st(3) less.prems(2)] st(7)] .
    from less.hyps[OF st(6,2) this st(5)] obtain v' h' where
      IH: "merge_loop cmp v1 (s1\<lparr>heads := h1\<rparr>) = Some (v', t\<lparr>heads := h'\<rparr>)"
      "merge_inv h' v' ((ds @ [e]) @ zs1) [] [] rest" "same_cells (set ((ds @ [e]) @ zs1)) h1 h'" by blast
    have "same_cells (set (ds @ zs)) h h'"
      using same_cells_trans[OF st(3) IH(3)] st(4) by (simp add: Un_assoc [symmetric])
    with IH st cond show ?thesis
      by (subst merge_loop.simps) (auto intro!: exI[of _ h'])
  qed
qed

end

lemma advance_chain:
  assumes "chain (heads s) p xs None" "xs \<noteq> []" "0 < k"
  shows "\<exists>q. advance k s p m = Some (q, m + length (take k xs)) \<and>
    chain (heads s) p (take k xs) q \<and> chain (heads s) q (drop k xs) None"
  using assms
proof (induction k arbitrary: p xs m)
  case (Suc k)
  then obtain x xs' c where x: "xs = x # xs'" "p = Some x" "heads s x = Some c"
    "chain (heads s) (lnext c) xs' None" by (cases xs) auto
  show ?case
  proof (cases "xs' = []")
    case True
    with x show ?thesis by simp
  next
    case False
    then have n: "lnext c \<noteq> None" using chain_head[OF x(4)] by simp
    show ?thesis
    proof (cases "k = 0")
      case True
      with x n show ?thesis by simp
    next
      case False
      then obtain q where "advance k s (lnext c) (Suc m) = Some (q, Suc m + length (take k xs'))"
        "chain (heads s) (lnext c) (take k xs') q" "chain (heads s) q (drop k xs') None"
        using Suc.IH[OF x(4) \<open>xs' \<noteq> []\<close>, of "Suc m"] by blast
      with x n show ?thesis by auto
    qed
  qed
qed simp

context list_cmp
begin

lemma pass_loop_sim:
  assumes "pass_runs cmp dof k xs s = Some (ys, n, t)" "0 < k"
    and "built h l tp ds" "chain h p xs None" "distinct (ds @ xs)" "info_at h dof (set xs)"
  shows "\<exists>l' tp' h'. pass_loop cmp k p l tp nm (s\<lparr>heads := h\<rparr>) = Some (l', tp', nm + n, t\<lparr>heads := h'\<rparr>) \<and>
    built h' l' tp' (ds @ ys) \<and> same_cells (set (ds @ xs)) h h'"
  using assms
proof (induction "length xs" arbitrary: xs s ys n h l tp ds p nm rule: less_induct)
  case less
  show ?case
  proof (cases "xs = []")
    case True
    with less.prems show ?thesis
      by (subst pass_loop.simps) (auto simp: pass_runs.simps intro!: exI[of _ h])
  next
    case False
    then obtain zs s1 ws m where
      m: "merge_runs cmp dof (take k xs) (take k (drop k xs)) s = Some (zs, s1)"
      and pr: "pass_runs cmp dof k (drop (2 * k) xs) s1 = Some (ws, m, t)"
      and ys: "ys = zs @ ws" "n = Suc m"
      using less.prems(1,2) by (subst (asm) pass_runs.simps) (auto simp: opt_simps)
    let ?rest = "drop (2 * k) xs"
    have split: "take k (drop k xs) @ ?rest = drop k xs" "take k xs @ take k (drop k xs) @ ?rest = xs"
      by (metis append_take_drop_id drop_drop mult_2)+
    obtain q where q: "advance k (s\<lparr>heads := h\<rparr>) p 0 = Some (q, length (take k xs))"
      "chain h p (take k xs) q" "chain h q (drop k xs) None"
      using advance_chain[of "s\<lparr>heads := h\<rparr>" p xs k 0] less.prems(2,4) False by auto
    let ?v = "\<lparr>mp = p, mpsize = length (take k xs), mq = q, mqsize = k, mlist = l, mtail = tp\<rparr>"
    have inv: "merge_inv h ?v ds (take k xs) (take k (drop k xs)) ?rest"
      using less.prems(3,5) q split by (auto simp: merge_inv_def simp del: chain_append)
    have inf: "info_at h dof (set (take k xs) \<union> set (take k (drop k xs)))"
      by (rule info_at_mono[OF less.prems(6)]) (auto dest: in_set_takeD in_set_dropD)
    obtain v h1 where v: "merge_loop cmp ?v (s\<lparr>heads := h\<rparr>) = Some (v, s1\<lparr>heads := h1\<rparr>)"
      "merge_inv h1 v (ds @ zs) [] [] ?rest" "same_cells (set (ds @ zs)) h h1"
      using merge_loop_sim[OF inv inf m] by blast
    have zs: "set zs = set (take k xs) \<union> set (take k (drop k xs))" by (rule merge_runs_set[OF m])
    have "length ?rest < length xs" using False less.prems(2) by simp
    moreover have "info_at h1 dof (set ?rest)"
      by (rule info_at_mono[OF info_at_same_cells[OF v(3) less.prems(6)]]) (auto dest: in_set_dropD)
    ultimately obtain l' tp' h' where IH:
      "pass_loop cmp k (mq v) (mlist v) (mtail v) (Suc nm) (s1\<lparr>heads := h1\<rparr>)
        = Some (l', tp', Suc nm + m, t\<lparr>heads := h'\<rparr>)"
      "built h' l' tp' ((ds @ zs) @ ws)" "same_cells (set ((ds @ zs) @ ?rest)) h1 h'"
      using less.hyps[OF _ pr less.prems(2), of h1 "mlist v" "mtail v" "ds @ zs" "mq v" "Suc nm"] v(2)
      unfolding merge_inv_def by auto
    have "p \<noteq> None" using chain_head[OF less.prems(4) False] by simp
    then have "pass_loop cmp k p l tp nm (s\<lparr>heads := h\<rparr>) = Some (l', tp', nm + n, t\<lparr>heads := h'\<rparr>)"
      using q(1) v(1) IH(1) ys(2) by (subst pass_loop.simps) simp
    moreover have "set zs \<union> set ?rest = set xs"
      using zs arg_cong[OF split(2), of set] by auto
    then have "same_cells (set (ds @ xs)) h h'"
      by (intro same_cells_mono[OF same_cells_trans[OF v(3) IH(3)]]) auto
    ultimately show ?thesis using IH(2) ys(1) by auto
  qed
qed

theorem sort_loop_sim:
  assumes "sort_runs cmp dof k xs s = Some (ys, t)" "xs \<noteq> []" "chain h p xs None" "info_at h dof (set xs)"
  shows "\<exists>r h'. sort_loop cmp k p (s\<lparr>heads := h\<rparr>) = Some (r, t\<lparr>heads := h'\<rparr>) \<and>
    chain h' r ys None \<and> same_cells (set xs) h h'"
  using assms
proof (induction "length xs - k" arbitrary: k xs s h p rule: less_induct)
  case less
  from less.prems(1) obtain zs n s1 where k: "0 < k" and pr: "pass_runs cmp dof k xs s = Some (zs, n, s1)"
    by (subst (asm) sort_runs.simps) (auto split: if_splits option.splits)
  have mz: "mset zs = mset xs" by (rule pass_runs_mset[OF k pr])
  then have zs: "zs \<noteq> []" "set zs = set xs" "distinct zs"
    using less.prems(2) mset_eq_setD[OF mz] mset_eq_imp_distinct_iff[OF mz]
      chain_distinct[OF less.prems(3)] by auto
  obtain l tp h1 where pl: "pass_loop cmp k p None None 0 (s\<lparr>heads := h\<rparr>) = Some (l, tp, n, s1\<lparr>heads := h1\<rparr>)"
    "built h1 l tp zs" "same_cells (set xs) h h1"
    using pass_loop_sim[OF pr k, of h None None "[]" p 0] less.prems chain_distinct[OF less.prems(3)]
    by (auto simp: built_def)
  then obtain e where "tp = Some (last zs)" "chain h1 l zs e" using zs by (auto simp: built_def)
  then obtain h2 where h2: "set_next (s1\<lparr>heads := h1\<rparr>) tp None = Some (s1\<lparr>heads := h2\<rparr>)"
    "chain h2 l zs None" "same_cells (set xs) h1 h2"
    using set_last_next[of h1 l zs e s1 None] zs by auto
  have sc: "same_cells (set xs) h h2" using same_cells_trans[OF pl(3) h2(3)] by simp
  show ?case
  proof (cases "n \<le> 1")
    case True
    with less.prems(1) k pr have "ys = zs" "t = s1"
      by (auto simp: sort_runs.simps [of cmp dof k xs])
    with True pl(1) h2 sc show ?thesis
      by (subst sort_loop.simps) (auto intro!: exI[of _ h2])
  next
    case False
    have big: "k * 2 < 2 ^ 31" and rec: "sort_runs cmp dof (k * 2) zs s1 = Some (ys, t)"
      using less.prems(1) k pr False by (auto simp: sort_runs.simps [of cmp dof k xs] split: if_splits)
    have "length zs - k * 2 < length xs - k" by (rule pass_runs_progress(3)[OF k pr False])
    moreover have "info_at h2 dof (set zs)"
      using info_at_same_cells[OF sc less.prems(4)] zs(2) by simp
    ultimately obtain r h' where "sort_loop cmp (k * 2) l (s1\<lparr>heads := h2\<rparr>) = Some (r, t\<lparr>heads := h'\<rparr>)"
      "chain h' r ys None" "same_cells (set zs) h2 h'"
      using less.hyps[OF _ rec zs(1) h2(2)] by blast
    with False pl(1) h2(1) sc zs(2) big show ?thesis
      by (subst sort_loop.simps)
         (auto intro!: exI[of _ h'] dest: same_cells_trans[OF sc])
  qed
qed

end

end
