(* ===== verification/List_Order.thy ===== *)
theory List_Order
  imports List_Sort
begin

text \<open>
  What \<open>core_list_mergesort\<close> promises for the comparison it is given. For every comparison that
  returns (locale \<open>list_cmp_total\<close>) the list-level sort returns a permutation, and so does the heap
  code; for every comparison that compares keys (locale \<open>list_cmp_key\<close>) it is the stable sort by
  those keys. Both locales are interpreted on \<open>cmp_idx\<close>, the comparison the benchmark uses to undo
  its sort.
\<close>

section \<open>Every comparison that returns: the sort returns a permutation\<close>

text \<open>
  A comparison that is defined on the data addresses \<open>A\<close> in every state that is \<open>ok\<close>, and leaves
  the state \<open>ok\<close>; being \<open>ok\<close> is not about list cells.
\<close>

locale list_cmp_total = list_cmp cmp
  for cmp :: "nat \<Rightarrow> nat \<Rightarrow> 'a store_scheme \<Rightarrow> (ee_s32 \<times> 'a store_scheme) option" +
  fixes ok :: "nat set \<Rightarrow> 'a store_scheme \<Rightarrow> bool"
  assumes cmp_total: "ok A s \<Longrightarrow> a \<in> A \<Longrightarrow> b \<in> A \<Longrightarrow> \<exists>c t. cmp a b s = Some (c, t) \<and> ok A t"
    and ok_cells: "ok A (s\<lparr>heads := h\<rparr>) = ok A s"
begin

lemma merge_runs_total:
  assumes "ok A s" "dof ` set xs \<subseteq> A" "dof ` set ys \<subseteq> A"
  shows "\<exists>zs t. merge_runs cmp dof xs ys s = Some (zs, t) \<and> ok A t"
  using assms
proof (induction "length xs + length ys" arbitrary: xs ys s rule: less_induct)
  case less
  show ?case
  proof (cases xs)
    case Nil
    show ?thesis
    proof (cases ys)
      case (Cons y ys')
      obtain zs t where "merge_runs cmp dof [] ys' s = Some (zs, t)" "ok A t"
        using less.hyps[of "[]" ys' s] less.prems Nil Cons by auto
      then show ?thesis using Nil Cons by simp
    qed (use Nil less.prems in simp)
  next
    case xs: (Cons x xs')
    show ?thesis
    proof (cases ys)
      case Nil
      obtain zs t where "merge_runs cmp dof xs' [] s = Some (zs, t)" "ok A t"
        using less.hyps[of xs' "[]" s] less.prems Nil xs by auto
      then show ?thesis using Nil xs by simp
    next
      case ys: (Cons y ys')
      obtain c s1 where c: "cmp (dof x) (dof y) s = Some (c, s1)" "ok A s1"
        using cmp_total[OF less.prems(1), of "dof x" "dof y"] less.prems(2,3) xs ys by auto
      obtain us t us' t' where "merge_runs cmp dof xs' (y # ys') s1 = Some (us, t)" "ok A t"
        "merge_runs cmp dof (x # xs') ys' s1 = Some (us', t')" "ok A t'"
        using less.hyps[of xs' "y # ys'" s1] less.hyps[of "x # xs'" ys' s1] less.prems(2,3) c xs ys
        by auto
      then show ?thesis using c xs ys by (auto simp: opt_simps)
    qed
  qed
qed

lemma pass_runs_total:
  assumes "ok A s" "dof ` set xs \<subseteq> A" "0 < k"
  shows "\<exists>ys n t. pass_runs cmp dof k xs s = Some (ys, n, t) \<and> ok A t"
  using assms
proof (induction "length xs" arbitrary: xs s rule: less_induct)
  case less
  show ?case
  proof (cases "xs = []")
    case True
    with less.prems show ?thesis by (simp add: pass_runs.simps)
  next
    case False
    have sub: "dof ` set (take k xs) \<subseteq> A" "dof ` set (take k (drop k xs)) \<subseteq> A"
      "dof ` set (drop (2 * k) xs) \<subseteq> A"
      using less.prems(2) by (auto dest!: in_set_takeD in_set_dropD)
    obtain zs s1 where m: "merge_runs cmp dof (take k xs) (take k (drop k xs)) s = Some (zs, s1)" "ok A s1"
      using merge_runs_total[OF less.prems(1) sub(1,2)] by blast
    obtain ws n t where "pass_runs cmp dof k (drop (2 * k) xs) s1 = Some (ws, n, t)" "ok A t"
      using less.hyps[OF _ m(2) sub(3) less.prems(3)] False less.prems(3) by auto
    with m False less.prems(3) show ?thesis by (subst pass_runs.simps) auto
  qed
qed

lemma sort_runs_total:
  assumes "ok A s" "dof ` set xs \<subseteq> A" "0 < k" "length xs \<le> 2 ^ 30"
  shows "\<exists>ys t. sort_runs cmp dof k xs s = Some (ys, t) \<and> ok A t"
  using assms
proof (induction "length xs - k" arbitrary: k xs s rule: less_induct)
  case less
  obtain zs n s1 where p: "pass_runs cmp dof k xs s = Some (zs, n, s1)" "ok A s1"
    using pass_runs_total[OF less.prems(1-3)] by blast
  show ?case
  proof (cases "n \<le> 1")
    case True
    with p less.prems(3) show ?thesis by (simp add: sort_runs.simps)
  next
    case False
    note cnt = pass_runs_progress[OF less.prems(3) p(1) False]
    then have k: "k < length xs" by simp
    have "set zs = set xs" using mset_eq_setD[OF pass_runs_mset[OF less.prems(3) p(1)]] .
    then have "dof ` set zs \<subseteq> A" using less.prems(2) by simp
    moreover have "length zs - k * 2 < length xs - k" "0 < k * 2" "length zs \<le> 2 ^ 30"
      using k cnt(1) less.prems(3,4) by auto
    ultimately obtain ys t where "sort_runs cmp dof (k * 2) zs s1 = Some (ys, t)" "ok A t"
      using less.hyps[of zs "k * 2" s1] p(2) by blast
    with False p less.prems(3,4) k show ?thesis
      by (subst sort_runs.simps) auto
  qed
qed

theorem mergesort_permutes:
  assumes "chain (heads s) p xs None" "xs \<noteq> []" "info_at (heads s) dof (set xs)"
    and "ok A s" "dof ` set xs \<subseteq> A" "length xs \<le> 2 ^ 30"
  shows "\<exists>ys t r h. sort_runs cmp dof 1 xs s = Some (ys, t) \<and>
    core_list_mergesort p cmp s = Some (r, t\<lparr>heads := h\<rparr>) \<and> chain h r ys None \<and>
    mset ys = mset xs \<and> same_cells (set xs) (heads s) h \<and> ok A (t\<lparr>heads := h\<rparr>)"
proof -
  obtain ys t where r: "sort_runs cmp dof 1 xs s = Some (ys, t)" "ok A t"
    using sort_runs_total[OF assms(4,5) _ assms(6), of 1] by auto
  with sort_loop_sim[OF r(1) assms(2,1,3)] sort_runs_mset[OF r(1)] show ?thesis
    by (auto simp: core_list_mergesort_def ok_cells)
qed

end

section \<open>Comparison by a key: the stable sort\<close>

lemma insort_key_cong_set: "\<forall>y\<in>insert x (set xs). f y = g y \<Longrightarrow> insort_key f x xs = insort_key g x xs"
  by (induction xs) auto

lemma sort_key_cong_set: "(\<And>x. x \<in> set xs \<Longrightarrow> f x = g x) \<Longrightarrow> sort_key f xs = sort_key g xs"
proof (induction xs)
  case (Cons x xs)
  then have "sort_key f xs = sort_key g xs" by simp
  then show ?case using insort_key_cong_set[of x "sort_key g xs" f g] Cons.prems by simp
qed simp

lemma map_insort_key: "map f (insort_key (\<lambda>x. g (f x)) x xs) = insort_key g (f x) (map f xs)"
  by (induction xs) simp_all

lemma map_sort_key: "map f (sort_key (\<lambda>x. g (f x)) xs) = sort_key g (map f xs)"
  by (induction xs) (simp_all add: map_insort_key)

fun merge_by :: "('b \<Rightarrow> int) \<Rightarrow> 'b list \<Rightarrow> 'b list \<Rightarrow> 'b list" where
  "merge_by f [] ys = ys"
| "merge_by f (x # xs) [] = x # xs"
| "merge_by f (x # xs) (y # ys) =
     (if f x \<le> f y then x # merge_by f xs (y # ys) else y # merge_by f (x # xs) ys)"

lemma merge_by_Nil [simp]: "merge_by f xs [] = xs"
  by (cases xs) auto

lemma mset_merge_by: "mset (merge_by f xs ys) = mset xs + mset ys"
  by (induction f xs ys rule: merge_by.induct) auto

lemma set_merge_by: "set (merge_by f xs ys) = set xs \<union> set ys"
  using mset_merge_by[of f xs ys] by (metis set_mset_mset set_mset_union)

lemma sorted_merge_by:
  "sorted (map f xs) \<Longrightarrow> sorted (map f ys) \<Longrightarrow> sorted (map f (merge_by f xs ys))"
  by (induction f xs ys rule: merge_by.induct) (auto simp: set_merge_by)

lemma filter_merge_by:
  "sorted (map f xs) \<Longrightarrow> sorted (map f ys) \<Longrightarrow>
   filter (\<lambda>x. f k = f x) (merge_by f xs ys) = filter (\<lambda>x. f k = f x) xs @ filter (\<lambda>x. f k = f x) ys"
proof (induction f xs ys rule: merge_by.induct)
  case (3 f x xs y ys)
  show ?case
  proof (cases "f x \<le> f y")
    case True
    with "3.IH"(1) "3.prems" show ?thesis
      by (cases "f k = f x"; cases "f k = f y") simp_all
  next
    case False
    have "f k \<noteq> f z" if "f k = f y" "z \<in> set (x # xs)" for z
      using that False "3.prems"(1) by auto
    then have "filter (\<lambda>z. f k = f z) (x # xs) = []" if "f k = f y"
      using that by (simp add: filter_empty_conv)
    with False "3.IH"(2) "3.prems" show ?thesis by (cases "f k = f y") auto
  qed
qed simp_all

lemma merge_by_sort_key: "merge_by f (sort_key f xs) (sort_key f ys) = sort_key f (xs @ ys)"
proof (rule properties_for_sort_key[symmetric])
  show "mset (merge_by f (sort_key f xs) (sort_key f ys)) = mset (xs @ ys)"
    by (simp add: mset_merge_by)
  show "sorted (map f (merge_by f (sort_key f xs) (sort_key f ys)))"
    by (simp add: sorted_merge_by)
  fix k
  have "filter (\<lambda>x. f k = f x) (sort_key f zs) = filter (\<lambda>x. f k = f x) zs" for zs
    using sort_key_stable[of f "f k" zs] by (simp add: eq_commute)
  then show "filter (\<lambda>x. f k = f x) (merge_by f (sort_key f xs) (sort_key f ys)) =
      filter (\<lambda>x. f k = f x) (xs @ ys)"
    by (simp add: filter_merge_by)
qed

text \<open>Every block of \<open>k\<close> elements is sorted.\<close>

function sort_blocks :: "('b \<Rightarrow> int) \<Rightarrow> nat \<Rightarrow> 'b list \<Rightarrow> 'b list" where
  "sort_blocks f k xs =
     (if xs = [] \<or> k = 0 then [] else sort_key f (take k xs) @ sort_blocks f k (drop k xs))"
  by pat_completeness auto
termination
  by (relation "measure (\<lambda>(f, k, xs). length xs)") auto

declare sort_blocks.simps [simp del]

lemma take_sort_blocks: "0 < k \<Longrightarrow> take k (sort_blocks f k xs) = sort_key f (take k xs)"
  by (subst sort_blocks.simps) (auto simp: sort_blocks.simps)

lemma drop_sort_blocks: "0 < k \<Longrightarrow> drop k (sort_blocks f k xs) = sort_blocks f k (drop k xs)"
  by (subst sort_blocks.simps) (auto simp: sort_blocks.simps)

lemma sort_blocks_short: "0 < k \<Longrightarrow> length xs \<le> k \<Longrightarrow> sort_blocks f k xs = sort_key f xs"
  by (subst sort_blocks.simps) (auto simp: sort_blocks.simps)

lemma sort_blocks_1: "sort_blocks f (Suc 0) xs = xs"
  by (induction xs) (auto simp: sort_blocks.simps take_Suc)

lemma mset_sort_blocks: "0 < k \<Longrightarrow> mset (sort_blocks f k xs) = mset xs"
proof (induction f k xs rule: sort_blocks.induct)
  case (1 f k xs)
  have "mset (take k xs) + mset (drop k xs) = mset xs"
    by (metis append_take_drop_id mset_append)
  with 1 show ?case by (subst sort_blocks.simps) auto
qed

lemma sort_blocks_eq_Nil: "0 < k \<Longrightarrow> sort_blocks f k xs = [] \<longleftrightarrow> xs = []"
  by (metis mset_sort_blocks mset_zero_iff)

text \<open>Every block of \<open>k\<close> elements satisfies \<open>P\<close>.\<close>

function all_blocks :: "('b list \<Rightarrow> bool) \<Rightarrow> nat \<Rightarrow> 'b list \<Rightarrow> bool" where
  "all_blocks P k xs = (if xs = [] \<or> k = 0 then True else P (take k xs) \<and> all_blocks P k (drop k xs))"
  by pat_completeness auto
termination
  by (relation "measure (\<lambda>(P, k, xs). length xs)") auto

declare all_blocks.simps [simp del]

lemma all_blocks_mono:
  "all_blocks P k xs \<Longrightarrow> (\<And>ys. set ys \<subseteq> set xs \<Longrightarrow> P ys \<Longrightarrow> Q ys) \<Longrightarrow> all_blocks Q k xs"
proof (induction P k xs rule: all_blocks.induct)
  case (1 P k xs)
  show ?case
  proof (cases "xs = [] \<or> k = 0")
    case True
    then show ?thesis by (subst all_blocks.simps) simp
  next
    case False
    with "1.prems"(1) have P: "P (take k xs)" "all_blocks P k (drop k xs)"
      by (auto simp: all_blocks.simps[of P k xs])
    have "all_blocks Q k (drop k xs)"
      using "1.IH"[OF False P(2)] "1.prems"(2) set_drop_subset[of k xs] by blast
    moreover have "Q (take k xs)" by (rule "1.prems"(2)[OF set_take_subset P(1)])
    ultimately show ?thesis by (subst all_blocks.simps) simp
  qed
qed

lemma all_blocks_1: "(\<And>x. P [x]) \<Longrightarrow> all_blocks P (Suc 0) xs"
  by (induction xs) (auto simp: all_blocks.simps take_Suc)

lemma all_blocks_single: "all_blocks P k xs \<Longrightarrow> xs \<noteq> [] \<Longrightarrow> 0 < k \<Longrightarrow> length xs \<le> k \<Longrightarrow> P xs"
  by (subst (asm) all_blocks.simps) simp

lemma all_blocks_append:
  assumes "P zs" "zs \<noteq> []" "length zs \<le> k" "ws = [] \<or> length zs = k" "all_blocks P k ws"
  shows "all_blocks P k (zs @ ws)"
proof -
  have "0 < k" using assms(2,3) by (cases k) auto
  then show ?thesis using assms by (subst all_blocks.simps) (auto simp: all_blocks.simps[of P k "[]"])
qed

lemma all_blocks_Cons_block:
  assumes "all_blocks P k xs" "xs \<noteq> []" "0 < k"
  shows "P (take k xs)" "take k (drop k xs) = [] \<or> P (take k (drop k xs))" "all_blocks P k (drop (2 * k) xs)"
proof -
  from assms have *: "P (take k xs)" "all_blocks P k (drop k xs)"
    by (auto simp: all_blocks.simps[of P k xs])
  then show "P (take k xs)" by simp
  have d: "drop (2 * k) xs = drop k (drop k xs)" by (simp add: mult_2)
  show "take k (drop k xs) = [] \<or> P (take k (drop k xs))" "all_blocks P k (drop (2 * k) xs)"
    unfolding d using *(2) assms(3)
    by (cases "drop k xs = []"; auto simp: all_blocks.simps[of P k "drop k xs"] all_blocks.simps[of P k "[]"]
        simp del: drop_drop drop_eq_Nil)+
qed

locale list_cmp_key = list_cmp_total cmp ok
  for cmp :: "nat \<Rightarrow> nat \<Rightarrow> 'a store_scheme \<Rightarrow> (ee_s32 \<times> 'a store_scheme) option"
    and ok :: "nat set \<Rightarrow> 'a store_scheme \<Rightarrow> bool" +
  fixes fixd :: "'a store_scheme \<Rightarrow> nat \<Rightarrow> bool"
    and key :: "'a store_scheme \<Rightarrow> nat \<Rightarrow> int"
  assumes cmp_fixes: "ok A s \<Longrightarrow> a \<in> A \<Longrightarrow> b \<in> A \<Longrightarrow> cmp a b s = Some (c, t) \<Longrightarrow> fixd t a \<and> fixd t b"
    and cmp_key: "ok A s \<Longrightarrow> a \<in> A \<Longrightarrow> b \<in> A \<Longrightarrow> cmp a b s = Some (c, t) \<Longrightarrow>
      c \<le>s 0 \<longleftrightarrow> key t a \<le> key t b"
    and cmp_keeps: "ok A s \<Longrightarrow> a \<in> A \<Longrightarrow> b \<in> A \<Longrightarrow> cmp a b s = Some (c, t) \<Longrightarrow>
      x \<in> A \<Longrightarrow> fixd s x \<Longrightarrow> fixd t x \<and> key t x = key s x"
    and key_cells: "fixd (s\<lparr>heads := h\<rparr>) = fixd s" "key (s\<lparr>heads := h\<rparr>) = key s"
begin

text \<open>\<open>f\<close> gives every element of \<open>A\<close> that has its key in state \<open>s\<close> this key.\<close>

definition agrees :: "nat set \<Rightarrow> (nat \<Rightarrow> int) \<Rightarrow> 'a store_scheme \<Rightarrow> bool" where
  "agrees A f s \<longleftrightarrow> (\<forall>x\<in>A. fixd s x \<longrightarrow> f x = key s x)"

lemma cmp_by:
  assumes "cmp a b s = Some (c, t)" "ok A s" "a \<in> A" "b \<in> A" "agrees A f t"
  shows "ok A t \<and> agrees A f s \<and> (c \<le>s 0 \<longleftrightarrow> f a \<le> f b)"
proof -
  have "ok A t" using cmp_total[OF assms(2-4)] assms(1) by auto
  moreover have "agrees A f s"
    using cmp_keeps[OF assms(2-4,1)] assms(5) by (auto simp: agrees_def)
  moreover have "f a = key t a" "f b = key t b"
    using cmp_fixes[OF assms(2-4,1)] assms(3-5) by (auto simp: agrees_def)
  ultimately show ?thesis using cmp_key[OF assms(2-4,1)] by simp
qed

lemma merge_runs_by:
  assumes "merge_runs cmp dof xs ys s = Some (zs, t)" "ok A s"
    "dof ` set xs \<subseteq> A" "dof ` set ys \<subseteq> A" "agrees A f t"
  shows "ok A t \<and> agrees A f s \<and> zs = merge_by (f \<circ> dof) xs ys"
  using assms
proof (induction "length xs + length ys" arbitrary: xs ys s zs rule: less_induct)
  case less
  show ?case
  proof (cases xs)
    case Nil
    show ?thesis
    proof (cases ys)
      case (Cons y ys')
      with Nil less.prems obtain us where "merge_runs cmp dof [] ys' s = Some (us, t)" "zs = y # us"
        by (auto simp: opt_simps)
      then show ?thesis using less.hyps[of "[]" ys' s us] less.prems Nil Cons by auto
    qed (use Nil less.prems in simp)
  next
    case xs: (Cons x xs')
    show ?thesis
    proof (cases ys)
      case Nil
      with xs less.prems obtain us where "merge_runs cmp dof xs' [] s = Some (us, t)" "zs = x # us"
        by (auto simp: opt_simps)
      then show ?thesis using less.hyps[of xs' "[]" s us] less.prems Nil xs by auto
    next
      case ys: (Cons y ys')
      have xy: "dof x \<in> A" "dof y \<in> A" using less.prems(3,4) xs ys by auto
      from less.prems(1) xs ys obtain c s1 where c: "cmp (dof x) (dof y) s = Some (c, s1)"
        by (auto simp: opt_simps)
      have ok: "ok A s1" using cmp_total[OF less.prems(2) xy] c by auto
      note cb = cmp_by[OF c less.prems(2) xy, of f]
      show ?thesis
      proof (cases "c \<le>s 0")
        case True
        with less.prems(1) c xs ys obtain us where
          "merge_runs cmp dof xs' ys s1 = Some (us, t)" "zs = x # us"
          by (auto simp: opt_simps)
        then show ?thesis
          using less.hyps[of xs' ys s1 us] cb ok less.prems(3-5) True xs ys by simp
      next
        case False
        with less.prems(1) c xs ys obtain us where
          "merge_runs cmp dof xs ys' s1 = Some (us, t)" "zs = y # us"
          by (auto simp: opt_simps)
        then show ?thesis
          using less.hyps[of xs ys' s1 us] cb ok less.prems(3-5) False xs ys by simp
      qed
    qed
  qed
qed

lemma pass_runs_by:
  assumes "pass_runs cmp dof k (sort_blocks (f \<circ> dof) k xs) s = Some (ys, n, t)" "0 < k" "ok A s"
    "dof ` set xs \<subseteq> A" "agrees A f t"
  shows "ok A t \<and> agrees A f s \<and> ys = sort_blocks (f \<circ> dof) (2 * k) xs"
  using assms
proof (induction "length xs" arbitrary: xs s ys n rule: less_induct)
  case less
  let ?g = "f \<circ> dof"
  show ?case
  proof (cases "xs = []")
    case True
    with less.prems show ?thesis by (simp add: pass_runs.simps sort_blocks.simps)
  next
    case False
    let ?p = "sort_key ?g (take k xs)" and ?q = "sort_key ?g (take k (drop k xs))"
    have parts: "take k (sort_blocks ?g k xs) = ?p" "take k (drop k (sort_blocks ?g k xs)) = ?q"
      "drop (2 * k) (sort_blocks ?g k xs) = sort_blocks ?g k (drop (2 * k) xs)"
      using less.prems(2) by (simp_all add: take_sort_blocks drop_sort_blocks mult_2 flip: drop_drop)
    from less.prems(1,2) False obtain zs s1 ws m where
      mr: "merge_runs cmp dof ?p ?q s = Some (zs, s1)"
      and pr: "pass_runs cmp dof k (sort_blocks ?g k (drop (2 * k) xs)) s1 = Some (ws, m, t)"
      and ys: "ys = zs @ ws"
      by (subst (asm) pass_runs.simps) (auto simp: opt_simps parts sort_blocks_eq_Nil)
    have sub: "dof ` set ?p \<subseteq> A" "dof ` set ?q \<subseteq> A" "dof ` set (drop (2 * k) xs) \<subseteq> A"
      using less.prems(4) by (auto dest!: in_set_takeD in_set_dropD)
    have ok: "ok A s1" using merge_runs_total[OF less.prems(3) sub(1,2)] mr by auto
    have "length (drop (2 * k) xs) < length xs" using False less.prems(2) by simp
    then have IH: "ok A t \<and> agrees A f s1 \<and> ws = sort_blocks ?g (2 * k) (drop (2 * k) xs)"
      using less.hyps[OF _ pr less.prems(2) ok sub(3) less.prems(5)] by simp
    then have "agrees A f s \<and> zs = merge_by ?g ?p ?q"
      using merge_runs_by[OF mr less.prems(3) sub(1,2)] by simp
    moreover have "take k xs @ take k (drop k xs) = take (2 * k) xs"
      by (metis mult_2 take_add)
    ultimately show ?thesis
      using IH ys False less.prems(2)
      by (subst sort_blocks.simps) (simp add: merge_by_sort_key)
  qed
qed

lemma pass_runs_agrees:
  assumes "pass_runs cmp dof k xs s = Some (ys, n, t)" "0 < k" "ok A s" "dof ` set xs \<subseteq> A" "agrees A f t"
  shows "ok A t \<and> agrees A f s"
  using assms
proof (induction "length xs" arbitrary: xs s ys n rule: less_induct)
  case less
  show ?case
  proof (cases "xs = []")
    case True
    with less.prems show ?thesis by (simp add: pass_runs.simps)
  next
    case False
    with less.prems(1,2) obtain zs s1 ws m where
      mr: "merge_runs cmp dof (take k xs) (take k (drop k xs)) s = Some (zs, s1)"
      and pr: "pass_runs cmp dof k (drop (2 * k) xs) s1 = Some (ws, m, t)"
      by (subst (asm) pass_runs.simps) (auto simp: opt_simps)
    have sub: "dof ` set (take k xs) \<subseteq> A" "dof ` set (take k (drop k xs)) \<subseteq> A"
      "dof ` set (drop (2 * k) xs) \<subseteq> A"
      using less.prems(4) by (auto dest!: in_set_takeD in_set_dropD)
    have ok: "ok A s1" using merge_runs_total[OF less.prems(3) sub(1,2)] mr by auto
    have "length (drop (2 * k) xs) < length xs" using False less.prems(2) by simp
    then show ?thesis
      using less.hyps[OF _ pr less.prems(2) ok sub(3) less.prems(5)]
        merge_runs_by[OF mr less.prems(3) sub(1,2)] by simp
  qed
qed

lemma sort_runs_agrees:
  assumes "sort_runs cmp dof k xs s = Some (ys, t)" "ok A s" "dof ` set xs \<subseteq> A" "agrees A f t"
  shows "ok A t \<and> agrees A f s"
  using assms
proof (induction "length xs - k" arbitrary: k xs s rule: less_induct)
  case less
  from less.prems(1) obtain zs n s1 where k: "0 < k" and pr: "pass_runs cmp dof k xs s = Some (zs, n, s1)"
    by (subst (asm) sort_runs.simps) (auto split: if_splits option.splits)
  have ok: "ok A s1" using pass_runs_total[OF less.prems(2,3) k] pr by auto
  have sub: "dof ` set zs \<subseteq> A" using mset_eq_setD[OF pass_runs_mset[OF k pr]] less.prems(3) by simp
  have "ok A t \<and> agrees A f s1"
  proof (cases "n \<le> 1")
    case True
    with less.prems(1,4) k pr ok show ?thesis by (auto simp: sort_runs.simps[of cmp dof k xs])
  next
    case False
    with less.prems(1) k pr have "sort_runs cmp dof (k * 2) zs s1 = Some (ys, t)"
      by (auto simp: sort_runs.simps[of cmp dof k xs] split: if_splits)
    then show ?thesis
      using less.hyps[OF pass_runs_progress(3)[OF k pr False] _ ok sub less.prems(4)] by simp
  qed
  then show ?case using pass_runs_agrees[OF pr k less.prems(2,3)] by simp
qed

lemma sort_runs_by:
  assumes "sort_runs cmp dof k (sort_blocks (f \<circ> dof) k xs) s = Some (ys, t)" "ok A s"
    "dof ` set xs \<subseteq> A" "agrees A f t"
  shows "ok A t \<and> agrees A f s \<and> ys = sort_key (f \<circ> dof) xs"
  using assms
proof (induction "length xs - k" arbitrary: k s rule: less_induct)
  case less
  let ?g = "f \<circ> dof"
  from less.prems(1) obtain zs n s1 where k: "0 < k"
    and pr: "pass_runs cmp dof k (sort_blocks ?g k xs) s = Some (zs, n, s1)"
    by (subst (asm) sort_runs.simps) (auto split: if_splits option.splits)
  have len: "length (sort_blocks ?g k xs) = length xs" "set (sort_blocks ?g k xs) = set xs"
    using mset_sort_blocks[OF k, of ?g xs] by (auto dest: mset_eq_length mset_eq_setD)
  have ok: "ok A s1"
    using pass_runs_total[OF less.prems(2) _ k, of dof "sort_blocks ?g k xs"] less.prems(3) len pr by auto
  note pass = pass_runs_by[OF pr k less.prems(2,3)]
  note cnt = pass_runs_count[OF k pr, unfolded len]
  show ?case
  proof (cases "n \<le> 1")
    case True
    with less.prems(1) k pr have "ys = zs" "t = s1"
      by (auto simp: sort_runs.simps[of cmp dof k "sort_blocks ?g k xs"])
    moreover have "length xs \<le> 2 * k" using cnt True by (cases n) auto
    ultimately show ?thesis using pass less.prems(4) k by (simp add: sort_blocks_short)
  next
    case False
    with less.prems(1) k pr have rec: "sort_runs cmp dof (k * 2) zs s1 = Some (ys, t)"
      by (auto simp: sort_runs.simps[of cmp dof k "sort_blocks ?g k xs"] split: if_splits)
    have sub: "dof ` set zs \<subseteq> A"
      using mset_eq_setD[OF pass_runs_mset[OF k pr]] less.prems(3) len by simp
    have ag: "agrees A f s1" using sort_runs_agrees[OF rec ok sub less.prems(4)] by simp
    with pass have zs: "zs = sort_blocks ?g (k * 2) xs" by (simp add: mult.commute)
    have "length xs - k * 2 < length xs - k"
      using pass_runs_progress[OF k pr False] len by simp
    then show ?thesis
      using less.hyps[OF _ rec[unfolded zs] ok less.prems(3,4)] pass ag by simp
  qed
qed

text \<open>
  After a sort of two or more elements, every element has been compared: a run of one element is
  compared when it first meets another run.
\<close>

definition compared :: "'a store_scheme \<Rightarrow> (nat \<Rightarrow> nat) \<Rightarrow> nat list \<Rightarrow> bool" where
  "compared s dof ys \<longleftrightarrow> length ys = 1 \<or> (\<forall>y\<in>set ys. fixd s (dof y))"

definition persists :: "nat set \<Rightarrow> 'a store_scheme \<Rightarrow> 'a store_scheme \<Rightarrow> bool" where
  "persists A s t \<longleftrightarrow> (\<forall>x\<in>A. fixd s x \<longrightarrow> fixd t x)"

lemma persists_refl [simp]: "persists A s s"
  by (simp add: persists_def)

lemma persists_trans [trans]: "persists A s t \<Longrightarrow> persists A t u \<Longrightarrow> persists A s u"
  by (simp add: persists_def)

lemma merge_runs_persists:
  assumes "merge_runs cmp dof xs ys s = Some (zs, t)" "ok A s" "dof ` set xs \<subseteq> A" "dof ` set ys \<subseteq> A"
  shows "persists A s t \<and> (xs \<noteq> [] \<longrightarrow> ys \<noteq> [] \<longrightarrow> fixd t (dof (hd xs)) \<and> fixd t (dof (hd ys)))"
  using assms
proof (induction "length xs + length ys" arbitrary: xs ys s zs rule: less_induct)
  case less
  show ?case
  proof (cases "xs = [] \<or> ys = []")
    case True
    have "merge_runs cmp dof us [] r = Some (vs, t) \<Longrightarrow> r = t"
      "merge_runs cmp dof [] us r = Some (vs, t) \<Longrightarrow> r = t" for us r vs
      by (induction us arbitrary: vs) (auto simp: opt_simps)
    with True less.prems(1) have "s = t" by auto
    with True show ?thesis by auto
  next
    case False
    then obtain x xs' y ys' where xs: "xs = x # xs'" and ys: "ys = y # ys'"
      by (auto simp: neq_Nil_conv)
    have xy: "dof x \<in> A" "dof y \<in> A" using less.prems(3,4) xs ys by auto
    from less.prems(1) xs ys obtain c s1 where c: "cmp (dof x) (dof y) s = Some (c, s1)"
      by (auto simp: opt_simps)
    have ok: "ok A s1" using cmp_total[OF less.prems(2) xy] c by auto
    have fx: "fixd s1 (dof x)" "fixd s1 (dof y)" "persists A s s1"
      using cmp_fixes[OF less.prems(2) xy c] cmp_keeps[OF less.prems(2) xy c] by (auto simp: persists_def)
    obtain xs1 ys1 us where "merge_runs cmp dof xs1 ys1 s1 = Some (us, t)"
      "length xs1 + length ys1 < length xs + length ys" "dof ` set xs1 \<subseteq> A" "dof ` set ys1 \<subseteq> A"
    proof (cases "c \<le>s 0")
      case True
      with less.prems c xs ys that[of xs' ys] show ?thesis by (auto simp: opt_simps)
    next
      case False
      with less.prems c xs ys that[of xs ys'] show ?thesis by (auto simp: opt_simps)
    qed
    then have "persists A s1 t" using less.hyps[OF _ _ ok] by blast
    with fx xy show ?thesis using xs ys by (auto simp: persists_def)
  qed
qed

lemma compared_mono:
  "compared s dof ys \<Longrightarrow> persists A s t \<Longrightarrow> dof ` set ys \<subseteq> A \<Longrightarrow> compared t dof ys"
  by (auto simp: compared_def persists_def)

lemma merge_runs_compared:
  assumes "merge_runs cmp dof xs ys s = Some (zs, t)" "ok A s" "dof ` set xs \<subseteq> A" "dof ` set ys \<subseteq> A"
    and "xs \<noteq> []" "compared s dof xs" "ys = [] \<or> compared s dof ys"
  shows "compared t dof zs"
proof (cases "ys = []")
  case True
  have "merge_runs cmp dof us [] r = Some (vs, t) \<Longrightarrow> r = t \<and> vs = us" for us r vs
    by (induction us arbitrary: vs) (auto simp: opt_simps)
  with True assms(1,6) show ?thesis by auto
next
  case False
  note mp = merge_runs_persists[OF assms(1-4)]
  have one: "\<forall>y\<in>set us. fixd t (dof y)"
    if "compared s dof us" "dof ` set us \<subseteq> A" "us \<noteq> []" "fixd t (dof (hd us))" for us
    using that mp by (cases "length us = 1") (auto simp: compared_def persists_def length_Suc_conv)
  have "\<forall>y\<in>set xs \<union> set ys. fixd t (dof y)"
    using one[of xs] one[of ys] assms(3-7) False mp by auto
  then show ?thesis by (simp add: compared_def merge_runs_set[OF assms(1)])
qed

lemma pass_runs_compared:
  assumes "pass_runs cmp dof k xs s = Some (ys, n, t)" "0 < k" "ok A s" "dof ` set xs \<subseteq> A"
    and "all_blocks (compared s dof) k xs"
  shows "persists A s t \<and> all_blocks (compared t dof) (2 * k) ys"
  using assms
proof (induction "length xs" arbitrary: xs s ys n rule: less_induct)
  case less
  show ?case
  proof (cases "xs = []")
    case True
    with less.prems show ?thesis by (simp add: pass_runs.simps all_blocks.simps)
  next
    case False
    let ?p = "take k xs" and ?q = "take k (drop k xs)" and ?r = "drop (2 * k) xs"
    from False less.prems(1,2) obtain zs s1 ws m where
      mr: "merge_runs cmp dof ?p ?q s = Some (zs, s1)"
      and pr: "pass_runs cmp dof k ?r s1 = Some (ws, m, t)" and ys: "ys = zs @ ws"
      by (subst (asm) pass_runs.simps) (auto simp: opt_simps)
    have sub: "dof ` set ?p \<subseteq> A" "dof ` set ?q \<subseteq> A" "dof ` set ?r \<subseteq> A"
      using less.prems(4) by (auto dest!: in_set_takeD in_set_dropD)
    note cp = all_blocks_Cons_block[OF less.prems(5) False less.prems(2)]
    have ok: "ok A s1" using merge_runs_total[OF less.prems(3) sub(1,2)] mr by auto
    have zs: "compared s1 dof zs"
      using merge_runs_compared[OF mr less.prems(3) sub(1,2) _ cp(1,2)] False less.prems(2) by simp
    have p1: "persists A s s1" using merge_runs_persists[OF mr less.prems(3) sub(1,2)] by simp
    have "all_blocks (compared s1 dof) k ?r"
      by (rule all_blocks_mono[OF cp(3)]) (rule compared_mono[OF _ p1], use sub(3) in auto)
    then have IH: "persists A s1 t" "all_blocks (compared t dof) (2 * k) ws"
      using less.hyps[OF _ pr less.prems(2) ok sub(3)] False less.prems(2) by auto
    have set_zs: "set zs \<subseteq> set xs" using merge_runs_set[OF mr] by (auto dest: in_set_takeD in_set_dropD)
    have "compared t dof zs" by (rule compared_mono[OF zs IH(1)]) (use set_zs less.prems(4) in auto)
    moreover have "length zs = length ?p + length ?q" by (rule merge_runs_length[OF mr])
    moreover have "ws = []" if "length xs \<le> 2 * k"
      using pr that by (simp add: pass_runs.simps)
    ultimately have "all_blocks (compared t dof) (2 * k) (zs @ ws)"
      using False less.prems(2) IH(2)
      by (intro all_blocks_append; (simp add: min_def split: if_splits)?; force)
    with ys persists_trans[OF p1 IH(1)] show ?thesis by simp
  qed
qed

lemma sort_runs_compared:
  assumes "sort_runs cmp dof k xs s = Some (ys, t)" "ok A s" "dof ` set xs \<subseteq> A" "2 \<le> length xs"
    and "all_blocks (compared s dof) k xs"
  shows "\<forall>y\<in>set xs. fixd t (dof y)"
  using assms
proof (induction "length xs - k" arbitrary: k xs s rule: less_induct)
  case less
  from less.prems(1) obtain zs n s1 where k: "0 < k" and pr: "pass_runs cmp dof k xs s = Some (zs, n, s1)"
    by (subst (asm) sort_runs.simps) (auto split: if_splits option.splits)
  have ok: "ok A s1" using pass_runs_total[OF less.prems(2,3) k] pr by auto
  have zs: "set zs = set xs" using mset_eq_setD[OF pass_runs_mset[OF k pr]] .
  have ab: "all_blocks (compared s1 dof) (2 * k) zs"
    using pass_runs_compared[OF pr k less.prems(2,3,5)] by simp
  note cnt = pass_runs_count[OF k pr]
  show ?case
  proof (cases "n \<le> 1")
    case True
    with less.prems(1) k pr have "t = s1" by (auto simp: sort_runs.simps[of cmp dof k xs])
    moreover have "compared s1 dof zs"
      using True cnt less.prems(4) k by (intro all_blocks_single[OF ab]) (cases n; auto)+
    ultimately show ?thesis using zs cnt less.prems(4) by (auto simp: compared_def)
  next
    case False
    with less.prems(1) k pr have rec: "sort_runs cmp dof (k * 2) zs s1 = Some (ys, t)"
      by (auto simp: sort_runs.simps[of cmp dof k xs] split: if_splits)
    have "all_blocks (compared s1 dof) (k * 2) zs" using ab by (simp add: mult.commute)
    then show ?thesis
      using less.hyps[OF pass_runs_progress(3)[OF k pr False] rec ok] less.prems(3,4) cnt zs by simp
  qed
qed

text \<open>What the sort promises: the stable order by the keys of the final state, all of them present.\<close>

theorem mergesort_sorts:
  assumes "chain (heads s) p xs None" "xs \<noteq> []" "info_at (heads s) dof (set xs)"
    and "ok A s" "dof ` set xs \<subseteq> A" "length xs \<le> 2 ^ 30"
  shows "\<exists>r t. core_list_mergesort p cmp s = Some (r, t) \<and> ok A t \<and>
    chain (heads t) r (sort_key (key t \<circ> dof) xs) None \<and> same_cells (set xs) (heads s) (heads t) \<and>
    (\<forall>x\<in>A. fixd s x \<longrightarrow> key t x = key s x) \<and> (2 \<le> length xs \<longrightarrow> (\<forall>x\<in>set xs. fixd t (dof x)))"
proof -
  obtain ys t r h where st: "sort_runs cmp dof 1 xs s = Some (ys, t)"
    and ht: "core_list_mergesort p cmp s = Some (r, t\<lparr>heads := h\<rparr>)" "chain h r ys None"
      "same_cells (set xs) (heads s) h" "ok A (t\<lparr>heads := h\<rparr>)"
    using mergesort_permutes[OF assms] by auto
  have "agrees A (key t) s \<and> ys = sort_key (key t \<circ> dof) xs"
    using sort_runs_by[of dof 1 "key t" xs s ys t A] st assms(4,5)
    by (simp add: sort_blocks_1 agrees_def)
  moreover have "2 \<le> length xs \<longrightarrow> (\<forall>x\<in>set xs. fixd t (dof x))"
    using sort_runs_compared[OF st assms(4,5)] by (simp add: all_blocks_1 compared_def)
  ultimately show ?thesis using ht
    by (intro exI[of _ r] exI[of _ "t\<lparr>heads := h\<rparr>"]) (auto simp: key_cells agrees_def)
qed

end

section \<open>Sorting by index\<close>

text \<open>The index of a data cell, and the states \<open>cmp_idx\<close> can reach from \<open>s0\<close> by comparisons of \<open>A\<close>.\<close>

definition idx_key :: "'a store_scheme \<Rightarrow> nat \<Rightarrow> int" where
  "idx_key s d = (case datas s d of None \<Rightarrow> 0 | Some v \<Rightarrow> sint (idx v))"

definition regen_from :: "'a store_scheme \<Rightarrow> nat set \<Rightarrow> 'a store_scheme \<Rightarrow> bool" where
  "regen_from s0 A s \<longleftrightarrow> A \<subseteq> dom (datas s0) \<and> store.more s = store.more s0 \<and>
     (\<forall>d. datas s d = datas s0 d \<or> (d \<in> A \<and> datas s d = map_option regen_data (datas s0 d)))"

definition regenerated :: "'a store_scheme \<Rightarrow> nat \<Rightarrow> bool" where
  "regenerated s d \<longleftrightarrow> map_option regen_data (datas s d) = datas s d"

lemma regen_from_cell:
  assumes "regen_from s0 A s" "d \<in> A"
  shows "\<exists>v w. datas s d = Some v \<and> datas s0 d = Some w \<and> regen_data v = regen_data w \<and> idx v = idx w"
proof -
  obtain w where "datas s0 d = Some w" using assms by (auto simp: regen_from_def)
  moreover have "datas s d = datas s0 d \<or> datas s d = map_option regen_data (datas s0 d)"
    using assms by (auto simp: regen_from_def)
  ultimately show ?thesis by auto
qed

lemma cmp_idx_regen_from:
  assumes "regen_from s0 A s" "a \<in> A" "b \<in> A"
  obtains va vb where "datas s a = Some va" "datas s b = Some vb"
    "cmp_idx True a b s = Some (scast (idx va) - scast (idx vb),
      s\<lparr>datas := (datas s)(a \<mapsto> regen_data va, b \<mapsto> regen_data vb)\<rparr>)"
    "regen_from s0 A (s\<lparr>datas := (datas s)(a \<mapsto> regen_data va, b \<mapsto> regen_data vb)\<rparr>)"
proof -
  obtain va wa where a: "datas s a = Some va" "datas s0 a = Some wa" "regen_data va = regen_data wa"
    using regen_from_cell[OF assms(1,2)] by blast
  obtain vb wb where b: "datas s b = Some vb" "datas s0 b = Some wb" "regen_data vb = regen_data wb"
    using regen_from_cell[OF assms(1,3)] by blast
  have "regen_from s0 A (s\<lparr>datas := (datas s)(a \<mapsto> regen_data va, b \<mapsto> regen_data vb)\<rparr>)"
    using assms a b by (simp add: regen_from_def)
  with that a(1) b(1) cmp_idx_eq(1)[OF a(1) b(1)] show thesis by blast
qed

lemma cmp_idx_undefined:
  "datas s a = None \<or> datas s b = None \<Longrightarrow> cmp_idx c a b s = None"
  by (auto simp: cmp_idx_def set_data_def split: bind_split option.splits if_splits)

lemma cmp_idx_cells:
  "cmp_idx c a b (s\<lparr>heads := h\<rparr>) = map_option (\<lambda>(x, t). (x, t\<lparr>heads := h\<rparr>)) (cmp_idx c a b s)"
proof (cases "datas s a = None \<or> datas s b = None")
  case True
  then have "datas (s\<lparr>heads := h\<rparr>) a = None \<or> datas (s\<lparr>heads := h\<rparr>) b = None" by simp
  with True show ?thesis by (simp add: cmp_idx_undefined)
next
  case False
  then obtain va vb where v: "datas s a = Some va" "datas s b = Some vb" by auto
  then have v': "datas (s\<lparr>heads := h\<rparr>) a = Some va" "datas (s\<lparr>heads := h\<rparr>) b = Some vb" by simp_all
  show ?thesis
    using cmp_idx_eq[OF v] cmp_idx_eq[OF v'] by (cases c) simp_all
qed

interpretation regen_cmp: list_cmp_key "cmp_idx True" "regen_from s0" regenerated idx_key
  for s0 :: "'a store_scheme"
proof unfold_locales
  show "cmp_idx True a b (s\<lparr>heads := h\<rparr>) = map_option (\<lambda>(c, t). (c, t\<lparr>heads := h\<rparr>)) (cmp_idx True a b s)"
    for a b and s :: "'a store_scheme" and h by (rule cmp_idx_cells)
next
  fix A and s :: "'a store_scheme" and a b
  assume A: "regen_from s0 A s" "a \<in> A" "b \<in> A"
  obtain va vb where v: "datas s a = Some va" "datas s b = Some vb"
    and r: "cmp_idx True a b s = Some (scast (idx va) - scast (idx vb),
      s\<lparr>datas := (datas s)(a \<mapsto> regen_data va, b \<mapsto> regen_data vb)\<rparr>)"
      "regen_from s0 A (s\<lparr>datas := (datas s)(a \<mapsto> regen_data va, b \<mapsto> regen_data vb)\<rparr>)"
    by (rule cmp_idx_regen_from[OF A])
  show "\<exists>c t. cmp_idx True a b s = Some (c, t) \<and> regen_from s0 A t" using r by blast
  fix c t
  assume "cmp_idx True a b s = Some (c, t)"
  with r(1) have c: "c = scast (idx va) - scast (idx vb)"
    and t: "t = s\<lparr>datas := (datas s)(a \<mapsto> regen_data va, b \<mapsto> regen_data vb)\<rparr>" by simp_all
  have keys: "idx_key t x = idx_key s x" for x
    using v by (simp add: t idx_key_def)
  show "regenerated t a \<and> regenerated t b" by (simp add: t regenerated_def)
  show "c \<le>s 0 \<longleftrightarrow> idx_key t a \<le> idx_key t b"
    unfolding keys c signed_difference_le_0 using v by (simp add: idx_key_def)
  fix x
  assume "x \<in> A" "regenerated s x"
  then show "regenerated t x \<and> idx_key t x = idx_key s x"
    using keys[of x] v by (auto simp: t regenerated_def)
qed (auto simp: regen_from_def regenerated_def idx_key_def fun_eq_iff)

text \<open>The data address of a node, and the index a node carries.\<close>

definition data_at :: "(nat \<rightharpoonup> list_head) \<Rightarrow> nat \<Rightarrow> nat" where
  "data_at h x = (case h x of None \<Rightarrow> 0 | Some c \<Rightarrow> info c)"

definition node_idx :: "'a store_scheme \<Rightarrow> nat \<Rightarrow> int" where
  "node_idx s x = idx_key s (data_at (heads s) x)"

definition regen_cells :: "nat set \<Rightarrow> (nat \<rightharpoonup> list_data) \<Rightarrow> (nat \<rightharpoonup> list_data)" where
  "regen_cells A d = (\<lambda>a. if a \<in> A then map_option regen_data (d a) else d a)"

lemma chain_info_at: "chain h p xs q \<Longrightarrow> info_at h (data_at h) (set xs)"
  using chain_cells[of h p xs q] by (fastforce simp: info_at_def data_at_def)

lemma data_at_same_cells: "same_cells S h h' \<Longrightarrow> data_at h' = data_at h"
  using same_cells_info[of S h h'] by (auto simp: data_at_def fun_eq_iff split: option.splits) (metis option.simps)+

lemma regen_from_all:
  assumes "regen_from s0 A s" "\<forall>d\<in>A. regenerated s d"
  shows "s = s0\<lparr>heads := heads s, datas := regen_cells A (datas s0)\<rparr>"
proof -
  have "datas s d = regen_cells A (datas s0) d" for d
  proof -
    have "datas s d = datas s0 d \<or> (d \<in> A \<and> datas s d = map_option regen_data (datas s0 d))"
      using assms(1) by (auto simp: regen_from_def)
    with assms(2) show ?thesis
      by (cases "d \<in> A"; cases "datas s0 d") (auto simp: regen_cells_def regenerated_def)
  qed
  then show ?thesis using assms(1) by (intro store.equality) (auto simp: regen_from_def)
qed

lemma regen_cells_idx_key: "idx_key (s\<lparr>heads := h, datas := regen_cells A (datas s)\<rparr>) = idx_key s"
  by (auto simp: idx_key_def regen_cells_def fun_eq_iff split: option.splits)

lemma mergesort_regen:
  assumes "chain (heads s) p xs None" "2 \<le> length xs" "length xs \<le> 2 ^ 30"
    and "\<forall>x\<in>set xs. node_data s x \<noteq> None"
  shows "\<exists>r h. core_list_mergesort p (cmp_idx True) s =
      Some (r, s\<lparr>heads := h, datas := regen_cells (data_at (heads s) ` set xs) (datas s)\<rparr>) \<and>
    chain h r (sort_key (node_idx s) xs) None \<and> same_cells (set xs) (heads s) h"
proof -
  let ?A = "data_at (heads s) ` set xs"
  have "?A \<subseteq> dom (datas s)"
  proof
    fix d assume "d \<in> ?A"
    then obtain x where x: "x \<in> set xs" "d = data_at (heads s) x" by auto
    then show "d \<in> dom (datas s)"
      using assms(4) chain_cells[OF assms(1) x(1)] by (auto simp: node_data_def data_at_def)
  qed
  then have "regen_from s ?A s" by (simp add: regen_from_def)
  moreover have "xs \<noteq> []" using assms(2) by auto
  note regen_cmp.mergesort_sorts[OF assms(1) this chain_info_at[OF assms(1)] _ _ assms(3), of s ?A]
  ultimately obtain r t where t: "core_list_mergesort p (cmp_idx True) s = Some (r, t)" "regen_from s ?A t"
    "chain (heads t) r (sort_key (idx_key t \<circ> data_at (heads s)) xs) None"
    "same_cells (set xs) (heads s) (heads t)" "\<forall>x\<in>set xs. regenerated t (data_at (heads s) x)"
    using assms(2) by auto
  have eq: "t = s\<lparr>heads := heads t, datas := regen_cells ?A (datas s)\<rparr>"
    using regen_from_all[OF t(2)] t(5) by auto
  then have "idx_key t = idx_key s" by (metis regen_cells_idx_key)
  then have "idx_key t \<circ> data_at (heads s) = node_idx s" by (simp add: node_idx_def fun_eq_iff)
  with t eq show ?thesis by (intro exI[of _ r] exI[of _ "heads t"]) simp
qed

text \<open>
  C30. \<open>core_list_mergesort\<close> with \<open>cmp_idx\<close> and a NULL \<open>res\<close>, on a list of two or more nodes: it
  terminates without undefined behaviour, returns the stable sort of the nodes by their index,
  restores the low byte of every data word of the list from its high byte, and changes nothing else:
  no other cell, no node's data pointer, nothing of the rest of the state.
\<close>

theorem mergesort_cmp_idx:
  assumes "chain (heads s) p xs None" "2 \<le> length xs" "length xs \<le> 2 ^ 30"
    and "\<forall>x\<in>set xs. node_data s x \<noteq> None"
  shows "\<exists>r h. core_list_mergesort p (cmp_idx True) s =
      Some (r, s\<lparr>heads := h, datas := regen_cells (data_at (heads s) ` set xs) (datas s)\<rparr>) \<and>
    chain h r (sort_key (node_idx s) xs) None \<and> same_cells (set xs) (heads s) h"
  by (rule mergesort_regen[OF assms])

theorem mergesort_cmp_idx_witness:
  "\<exists>r h. core_list_mergesort (Some 0) (cmp_idx True) sample_store =
      Some (r, sample_store\<lparr>heads := h, datas := regen_cells {0, 1, 2} (datas sample_store)\<rparr>) \<and>
    chain h r [2, 1, 0] None"
proof -
  have "map (node_idx sample_store) [0, 2, 1] = [9, 7, 7]" "data_at (heads sample_store) ` set [0, 2, 1] = {0, 1, 2}"
    by (auto simp: sample_store_def node_idx_def idx_key_def data_at_def)
  with mergesort_cmp_idx[OF sample_chain _ _ sample_data] show ?thesis
    by (auto simp: insort_key.simps)
qed

text \<open>
  \<open>core_list_mergesort\<close> is undefined on the empty list, whatever the comparison: the first pass
  leaves \<open>tail\<close> NULL and \<open>tail->next = NULL\<close> writes through it, before the test that is to allow
  for the empty list.
\<close>

theorem mergesort_empty_undefined: "core_list_mergesort None cmp s = None"
  unfolding core_list_mergesort_def by (subst sort_loop.simps, subst pass_loop.simps) (simp add: set_next_def)



end
