(* ===== verification/Core_Matrix.thy ===== *)
theory Core_Matrix
  imports Crc_Eval
begin

text \<open>
  The matrix benchmark of \<open>coremark/src/core_matrix.c\<close>: the layout of the three matrices in the
  memory block, their initial values, the operations on them, and \<open>matrix_test\<close>, which composes
  them. \<open>MATDAT\<close> is \<open>ee_s16\<close> and \<open>MATRES\<close> is \<open>ee_s32\<close>.

  A matrix is the list of its elements in row order; every access is bounds-checked, and signed
  overflow of 32-bit arithmetic is \<open>None\<close>. Assignments to 16-bit elements and the unsigned
  arithmetic of the bit extraction wrap. That the three matrices do not overlap, so that they can be
  three lists, is the layout theorem.
\<close>

section \<open>The code\<close>

record mat_params =
  mat_N :: nat
  mat_A :: "ee_s16 list"
  mat_B :: "ee_s16 list"
  mat_C :: "ee_s32 list"

definition matrix_clip :: "ee_s16 \<Rightarrow> bool \<Rightarrow> ee_s16" where
  "matrix_clip x y = (if y then x AND 0x0ff else x AND 0x0ffff)"

definition matrix_big :: "ee_s16 \<Rightarrow> ee_s16" where
  "matrix_big x = 0xf000 OR x"

definition bit_extract :: "ee_s32 \<Rightarrow> nat \<Rightarrow> nat \<Rightarrow> ee_u32" where
  "bit_extract x from to = signed_drop_bit from x AND NOT (push_bit to 0xffffffff)"

definition matrix_add_const :: "nat \<Rightarrow> ee_s16 list \<Rightarrow> ee_s16 \<Rightarrow> ee_s16 list option" where
  "matrix_add_const N A val =
     for_loop 0 N (\<lambda>i A. for_loop 0 N (\<lambda>j A.
       do { a \<leftarrow> rd A (i * N + j); wr A (i * N + j) (a + val) }) A) A"

definition matrix_mul_const :: "nat \<Rightarrow> ee_s32 list \<Rightarrow> ee_s16 list \<Rightarrow> ee_s16 \<Rightarrow> ee_s32 list option" where
  "matrix_mul_const N C A val =
     for_loop 0 N (\<lambda>i C. for_loop 0 N (\<lambda>j C.
       do { a \<leftarrow> rd A (i * N + j); wr C (i * N + j) (scast a * scast val) }) C) C"

text \<open>\<open>C[k] += x\<close>\<close>

definition accum :: "ee_s32 list \<Rightarrow> nat \<Rightarrow> ee_s32 \<Rightarrow> ee_s32 list option" where
  "accum C k x = do { c \<leftarrow> rd C k; c \<leftarrow> add_s32 c x; wr C k c }"

definition matrix_mul_vect :: "nat \<Rightarrow> ee_s32 list \<Rightarrow> ee_s16 list \<Rightarrow> ee_s16 list \<Rightarrow> ee_s32 list option" where
  "matrix_mul_vect N C A B =
     for_loop 0 N (\<lambda>i C.
       do { C \<leftarrow> wr C i 0;
            for_loop 0 N (\<lambda>j C.
              do { a \<leftarrow> rd A (i * N + j); b \<leftarrow> rd B j; accum C i (scast a * scast b) }) C }) C"

definition matrix_mul_matrix :: "nat \<Rightarrow> ee_s32 list \<Rightarrow> ee_s16 list \<Rightarrow> ee_s16 list \<Rightarrow> ee_s32 list option" where
  "matrix_mul_matrix N C A B =
     for_loop 0 N (\<lambda>i C. for_loop 0 N (\<lambda>j C.
       do { C \<leftarrow> wr C (i * N + j) 0;
            for_loop 0 N (\<lambda>k C.
              do { a \<leftarrow> rd A (i * N + k); b \<leftarrow> rd B (k * N + j);
                   accum C (i * N + j) (scast a * scast b) }) C }) C) C"

text \<open>
  In the bit extraction the product of the two extracted fields is unsigned, so the sum is computed
  modulo \<open>2 ^ 32\<close> and does not overflow.
\<close>

definition matrix_mul_matrix_bitextract ::
  "nat \<Rightarrow> ee_s32 list \<Rightarrow> ee_s16 list \<Rightarrow> ee_s16 list \<Rightarrow> ee_s32 list option" where
  "matrix_mul_matrix_bitextract N C A B =
     for_loop 0 N (\<lambda>i C. for_loop 0 N (\<lambda>j C.
       do { C \<leftarrow> wr C (i * N + j) 0;
            for_loop 0 N (\<lambda>k C.
              do { a \<leftarrow> rd A (i * N + k); b \<leftarrow> rd B (k * N + j);
                   let tmp = scast a * scast b;
                   c \<leftarrow> rd C (i * N + j);
                   wr C (i * N + j) (c + bit_extract tmp 2 4 * bit_extract tmp 5 7) }) C }) C) C"

text \<open>The variables \<open>tmp\<close>, \<open>prev\<close> and \<open>ret\<close> of \<open>matrix_sum\<close>; \<open>cur\<close> is local to the body.\<close>

definition sum_step :: "ee_s16 \<Rightarrow> ee_s32 \<Rightarrow> ee_s32 \<times> ee_s32 \<times> ee_s16 \<Rightarrow> (ee_s32 \<times> ee_s32 \<times> ee_s16) option" where
  "sum_step clipval cur = (\<lambda>(tmp, prev, ret).
     do { tmp \<leftarrow> add_s32 tmp cur;
          if scast clipval <s tmp then Some (0, cur, ret + 10)
          else Some (tmp, cur, ret + (if prev <s cur then 1 else 0)) })"

definition matrix_sum :: "nat \<Rightarrow> ee_s32 list \<Rightarrow> ee_s16 \<Rightarrow> ee_s16 option" where
  "matrix_sum N C clipval =
     do { (tmp, prev, ret) \<leftarrow>
            for_loop 0 N (\<lambda>i. for_loop 0 N (\<lambda>j v.
              do { cur \<leftarrow> rd C (i * N + j); sum_step clipval cur v })) (0, 0, 0);
          Some ret }"

text \<open>The result is the return value, and the matrices \<open>C\<close> and \<open>A\<close>.\<close>

definition matrix_test ::
  "nat \<Rightarrow> ee_s32 list \<Rightarrow> ee_s16 list \<Rightarrow> ee_s16 list \<Rightarrow> ee_s16 \<Rightarrow> (ee_s16 \<times> ee_s32 list \<times> ee_s16 list) option" where
  "matrix_test N C A B val =
     do { let crc = 0;
          let clipval = matrix_big val;
          A \<leftarrow> matrix_add_const N A val;
          C \<leftarrow> matrix_mul_const N C A val;
          r \<leftarrow> matrix_sum N C clipval;
          let crc = crc16 r crc;
          C \<leftarrow> matrix_mul_vect N C A B;
          r \<leftarrow> matrix_sum N C clipval;
          let crc = crc16 r crc;
          C \<leftarrow> matrix_mul_matrix N C A B;
          r \<leftarrow> matrix_sum N C clipval;
          let crc = crc16 r crc;
          C \<leftarrow> matrix_mul_matrix_bitextract N C A B;
          r \<leftarrow> matrix_sum N C clipval;
          let crc = crc16 r crc;
          A \<leftarrow> matrix_add_const N A (- val);
          Some (crc, C, A) }"

definition core_bench_matrix :: "mat_params \<Rightarrow> ee_s16 \<Rightarrow> ee_u16 \<Rightarrow> (ee_u16 \<times> mat_params) option" where
  "core_bench_matrix p seed crc =
     do { (r, C, A) \<leftarrow> matrix_test (mat_N p) (mat_C p) (mat_A p) (mat_B p) seed;
          Some (crc16 r crc, p\<lparr>mat_A := A, mat_C := C\<rparr>) }"

subsection \<open>Initialisation\<close>

definition align_mem :: "ee_u32 \<Rightarrow> ee_u32" where
  "align_mem x = 4 + ((x - 1) AND NOT 3)"

text \<open>\<open>while (j < blksize) { i++; j = i * i * 2 * 4; }\<close>, in 32-bit unsigned arithmetic.\<close>

partial_function (option) size_loop :: "ee_u32 \<Rightarrow> ee_u32 \<Rightarrow> ee_u32 \<Rightarrow> ee_u32 option" where
  "size_loop blksize i j =
     (if j < blksize then size_loop blksize (i + 1) ((i + 1) * (i + 1) * 2 * 4) else Some i)"

declare size_loop.simps [code]

text \<open>The remainder of C truncates towards zero.\<close>

definition rem_s32 :: "ee_s32 \<Rightarrow> int \<Rightarrow> ee_s32" where
  "rem_s32 a m = word_of_int (sgn (sint a) * (\<bar>sint a\<bar> mod m))"

text \<open>The loop body; the state is \<open>seed\<close>, \<open>order\<close> and the two matrices.\<close>

definition init_elem ::
  "nat \<Rightarrow> ee_s32 \<times> ee_s32 \<times> ee_s16 list \<times> ee_s16 list \<Rightarrow> (ee_s32 \<times> ee_s32 \<times> ee_s16 list \<times> ee_s16 list) option"
  where
  "init_elem k = (\<lambda>(seed, order, A, B).
     do { m \<leftarrow> mul_s32 order seed;
          let seed = rem_s32 m 65536;
          v \<leftarrow> add_s32 seed order;
          let val = ucast v;
          let val = matrix_clip val False;
          B \<leftarrow> wr B k val;
          v \<leftarrow> add_s32 (scast val) order;
          let val = ucast v;
          let val = matrix_clip val True;
          A \<leftarrow> wr A k val;
          order \<leftarrow> add_s32 order 1;
          Some (seed, order, A, B) })"

text \<open>
  The result is the dimension, the addresses of the three matrices and the parameter record. The
  lists \<open>A\<close>, \<open>B\<close> and \<open>C\<close> are what the memory of the matrices holds before; \<open>C\<close> is not written.
\<close>

definition core_init_matrix ::
  "ee_u32 \<Rightarrow> ee_u32 \<Rightarrow> ee_s32 \<Rightarrow> ee_s16 list \<Rightarrow> ee_s16 list \<Rightarrow> ee_s32 list \<Rightarrow>
   (ee_u32 \<times> (ee_u32 \<times> ee_u32 \<times> ee_u32) \<times> mat_params) option" where
  "core_init_matrix blksize memblk seed A B C =
     do { let seed = (if seed = 0 then 1 else seed);
          i \<leftarrow> size_loop blksize 0 0;
          let N = i - 1;
          let pA = align_mem memblk;
          let pB = pA + 2 * (N * N);
          let n = unat N;
          (seed, order, A, B) \<leftarrow> for_loop 0 n (\<lambda>i. for_loop 0 n (\<lambda>j. init_elem (i * n + j))) (seed, 1, A, B);
          let pC = align_mem (pB + 2 * (N * N));
          Some (N, (pA, pB, pC), \<lparr>mat_N = n, mat_A = A, mat_B = B, mat_C = C\<rparr>) }"

section \<open>The operations as functions of the matrices\<close>

lemma matrix_add_const_eq:
  assumes "length A = N * N"
  shows "matrix_add_const N A val = Some (map (\<lambda>a. a + val) A)"
proof -
  have "matrix_add_const N A val =
      for_loop 0 (N * N) (\<lambda>k A. do { a \<leftarrow> rd A k; wr A k (a + val) }) A"
    unfolding matrix_add_const_def by (rule for_loop_nested) simp
  moreover have "\<exists>t. for_loop 0 (N * N) (\<lambda>k A. do { a \<leftarrow> rd A k; wr A k (a + val) }) A = Some t \<and>
      t = map (\<lambda>a. a + val) (take (0 + N * N) A) @ drop (0 + N * N) A"
  proof (rule for_loop_rule[where I = "\<lambda>k t. t = map (\<lambda>a. a + val) (take k A) @ drop k A"])
    fix i t assume i: "0 \<le> i" "i < 0 + N * N" and t: "t = map (\<lambda>a. a + val) (take i A) @ drop i A"
    then show "\<exists>t'. do { a \<leftarrow> rd t i; wr t i (a + val) } = Some t' \<and>
        t' = map (\<lambda>a. a + val) (take (Suc i) A) @ drop (Suc i) A"
      using assms by (simp add: nth_append list_update_append take_Suc_conv_app_nth Cons_nth_drop_Suc[symmetric])
  qed simp
  ultimately show ?thesis using assms by simp
qed

lemma matrix_mul_const_eq:
  assumes "length A = N * N" "length C = N * N"
  shows "matrix_mul_const N C A val = Some (map (\<lambda>a. scast a * scast val) A)"
proof -
  have "matrix_mul_const N C A val =
      for_loop 0 (N * N) (\<lambda>k C. do { a \<leftarrow> rd A k; wr C k (scast a * scast val) }) C"
    unfolding matrix_mul_const_def by (rule for_loop_nested) simp
  also have "\<dots> = Some (map (\<lambda>k. scast (A ! k) * scast val) [0..<N * N] @ drop (N * N) C)"
    using assms by (intro for_loop_fill) auto
  also have "map (\<lambda>k. scast (A ! k) * scast val) [0..<N * N] = map (\<lambda>a. scast a * scast val) A"
    using assms(1) by (intro nth_equalityI) auto
  finally show ?thesis using assms by simp
qed

text \<open>A row of additions to one element: the sum accumulates in the element.\<close>

definition acc_loop :: "nat \<Rightarrow> (nat \<Rightarrow> ee_s32) \<Rightarrow> ee_s32 option" where
  "acc_loop n t = for_loop 0 n (\<lambda>k c. add_s32 c (t k)) 0"

lemma for_loop_accum:
  assumes "i < length C"
  shows "for_loop a n (\<lambda>k C. accum C i (t k)) C =
    map_option (\<lambda>c. C[i := c]) (for_loop a n (\<lambda>k c. add_s32 c (t k)) (C ! i))"
  using assms
proof (induction n arbitrary: a C)
  case (Suc n)
  have "list_update (C[i := x]) i = list_update C i" for x by (rule ext) simp
  with Suc show ?case by (auto simp: accum_def split: option.splits bind_split)
qed simp

lemma for_loop_accum_0:
  "i < length C \<Longrightarrow> for_loop 0 n (\<lambda>k C. accum C i (t k)) (C[i := 0]) = map_option (\<lambda>c. C[i := c]) (acc_loop n t)"
  by (simp add: for_loop_accum acc_loop_def)

text \<open>The sum of integers that the loop computes when no partial sum overflows.\<close>

lemma acc_loop_sum:
  assumes "\<And>m. m \<le> n \<Longrightarrow> in_s32 (\<Sum>k<m. sint (t k))"
  shows "acc_loop n t = Some (word_of_int (\<Sum>k<n. sint (t k)))"
proof -
  have "\<exists>c. for_loop 0 n (\<lambda>k c. add_s32 c (t k)) 0 = Some c \<and> c = word_of_int (\<Sum>k<0 + n. sint (t k))"
  proof (rule for_loop_rule[where I = "\<lambda>k c. c = word_of_int (\<Sum>l<k. sint (t l))"])
    fix i and c :: ee_s32
    assume i: "0 \<le> i" "i < 0 + n" and c: "c = word_of_int (\<Sum>l<i. sint (t l))"
    have "sint c = (\<Sum>l<i. sint (t l))"
      unfolding c by (rule sint_of_int_s32) (use assms i in simp)
    then show "\<exists>c'. add_s32 c (t i) = Some c' \<and> c' = word_of_int (\<Sum>l<Suc i. sint (t l))"
      using add_s32_in[of c "t i"] assms[of "Suc i"] i by simp
  qed simp
  then show ?thesis by (simp add: acc_loop_def)
qed

lemma in_s32_bounded_sum:
  assumes "\<And>k. k < n \<Longrightarrow> \<bar>f k\<bar> \<le> b" "int n * b < 2 ^ 31" "m \<le> n"
  shows "in_s32 (\<Sum>k<m. f k)"
proof -
  have "\<bar>\<Sum>k<m. f k\<bar> \<le> (\<Sum>k<m. \<bar>f k\<bar>)" by (rule sum_abs)
  also have "\<dots> \<le> (\<Sum>k<m. b)" using assms(1,3) by (intro sum_mono) auto
  also have "\<dots> \<le> int n * b" using assms(1)[of 0] assms(3) by (cases n) (auto intro!: mult_right_mono)
  finally show ?thesis using assms(2) by (simp add: in_s32_def abs_le_iff)
qed

lemma sint_scast_mult: "sint (scast a * scast b :: ee_s32) = sint a * sint b" for a b :: ee_s16
proof -
  have "\<bar>sint a * sint b\<bar> \<le> 2 ^ 15 * 2 ^ 15"
    unfolding abs_mult
    using sint_greater_eq[of a] sint_less[of a] sint_greater_eq[of b] sint_less[of b]
    by (intro mult_mono) (auto simp: abs_le_iff)
  then have "in_s32 (sint a * sint b)" by (simp add: in_s32_def abs_le_iff)
  from sint_of_int_s32[OF this] show ?thesis by simp
qed

text \<open>The inner products of the matrix and of the matrix-vector product.\<close>

definition dot :: "nat \<Rightarrow> ee_s16 list \<Rightarrow> ee_s16 list \<Rightarrow> nat \<Rightarrow> nat \<Rightarrow> int" where
  "dot N A B i j = (\<Sum>k<N. sint (A ! (i * N + k)) * sint (B ! (k * N + j)))"

definition dotv :: "nat \<Rightarrow> ee_s16 list \<Rightarrow> ee_s16 list \<Rightarrow> nat \<Rightarrow> int" where
  "dotv N A B i = (\<Sum>k<N. sint (A ! (i * N + k)) * sint (B ! k))"

text \<open>Elements bounded so that no inner product overflows.\<close>

definition fits :: "nat \<Rightarrow> int \<Rightarrow> int \<Rightarrow> ee_s16 list \<Rightarrow> ee_s16 list \<Rightarrow> bool" where
  "fits N a b A B \<longleftrightarrow> length A = N * N \<and> length B = N * N \<and> (\<forall>x\<in>set A. \<bar>sint x\<bar> \<le> a) \<and>
     (\<forall>x\<in>set B. \<bar>sint x\<bar> \<le> b) \<and> int N * (a * b) < 2 ^ 31"

lemma square_index:
  fixes i j N :: nat
  assumes "i < N" "j < N"
  shows "i * N + j < N * N"
proof -
  have "i * N + j < Suc i * N" using assms(2) by simp
  also have "\<dots> \<le> N * N" using assms(1) by (intro mult_le_mono1) simp
  finally show ?thesis .
qed

lemma less_square: "i < N \<Longrightarrow> i < N * N" for i N :: nat
  using le_square[of N] by linarith

lemma fits_term:
  assumes "fits N a b A B" "i < N * N" "j < N * N"
  shows "\<bar>sint (A ! i) * sint (B ! j)\<bar> \<le> a * b"
proof -
  have "\<bar>sint (A ! i)\<bar> \<le> a" "\<bar>sint (B ! j)\<bar> \<le> b" using assms by (auto simp: fits_def)
  then show ?thesis by (simp add: abs_mult mult_mono')
qed

lemma acc_loop_dot:
  assumes "fits N a b A B" "i < N" "j < N"
  shows "acc_loop N (\<lambda>k. scast (A ! (i * N + k)) * scast (B ! (k * N + j))) = Some (word_of_int (dot N A B i j))"
    and "in_s32 (dot N A B i j)"
proof -
  have "in_s32 (\<Sum>k<m. sint (A ! (i * N + k)) * sint (B ! (k * N + j)))" if "m \<le> N" for m
    by (rule in_s32_bounded_sum[where n = N and b = "a * b"])
       (use assms that in \<open>auto simp: fits_def intro!: fits_term[OF assms(1)] square_index\<close>)
  then show "acc_loop N (\<lambda>k. scast (A ! (i * N + k)) * scast (B ! (k * N + j))) = Some (word_of_int (dot N A B i j))"
    "in_s32 (dot N A B i j)"
    by (simp_all add: acc_loop_sum sint_scast_mult dot_def)
qed

lemma acc_loop_dotv:
  assumes "fits N a b A B" "i < N"
  shows "acc_loop N (\<lambda>k. scast (A ! (i * N + k)) * scast (B ! k)) = Some (word_of_int (dotv N A B i))"
    and "in_s32 (dotv N A B i)"
proof -
  have "in_s32 (\<Sum>k<m. sint (A ! (i * N + k)) * sint (B ! k))" if "m \<le> N" for m
    by (rule in_s32_bounded_sum[where n = N and b = "a * b"])
       (use assms that in \<open>auto simp: fits_def square_index less_square intro!: fits_term[OF assms(1)]\<close>)
  then show "acc_loop N (\<lambda>k. scast (A ! (i * N + k)) * scast (B ! k)) = Some (word_of_int (dotv N A B i))"
    "in_s32 (dotv N A B i)"
    by (simp_all add: acc_loop_sum sint_scast_mult dotv_def)
qed

lemma matrix_mul_vect_eq:
  assumes "fits N a b A B" "length C = N * N"
  shows "matrix_mul_vect N C A B = Some (map (\<lambda>i. word_of_int (dotv N A B i)) [0..<N] @ drop N C)"
  unfolding matrix_mul_vect_def
proof (rule for_loop_fill)
  fix i and t :: "ee_s32 list"
  assume i: "i < N" and t: "length t = length C"
  then have il: "i < length t" using assms(2) by (simp add: less_square)
  have len: "length A = N * N" "length B = N * N" using assms(1) by (auto simp: fits_def)
  have "for_loop 0 N (\<lambda>j C. do { a \<leftarrow> rd A (i * N + j); b \<leftarrow> rd B j; accum C i (scast a * scast b) }) (t[i := 0])
      = for_loop 0 N (\<lambda>j C. accum C i (scast (A ! (i * N + j)) * scast (B ! j))) (t[i := 0])"
    using i len by (intro for_loop_cong) (simp add: square_index less_square)
  also have "\<dots> = Some (t[i := word_of_int (dotv N A B i)])"
    by (simp add: for_loop_accum_0[OF il] acc_loop_dotv[OF assms(1) i])
  finally show "(do { C \<leftarrow> wr t i 0; for_loop 0 N (\<lambda>j C.
      do { a \<leftarrow> rd A (i * N + j); b \<leftarrow> rd B j; accum C i (scast a * scast b) }) C })
      = Some (t[i := word_of_int (dotv N A B i)])"
    using il by simp
qed (use assms(2) le_square[of N] in simp)

text \<open>A loop over rows and columns that sets every element once.\<close>

lemma for_loop_fill_square:
  assumes "\<And>i j t. i < N \<Longrightarrow> j < N \<Longrightarrow> length t = N * N \<Longrightarrow> f i j t = Some (t[i * N + j := g i j])"
    and "length C = N * N"
  shows "for_loop 0 N (\<lambda>i. for_loop 0 N (f i)) C = Some (map (\<lambda>k. g (k div N) (k mod N)) [0..<N * N])"
proof -
  let ?f = "\<lambda>k t. f (k div N) (k mod N) t"
  have "for_loop 0 N (\<lambda>i. for_loop 0 N (f i)) C = for_loop 0 (N * N) ?f C"
    by (rule for_loop_nested) simp
  also have "\<dots> = Some (map (\<lambda>k. g (k div N) (k mod N)) [0..<N * N] @ drop (N * N) C)"
  proof (rule for_loop_fill)
    fix k and t :: "'a list"
    assume k: "k < N * N" and t: "length t = length C"
    then have "0 < N" by (cases N) auto
    then have "k div N < N" "k mod N < N" using k by (auto simp: div_less_iff_less_mult)
    then show "?f k t = Some (t[k := g (k div N) (k mod N)])"
      using assms t by simp
  qed (simp add: assms(2))
  finally show ?thesis using assms(2) by simp
qed

lemma matrix_mul_matrix_eq:
  assumes "fits N a b A B" "length C = N * N"
  shows "matrix_mul_matrix N C A B = Some (map (\<lambda>k. word_of_int (dot N A B (k div N) (k mod N))) [0..<N * N])"
  unfolding matrix_mul_matrix_def
proof (rule for_loop_fill_square[OF _ assms(2)])
  fix i j and t :: "ee_s32 list"
  assume ij: "i < N" "j < N" and t: "length t = N * N"
  let ?k = "i * N + j"
  have il: "?k < length t" using ij t by (simp add: square_index)
  have len: "length A = N * N" "length B = N * N" using assms(1) by (auto simp: fits_def)
  have "for_loop 0 N (\<lambda>k C. do { a \<leftarrow> rd A (i * N + k); b \<leftarrow> rd B (k * N + j); accum C ?k (scast a * scast b) }) (t[?k := 0])
      = for_loop 0 N (\<lambda>k C. accum C ?k (scast (A ! (i * N + k)) * scast (B ! (k * N + j)))) (t[?k := 0])"
    using ij len by (intro for_loop_cong) (simp add: square_index)
  also have "\<dots> = Some (t[?k := word_of_int (dot N A B i j)])"
    by (simp add: for_loop_accum_0[OF il] acc_loop_dot[OF assms(1) ij])
  finally show "(do { C \<leftarrow> wr t ?k 0; for_loop 0 N (\<lambda>k C.
      do { a \<leftarrow> rd A (i * N + k); b \<leftarrow> rd B (k * N + j); accum C ?k (scast a * scast b) }) C })
      = Some (t[?k := word_of_int (dot N A B i j)])"
    using il by simp
qed

text \<open>The bit-extracted product: two fields of every elementary product, multiplied and added up.\<close>

definition bit_term :: "ee_s16 \<Rightarrow> ee_s16 \<Rightarrow> ee_u32" where
  "bit_term a b = bit_extract (scast a * scast b) 2 4 * bit_extract (scast a * scast b) 5 7"

definition bit_dot :: "nat \<Rightarrow> ee_s16 list \<Rightarrow> ee_s16 list \<Rightarrow> nat \<Rightarrow> nat \<Rightarrow> ee_u32" where
  "bit_dot N A B i j = (\<Sum>k<N. bit_term (A ! (i * N + k)) (B ! (k * N + j)))"

lemma for_loop_add:
  assumes "i < length C"
  shows "for_loop 0 n (\<lambda>k C. do { c \<leftarrow> rd C i; wr C i (c + t k) }) C = Some (C[i := C ! i + (\<Sum>k<n. t k)])"
proof -
  have "\<exists>D. for_loop 0 n (\<lambda>k C. do { c \<leftarrow> rd C i; wr C i (c + t k) }) C = Some D \<and> D = C[i := C ! i + (\<Sum>k<0 + n. t k)]"
    by (rule for_loop_rule[where I = "\<lambda>m D. D = C[i := C ! i + (\<Sum>k<m. t k)]"])
       (use assms in \<open>auto simp: add.assoc\<close>)
  then show ?thesis by simp
qed

lemma matrix_mul_matrix_bitextract_eq:
  assumes "length A = N * N" "length B = N * N" "length C = N * N"
  shows "matrix_mul_matrix_bitextract N C A B = Some (map (\<lambda>k. bit_dot N A B (k div N) (k mod N)) [0..<N * N])"
  unfolding matrix_mul_matrix_bitextract_def
proof (rule for_loop_fill_square[OF _ assms(3)])
  fix i j and t :: "ee_s32 list"
  assume ij: "i < N" "j < N" and t: "length t = N * N"
  let ?k = "i * N + j"
  let ?body = "\<lambda>k C. do { a \<leftarrow> rd A (i * N + k); b \<leftarrow> rd B (k * N + j); let tmp = scast a * scast b;
      c \<leftarrow> rd C ?k; wr C ?k (c + bit_extract tmp 2 4 * bit_extract tmp 5 7) }"
  have il: "?k < length (t[?k := 0])" using ij t by (simp add: square_index)
  have "for_loop 0 N ?body (t[?k := 0])
      = for_loop 0 N (\<lambda>k C. do { c \<leftarrow> rd C ?k; wr C ?k (c + bit_term (A ! (i * N + k)) (B ! (k * N + j))) }) (t[?k := 0])"
    using ij assms by (intro for_loop_cong) (simp add: square_index bit_term_def Let_def)
  also have "\<dots> = Some (t[?k := bit_dot N A B i j])"
    unfolding for_loop_add[OF il] using il by (simp add: bit_dot_def)
  finally show "(do { C \<leftarrow> wr t ?k 0; for_loop 0 N ?body C }) = Some (t[?k := bit_dot N A B i j])"
    using il by simp
qed

section \<open>The checksum of a matrix\<close>

lemma matrix_sum_eq:
  assumes "length C = N * N"
  shows "matrix_sum N C clipval =
    map_option (\<lambda>(tmp, prev, ret). ret) (for_loop 0 (N * N) (\<lambda>k. sum_step clipval (C ! k)) (0, 0, 0))"
proof -
  have "for_loop 0 N (\<lambda>i. for_loop 0 N (\<lambda>j v. do { cur \<leftarrow> rd C (i * N + j); sum_step clipval cur v })) (0, 0, 0)
      = for_loop 0 (N * N) (\<lambda>k v. do { cur \<leftarrow> rd C k; sum_step clipval cur v }) (0, 0, 0)"
    by (rule for_loop_nested) simp
  also have "\<dots> = for_loop 0 (N * N) (\<lambda>k. sum_step clipval (C ! k)) (0, 0, 0)"
    by (rule for_loop_cong) (simp add: assms)
  finally show ?thesis
    unfolding matrix_sum_def
    by (cases "for_loop 0 (N * N) (\<lambda>k. sum_step clipval (C ! k)) (0, 0, 0)") auto
qed

definition neg_part :: "int \<Rightarrow> int" where
  "neg_part x = max 0 (- x)"

lemma neg_part_nonneg [simp]: "0 \<le> neg_part x" "- x \<le> neg_part x"
  by (simp_all add: neg_part_def)

text \<open>
  With a negative clip value the accumulator never gets positive: it is reset as soon as it exceeds
  the clip value. So it overflows only if the negative elements do.
\<close>

lemma matrix_sum_defined:
  assumes "length C = N * N" "sint clipval < 0" "(\<Sum>k<N * N. neg_part (sint (C ! k))) \<le> 2 ^ 31"
  shows "\<exists>r. matrix_sum N C clipval = Some r"
proof -
  let ?I = "\<lambda>k (tmp :: ee_s32, prev :: ee_s32, ret :: ee_s16).
    sint tmp \<le> 0 \<and> - (\<Sum>l<k. neg_part (sint (C ! l))) \<le> sint tmp"
  have "\<exists>v. for_loop 0 (N * N) (\<lambda>k. sum_step clipval (C ! k)) (0, 0, 0) = Some v \<and> ?I (0 + N * N) v"
  proof (rule for_loop_rule[where I = ?I])
    fix i v assume i: "0 \<le> i" "i < 0 + N * N" and v: "?I i v"
    obtain tmp prev ret where [simp]: "v = (tmp, prev, ret)" by (cases v) auto
    let ?s = "sint tmp + sint (C ! i)"
    have "(\<Sum>l<Suc i. neg_part (sint (C ! l))) \<le> (\<Sum>k<N * N. neg_part (sint (C ! k)))"
      using i by (intro sum_mono2) auto
    moreover have lo: "- (\<Sum>l<Suc i. neg_part (sint (C ! l))) \<le> ?s"
    proof -
      have "- (\<Sum>l<i. neg_part (sint (C ! l))) \<le> sint tmp" using v by simp
      then show ?thesis
        unfolding sum.lessThan_Suc using neg_part_nonneg(2)[of "sint (C ! i)"] by linarith
    qed
    ultimately have "in_s32 ?s" using assms(3) v sint_less[of "C ! i"] by (simp add: in_s32_def)
    then have a: "add_s32 tmp (C ! i) = Some (word_of_int ?s)" "sint (word_of_int ?s :: ee_s32) = ?s"
      by (rule add_s32_in, rule sint_of_int_s32)
    have clip: "scast clipval <s (word_of_int ?s :: ee_s32) \<longleftrightarrow> sint clipval < ?s"
      unfolding word_sless_alt a(2) by simp
    have pos: "0 \<le> (\<Sum>l<Suc i. neg_part (sint (C ! l)))" by (intro sum_nonneg) simp
    show "\<exists>v'. sum_step clipval (C ! i) v = Some v' \<and> ?I (Suc i) v'"
    proof (cases "sint clipval < ?s")
      case True
      then have "sum_step clipval (C ! i) v = Some (0, C ! i, ret + 10)"
        by (simp add: sum_step_def a(1) clip del: of_int_add)
      with pos show ?thesis by simp
    next
      case False
      then have "sum_step clipval (C ! i) v =
          Some (word_of_int ?s, C ! i, ret + (if prev <s C ! i then 1 else 0))"
        by (simp add: sum_step_def a(1) clip del: of_int_add)
      with lo a(2) False assms(2) show ?thesis by (simp del: of_int_add)
    qed
  qed simp
  then show ?thesis unfolding matrix_sum_eq[OF assms(1)] by (auto simp del: of_int_add)
qed

lemma sint_matrix_big: "sint (matrix_big v) < 0"
proof -
  have "bit (matrix_big v) 15" unfolding matrix_big_def by (simp add: bit_simps)
  then show ?thesis using bit_last_iff[of "matrix_big v"] by simp
qed

section \<open>The whole test\<close>

text \<open>The contents of \<open>C\<close> after each of the four operations.\<close>

definition after_mul_const :: "ee_s16 list \<Rightarrow> ee_s16 \<Rightarrow> ee_s32 list" where
  "after_mul_const A val = map (\<lambda>a. scast a * scast val) A"

definition after_mul_vect :: "nat \<Rightarrow> ee_s16 list \<Rightarrow> ee_s16 list \<Rightarrow> ee_s16 \<Rightarrow> ee_s32 list" where
  "after_mul_vect N A B val = map (\<lambda>i. word_of_int (dotv N A B i)) [0..<N] @ drop N (after_mul_const A val)"

definition after_mul_matrix :: "nat \<Rightarrow> ee_s16 list \<Rightarrow> ee_s16 list \<Rightarrow> ee_s32 list" where
  "after_mul_matrix N A B = map (\<lambda>k. word_of_int (dot N A B (k div N) (k mod N))) [0..<N * N]"

definition after_bitextract :: "nat \<Rightarrow> ee_s16 list \<Rightarrow> ee_s16 list \<Rightarrow> ee_s32 list" where
  "after_bitextract N A B = map (\<lambda>k. bit_dot N A B (k div N) (k mod N)) [0..<N * N]"

lemma map_add_neg [simp]: "map ((\<lambda>a. a + - v) \<circ> (\<lambda>a. a + v)) xs = xs" for v :: "'a::group_add"
  by (simp add: comp_def flip: diff_conv_add_uminus)

lemma matrix_test_eq:
  assumes "fits N a b A' B" "length C = N * N" and A': "A' = map (\<lambda>a. a + val) A"
    and "matrix_sum N (after_mul_const A' val) (matrix_big val) = Some r1"
    and "matrix_sum N (after_mul_vect N A' B val) (matrix_big val) = Some r2"
    and "matrix_sum N (after_mul_matrix N A' B) (matrix_big val) = Some r3"
    and "matrix_sum N (after_bitextract N A' B) (matrix_big val) = Some r4"
  shows "matrix_test N C A B val =
    Some (crc16 r4 (crc16 r3 (crc16 r2 (crc16 r1 0))), after_bitextract N A' B, A)"
proof -
  have len: "length A = N * N" "length A' = N * N" "length B = N * N"
    using assms(1) A' by (auto simp: fits_def)
  have "N \<le> N * N" by simp
  then have len': "length (after_mul_const A' val) = N * N" "length (after_mul_vect N A' B val) = N * N"
    "length (after_mul_matrix N A' B) = N * N"
    using len by (simp_all add: after_mul_const_def after_mul_vect_def after_mul_matrix_def)
  have "matrix_add_const N A val = Some A'"
    "matrix_mul_const N C A' val = Some (after_mul_const A' val)"
    "matrix_mul_vect N (after_mul_const A' val) A' B = Some (after_mul_vect N A' B val)"
    "matrix_mul_matrix N (after_mul_vect N A' B val) A' B = Some (after_mul_matrix N A' B)"
    "matrix_mul_matrix_bitextract N (after_mul_matrix N A' B) A' B = Some (after_bitextract N A' B)"
    "matrix_add_const N A' (- val) = Some A"
    using len len' assms(1,2)
    by (simp_all add: matrix_add_const_eq matrix_mul_const_eq matrix_mul_vect_eq matrix_mul_matrix_eq
        matrix_mul_matrix_bitextract_eq after_mul_const_def after_mul_vect_def after_mul_matrix_def
        after_bitextract_def A' comp_def flip: diff_conv_add_uminus)
  with assms(4-7) show ?thesis by (simp add: matrix_test_def)
qed

lemma matrix_test_fresh:
  assumes "length A = N * N" "length C = N * N" "length D = N * N"
    and "matrix_test N C A B val = Some (r, C', A')"
  shows "A' = A \<and> matrix_test N D A B val = Some (r, C', A)"
proof -
  have add: "matrix_add_const N A val = Some (map (\<lambda>a. a + val) A)"
    "matrix_add_const N (map (\<lambda>a. a + val) A) (- val) = Some A"
    using assms(1) by (simp_all add: matrix_add_const_eq comp_def flip: diff_conv_add_uminus)
  have mul: "matrix_mul_const N E (map (\<lambda>a. a + val) A) val = Some (after_mul_const (map (\<lambda>a. a + val) A) val)"
    if "length E = N * N" for E
    using assms(1) that by (simp add: matrix_mul_const_eq after_mul_const_def)
  show ?thesis
    using assms(4) unfolding matrix_test_def
    by (auto simp: add mul[OF assms(2)] mul[OF assms(3)] opt_simps Let_def)
qed

text \<open>No operation changes the size of the result matrix.\<close>

lemma accum_length: "accum C k x = Some D \<Longrightarrow> length D = length C"
  by (auto simp: accum_def opt_simps)

lemma matrix_mul_vect_length: "matrix_mul_vect N C A B = Some D \<Longrightarrow> length D = length C"
  unfolding matrix_mul_vect_def
  by (erule for_loop_keeps[where m = length, rotated]) (auto simp: opt_simps dest!: for_loop_keeps[where m = length, rotated] accum_length)

lemma matrix_mul_matrix_length: "matrix_mul_matrix N C A B = Some D \<Longrightarrow> length D = length C"
  unfolding matrix_mul_matrix_def
  by (erule for_loop_keeps[where m = length, rotated], erule for_loop_keeps[where m = length, rotated])
     (auto simp: opt_simps dest!: for_loop_keeps[where m = length, rotated] accum_length)

lemma matrix_mul_matrix_bitextract_length: "matrix_mul_matrix_bitextract N C A B = Some D \<Longrightarrow> length D = length C"
  unfolding matrix_mul_matrix_bitextract_def
  by (erule for_loop_keeps[where m = length, rotated], erule for_loop_keeps[where m = length, rotated])
     (auto simp: opt_simps Let_def dest!: for_loop_keeps[where m = length, rotated])

lemma matrix_test_length:
  assumes "length A = N * N" "length C = N * N" "matrix_test N C A B val = Some (r, C', A')"
  shows "length C' = N * N"
proof -
  have "matrix_mul_const N C (map (\<lambda>a. a + val) A) val = Some D \<Longrightarrow> length D = N * N" for D
    using assms(1,2) by (auto simp: matrix_mul_const_eq)
  with assms(3) show ?thesis
    unfolding matrix_test_def matrix_add_const_eq[OF assms(1)]
    by (auto simp: opt_simps Let_def dest!: matrix_mul_vect_length matrix_mul_matrix_length matrix_mul_matrix_bitextract_length)
qed

text \<open>
  C32. The outcome of \<open>matrix_test\<close>, an overflow included, does not depend on what \<open>C\<close> holds beforehand, and when it
  returns, matrix \<open>A\<close> is back to its original contents and \<open>C\<close> has kept its size, for every dimension, matrices and value.
\<close>

theorem matrix_test_restores:
  assumes "length A = N * N" "length C = N * N" "length D = N * N"
  shows "matrix_test N D A B val = matrix_test N C A B val \<and>
    (\<forall>r C' A'. matrix_test N C A B val = Some (r, C', A') \<longrightarrow> A' = A \<and> length C' = N * N)"
proof -
  have fresh: "matrix_test N F A B val = Some x \<Longrightarrow> matrix_test N E A B val = Some x"
    if "length F = N * N" "length E = N * N" for E F x
    using matrix_test_fresh[OF assms(1) that] by (cases x) fastforce
  have "matrix_test N D A B val = matrix_test N C A B val"
    using fresh[OF assms(2,3)] fresh[OF assms(3,2)] by (metis not_None_eq)
  then show ?thesis using matrix_test_fresh[OF assms(1,2,2)] matrix_test_length[OF assms(1,2)] by blast
qed

theorem matrix_test_restores_witness:
  "\<exists>r C'. matrix_test 1 [0] [3] [5] 2 = Some (r, C', [3]) \<and> matrix_test 1 [7] [3] [5] 2 = Some (r, C', [3]) \<and> length C' = 1"
proof -
  have "matrix_test 1 [0] [3] [5] 2 \<noteq> None" by code_simp
  then obtain r C' A' where m: "matrix_test 1 [0] [3] [5] 2 = Some (r, C', A')" by auto
  show ?thesis using matrix_test_restores[of "[3]" 1 "[0]" "[7]" "[5]" 2] m by simp
qed

section \<open>The initial matrices\<close>

subsection \<open>The dimension\<close>

lemma size_loop_finds:
  assumes "8 * n\<^sup>2 < unat blksize" "unat blksize \<le> 8 * (Suc n)\<^sup>2" "8 * (Suc n)\<^sup>2 < 2 ^ 32" "i \<le> Suc n"
    and "i = 0 \<or> 8 * (i - 1)\<^sup>2 < unat blksize"
  shows "size_loop blksize (of_nat i) (of_nat (8 * i\<^sup>2)) = Some (of_nat (Suc n))"
  using assms(4,5)
proof (induction "Suc n - i" arbitrary: i)
  case 0
  then have i: "i = Suc n" by simp
  have "unat (of_nat (8 * i\<^sup>2) :: ee_u32) = 8 * i\<^sup>2"
    using assms(3) i by (intro unat_of_nat_s32) simp
  then have "\<not> (of_nat (8 * i\<^sup>2) :: ee_u32) < blksize"
    unfolding word_less_nat_alt using assms(2) i by simp
  then show ?case by (subst size_loop.simps) (simp add: i)
next
  case (Suc x)
  then have i: "i \<le> n" by simp
  then have le: "i\<^sup>2 \<le> n\<^sup>2" by (intro power_mono) auto
  then have "8 * i\<^sup>2 < unat blksize" using assms(1) by linarith
  moreover have "n\<^sup>2 \<le> (Suc n)\<^sup>2" by (intro power_mono) auto
  with le assms(3) have "8 * i\<^sup>2 < 2 ^ 32" by linarith
  then have "unat (of_nat (8 * i\<^sup>2) :: ee_u32) = 8 * i\<^sup>2" by (intro unat_of_nat_s32) simp
  ultimately have "(of_nat (8 * i\<^sup>2) :: ee_u32) < blksize" unfolding word_less_nat_alt by simp
  moreover have "(of_nat (8 * (Suc i)\<^sup>2) :: ee_u32) = (of_nat i + 1) * (of_nat i + 1) * 2 * 4"
    by (simp add: power2_eq_square algebra_simps)
  moreover have "size_loop blksize (of_nat (Suc i)) (of_nat (8 * (Suc i)\<^sup>2)) = Some (of_nat (Suc n))"
    using Suc \<open>8 * i\<^sup>2 < unat blksize\<close> i by (intro Suc.hyps(1)) auto
  ultimately show ?case
    by (subst size_loop.simps) (simp add: add.commute)
qed

lemma dimension_exists:
  assumes "0 < (b :: nat)"
  shows "\<exists>n. 8 * n\<^sup>2 < b \<and> b \<le> 8 * (Suc n)\<^sup>2"
proof -
  let ?m = "LEAST m. b \<le> 8 * m\<^sup>2"
  have "b \<le> 8 * b\<^sup>2" by (simp add: power2_eq_square)
  then have m: "b \<le> 8 * ?m\<^sup>2" by (rule LeastI)
  then obtain n where n: "?m = Suc n" using assms by (cases ?m) auto
  have "\<not> b \<le> 8 * n\<^sup>2" using not_less_Least[of n "\<lambda>m. b \<le> 8 * m\<^sup>2"] n by simp
  with m n show ?thesis by (intro exI[of _ n]) simp
qed

subsection \<open>The values\<close>

text \<open>The variable \<open>seed\<close> after \<open>k\<close> elements, as an integer.\<close>

fun seed_at :: "int \<Rightarrow> nat \<Rightarrow> int" where
  "seed_at s 0 = s"
| "seed_at s (Suc k) = sgn (seed_at s k) * (int (Suc k) * \<bar>seed_at s k\<bar> mod 65536)"

lemma seed_at_bound: "0 < k \<Longrightarrow> \<bar>seed_at s k\<bar> < 65536"
  by (cases k) (auto simp: abs_mult sgn_if)

text \<open>The seed is multiplied by \<open>k!\<close>, so from the eighteenth element on all its 16 low bits are 0.\<close>

lemma seed_at_cong: "65536 dvd seed_at s k - s * fact k"
proof (induction k)
  case (Suc k)
  let ?x = "seed_at s k"
  let ?a = "int (Suc k) * \<bar>?x\<bar>"
  have "65536 dvd ?a mod 65536 - ?a" by (subst mod_eq_dvd_iff[symmetric]) simp
  then have "65536 dvd sgn ?x * (?a mod 65536 - ?a)" by simp
  also have "sgn ?x * (?a mod 65536 - ?a) = sgn ?x * (?a mod 65536) - int (Suc k) * (sgn ?x * \<bar>?x\<bar>)"
    by (simp only: right_diff_distrib ac_simps)
  also have "\<dots> = seed_at s (Suc k) - int (Suc k) * ?x"
    by (simp only: seed_at.simps sgn_mult_abs)
  finally have "65536 dvd seed_at s (Suc k) - int (Suc k) * ?x" .
  moreover have "65536 dvd int (Suc k) * (?x - s * fact k)" using Suc by simp
  ultimately have "65536 dvd (seed_at s (Suc k) - int (Suc k) * ?x) + int (Suc k) * (?x - s * fact k)"
    by (rule dvd_add)
  then show ?case by (simp add: algebra_simps)
qed simp

lemma seed_at_zero: "18 \<le> k \<Longrightarrow> seed_at s k = 0"
proof -
  assume k: "18 \<le> k"
  have "(65536 :: int) dvd fact 18" by (simp add: fact_numeral)
  also have "(fact 18 :: int) dvd fact k" using k by (rule fact_dvd)
  finally have "65536 dvd s * fact k" by simp
  from dvd_add[OF seed_at_cong[of s k] this] have "65536 dvd seed_at s k" by simp
  with seed_at_bound[of k s] k show "seed_at s k = 0"
    using zdvd_not_zless[of "\<bar>seed_at s k\<bar>" 65536] by auto
qed

definition B_val :: "int \<Rightarrow> nat \<Rightarrow> ee_s16" where
  "B_val s k = word_of_int (seed_at s (Suc k) + int (Suc k))"

definition A_val :: "int \<Rightarrow> nat \<Rightarrow> ee_s16" where
  "A_val s k = (B_val s k + of_nat (Suc k)) AND 0xff"

lemma ucast_word_of_int_s32: "ucast (word_of_int i :: ee_s32) = (word_of_int i :: ee_s16)"
  by (rule bit_word_eqI) (simp add: bit_simps)

lemma matrix_clip_False: "matrix_clip x False = x"
proof -
  have "(0xffff :: ee_s16) = - 1" by simp
  then show ?thesis by (simp only: matrix_clip_def if_False and.right_neutral)
qed

lemma init_elem_eq:
  assumes "sint w = seed_at s k" "k < 2 ^ 30" "k < length A" "k < length B" "in_s32 s"
  shows "init_elem k (w, word_of_int (int (Suc k)), A, B) =
    Some (word_of_int (seed_at s (Suc k)), word_of_int (int (Suc (Suc k))), A[k := A_val s k], B[k := B_val s k])"
proof -
  let ?o = "word_of_int (int (Suc k)) :: ee_s32"
  have o: "sint ?o = int (Suc k)" by (rule sint_of_int_s32) (use assms(2) in \<open>simp add: in_s32_def\<close>)
  have prod: "in_s32 (int (Suc k) * seed_at s k)"
  proof -
    have "\<bar>int (Suc k) * seed_at s k\<bar> \<le> 18 * 65536" if "0 < k"
    proof (cases "18 \<le> k")
      case False
      then show ?thesis using seed_at_bound[OF that, of s] unfolding abs_mult by (intro mult_mono) auto
    qed (simp add: seed_at_zero)
    then show ?thesis using assms(5) by (cases "k = 0") (auto simp: in_s32_def abs_le_iff)
  qed
  then have m: "mul_s32 ?o w = Some (word_of_int (int (Suc k) * seed_at s k))"
    "sint (word_of_int (int (Suc k) * seed_at s k) :: ee_s32) = int (Suc k) * seed_at s k"
    using mul_s32_in[of ?o w] assms(1) o by (simp_all only: sint_of_int_s32)
  have r: "rem_s32 (word_of_int (int (Suc k) * seed_at s k)) 65536 = word_of_int (seed_at s (Suc k))"
    unfolding rem_s32_def m(2) by (simp add: sgn_mult abs_mult)
  have b: "\<bar>seed_at s (Suc k)\<bar> < 65536" by (rule seed_at_bound) simp
  then have sd: "sint (word_of_int (seed_at s (Suc k)) :: ee_s32) = seed_at s (Suc k)"
    by (intro sint_of_int_s32) (auto simp: in_s32_def)
  define d where "d = seed_at s (Suc k)"
  have "in_s32 (d + int (Suc k))" using b assms(2) unfolding d_def[symmetric] by (auto simp: in_s32_def)
  then have v: "add_s32 (word_of_int (seed_at s (Suc k))) ?o = Some (word_of_int (seed_at s (Suc k) + int (Suc k)))"
    using add_s32_in[of "word_of_int (seed_at s (Suc k))" ?o] unfolding sd o d_def by blast
  have v2: "add_s32 (scast x) ?o = Some (word_of_int (sint x + int (Suc k)))" for x :: ee_s16
    using add_s32_in[of "scast x" ?o] sint_greater_eq[of x] sint_less[of x] assms(2) unfolding o sint_scast_s16
    by (auto simp: in_s32_def)
  have n: "add_s32 ?o 1 = Some (word_of_int (int (Suc (Suc k))))"
    using add_s32_in[of ?o 1] assms(2) unfolding o by (simp add: in_s32_def)
  have x: "word_of_int (sint x + int (Suc k)) = x + of_nat (Suc k)" for x :: ee_s16
    by simp
  show ?thesis
    unfolding init_elem_def prod.case m(1) bind.bind_lunit Let_def r v v2 n ucast_word_of_int_s32
      matrix_clip_False x
    using assms(3,4)
    by (simp only: wr_in bind.bind_lunit Let_def v2 n ucast_word_of_int_s32 x
        matrix_clip_def if_True A_val_def B_val_def)
qed

lemma init_matrix_loop_eq:
  assumes "n * n < 2 ^ 30" "length A = n * n" "length B = n * n" "in_s32 s"
  shows "for_loop 0 n (\<lambda>i. for_loop 0 n (\<lambda>j. init_elem (i * n + j))) (word_of_int s, 1, A, B) =
    Some (word_of_int (seed_at s (n * n)), word_of_int (int (Suc (n * n))),
      map (A_val s) [0..<n * n], map (B_val s) [0..<n * n])"
proof -
  let ?I = "\<lambda>k v. v = (word_of_int (seed_at s k) :: ee_s32, word_of_int (int (Suc k)) :: ee_s32,
      map (A_val s) [0..<k] @ drop k A, map (B_val s) [0..<k] @ drop k B)"
  have "\<exists>v. for_loop 0 (n * n) init_elem (word_of_int s, 1, A, B) = Some v \<and> ?I (0 + n * n) v"
  proof (rule for_loop_rule[where I = ?I])
    fix i v assume i: "0 \<le> i" "i < 0 + n * n" and v: "?I i v"
    have fill: "(map f [0..<i] @ drop i xs)[i := f i] = map f [0..<Suc i] @ drop (Suc i) xs"
      if "length xs = n * n" for xs :: "ee_s16 list" and f
      using i that by (simp add: list_update_append Cons_nth_drop_Suc[symmetric])
    have "in_s32 (seed_at s i)"
      using assms(4) seed_at_bound[of i s] by (cases "i = 0") (auto simp: in_s32_def)
    then have "sint (word_of_int (seed_at s i) :: ee_s32) = seed_at s i" by (rule sint_of_int_s32)
    from init_elem_eq[OF this _ _ _ assms(4), of "map (A_val s) [0..<i] @ drop i A" "map (B_val s) [0..<i] @ drop i B"]
    show "\<exists>v'. init_elem i v = Some v' \<and> ?I (Suc i) v'"
      using i assms(1-3) unfolding v fill[OF assms(2)] fill[OF assms(3)] by simp
  qed simp
  moreover have "for_loop 0 n (\<lambda>i. for_loop 0 n (\<lambda>j. init_elem (i * n + j))) v = for_loop 0 (n * n) init_elem v" for v
    by (rule for_loop_nested) simp
  ultimately show ?thesis using assms(2,3) by simp
qed

definition init_seed :: "ee_s32 \<Rightarrow> int" where
  "init_seed seed = (if seed = 0 then 1 else sint seed)"

lemma core_init_matrix_eq:
  assumes "8 * n\<^sup>2 < unat blksize" "unat blksize \<le> 8 * (Suc n)\<^sup>2" "8 * (Suc n)\<^sup>2 < 2 ^ 32"
    and "length A = n * n" "length B = n * n"
  shows "core_init_matrix blksize memblk seed A B C = Some (of_nat n,
    (align_mem memblk, align_mem memblk + of_nat (2 * n\<^sup>2), align_mem (align_mem memblk + of_nat (4 * n\<^sup>2))),
    \<lparr>mat_N = n, mat_A = map (A_val (init_seed seed)) [0..<n * n],
     mat_B = map (B_val (init_seed seed)) [0..<n * n], mat_C = C\<rparr>)"
proof -
  have i: "size_loop blksize 0 0 = Some (of_nat (Suc n))"
    using size_loop_finds[OF assms(1-3), of 0] by simp
  have nn: "n * n < 2 ^ 30" "n < 2 ^ 32"
    using assms(3) less_le_trans[of n "Suc (n * n)" "2 ^ 32"] by (auto simp: power2_eq_square)
  have n: "(of_nat (Suc n) :: ee_u32) - 1 = of_nat n" "unat (of_nat n :: ee_u32) = n"
    using nn(2) by (simp_all add: unat_of_nat_s32)
  have s: "(if seed = 0 then 1 else seed) = word_of_int (init_seed seed)" "in_s32 (init_seed seed)"
    by (auto simp: init_seed_def) (simp add: in_s32_def)
  show ?thesis
    unfolding core_init_matrix_def Let_def i bind.bind_lunit n s(1) init_matrix_loop_eq[OF nn(1) assms(4,5) s(2)]
    by (simp add: power2_eq_square algebra_simps)
qed

section \<open>No overflow on the standard data set\<close>

text \<open>
  With the 2000 bytes of the standard run every algorithm gets 666 bytes, so the dimension is 9. All
  values are bounded, and from the eighteenth element on \<open>B\<close> holds small positive numbers.
\<close>

definition alpha :: "int \<Rightarrow> nat \<Rightarrow> int" where
  "alpha s k = sint (A_val s k)"

lemma uint_and_0xff: "uint (x AND 0xff :: ee_s16) = uint x mod 256"
proof -
  have "uint (x AND mask 8) = take_bit 8 (uint x)"
    by (simp add: unsigned_and_eq unsigned_take_bit_eq flip: take_bit_eq_mask)
  moreover have "(mask 8 :: ee_s16) = 0xff" by (simp add: mask_eq_exp_minus_1)
  ultimately show ?thesis by (simp add: take_bit_eq_mod)
qed

lemma alpha_eq: "alpha s k = uint (B_val s k + of_nat (Suc k)) mod 256"
  unfolding alpha_def A_val_def
  by (subst sint_uint_s16) (simp_all add: uint_and_0xff order_less_le_trans[OF pos_mod_bound] del: of_nat_Suc)

lemma alpha_bounds: "0 \<le> alpha s k" "alpha s k \<le> 255"
  unfolding alpha_eq using pos_mod_bound[of 256] by (simp_all add: zle_diff1_eq[symmetric] del: of_nat_Suc)

lemma B_val_late: "17 \<le> k \<Longrightarrow> B_val s k = word_of_int (int (Suc k))"
  by (simp add: B_val_def seed_at_zero del: seed_at.simps)

lemma alpha_late: "17 \<le> k \<Longrightarrow> k < 81 \<Longrightarrow> alpha s k = 2 * int (Suc k)"
proof -
  assume k: "17 \<le> k" "k < 81"
  have b: "B_val s k + of_nat (Suc k) = word_of_int (2 * int (Suc k))"
    unfolding B_val_late[OF k(1)] by simp
  have u: "uint (word_of_int (2 * int (Suc k)) :: ee_s16) = 2 * int (Suc k)"
    by (subst uint_word_of_int_eq, subst take_bit_int_eq_self) (use k(2) in auto)
  show ?thesis unfolding alpha_eq b u using k by simp
qed

lemma shifted_alpha:
  assumes "0 \<le> sint val" "sint val \<le> 255"
  shows "sint (A_val s k + val) = alpha s k + sint val"
proof -
  have "A_val s k + val = word_of_int (alpha s k + sint val)" by (simp add: alpha_def)
  moreover have "sint (word_of_int (alpha s k + sint val) :: ee_s16) = alpha s k + sint val"
    using alpha_bounds[of s k] assms
    by (simp add: sint_sbintrunc' signed_take_bit_int_eq_self del: of_int_add)
  ultimately show ?thesis by (simp del: of_int_add)
qed

lemma sum_square: "(\<Sum>k<m * N. f (k div N) (k mod N)) = (\<Sum>i<m. \<Sum>j<N. f i j)" for f :: "nat \<Rightarrow> nat \<Rightarrow> int"
proof (induction m)
  case (Suc m)
  have "(\<Sum>k<Suc m * N. f (k div N) (k mod N))
      = (\<Sum>k<m * N. f (k div N) (k mod N)) + (\<Sum>k\<in>{m * N..<m * N + N}. f (k div N) (k mod N))"
    by (simp add: lessThan_atLeast0 add.commute sum.atLeastLessThan_concat)
  also have "(\<Sum>k\<in>{m * N..<m * N + N}. f (k div N) (k mod N)) = (\<Sum>j<N. f m j)"
    unfolding sum.atLeastLessThan_shift_0[of _ "m * N"] lessThan_atLeast0 by (rule sum.cong) auto
  finally show ?case using Suc by simp
qed simp

lemma neg_part_sum: "neg_part (\<Sum>k\<in>S. f k) \<le> (\<Sum>k\<in>S. neg_part (f k))"
proof -
  have "- (\<Sum>k\<in>S. f k) \<le> (\<Sum>k\<in>S. neg_part (f k))"
    unfolding sum_negf[symmetric] by (rule sum_mono) simp
  then show ?thesis using sum_nonneg[of S "\<lambda>k. neg_part (f k)"] by (simp add: neg_part_def[of "\<Sum>k\<in>S. f k"])
qed

lemma neg_part_mult: "0 \<le> a \<Longrightarrow> neg_part (a * b) = a * neg_part b"
  by (auto simp: neg_part_def max_def mult_le_0_iff)

lemma neg_part_le: "\<bar>x\<bar> \<le> b \<Longrightarrow> neg_part x \<le> b"
  by (auto simp: neg_part_def)

lemma neg_part_0: "0 \<le> x \<Longrightarrow> neg_part x = 0"
  by (simp add: neg_part_def)

lemma B_val_neg_part: "neg_part (sint (B_val s k)) \<le> (if k < 17 then 32768 else 0)" if "k < 81"
proof (cases "k < 17")
  case True
  then show ?thesis using sint_greater_eq[of "B_val s k"] by (simp add: neg_part_def)
next
  case False
  then have "sint (B_val s k) = int (Suc k)"
    using that sint_of_int_s16[of "int (Suc k)"] by (simp add: B_val_late)
  with False show ?thesis by (simp add: neg_part_def)
qed

text \<open>The negative elements of the matrix product, added up.\<close>

lemma column_bound:
  assumes "c \<le> 1" "0 \<le> v" "v \<le> 255"
  shows "(\<Sum>i<9. alpha s (i * 9 + c) + v) \<le> 3463"
proof -
  have l: "alpha s (i * 9 + c) = 2 * int (Suc (i * 9 + c))" if "2 \<le> i" "i < 9" for i
    using that assms(1) by (intro alpha_late) auto
  have "(\<Sum>i<9. alpha s (i * 9 + c) + v) = (alpha s c + v) + (alpha s (9 + c) + v)
      + (\<Sum>i\<in>{2..<9}. 2 * int (Suc (i * 9 + c)) + v)"
  proof -
    have "{..<9} = {0, 1} \<union> {2..<9::nat}" by auto
    then have "(\<Sum>i<9. alpha s (i * 9 + c) + v) = (alpha s c + v) + (alpha s (9 + c) + v)
        + (\<Sum>i\<in>{2..<9}. alpha s (i * 9 + c) + v)" by (simp add: sum.union_disjoint)
    also have "(\<Sum>i\<in>{2..<9}. alpha s (i * 9 + c) + v) = (\<Sum>i\<in>{2..<9}. 2 * int (Suc (i * 9 + c)) + v)"
      using l by (intro sum.cong) auto
    finally show ?thesis .
  qed
  also have "(\<Sum>i\<in>{2..<9::nat}. 2 * int (Suc (i * 9 + c)) + v) = 644 + 14 * int c + 7 * v"
    by (simp add: eval_nat_numeral)
  finally show ?thesis using assms alpha_bounds[of s c] alpha_bounds[of s "9 + c"] by simp
qed

lemma sum_triple_swap:
  fixes a :: "nat \<Rightarrow> nat \<Rightarrow> int"
  shows "(\<Sum>i\<in>I. \<Sum>j\<in>J. \<Sum>l\<in>L. a i l * b l j) = (\<Sum>l\<in>L. (\<Sum>i\<in>I. a i l) * (\<Sum>j\<in>J. b l j))"
proof -
  have "(\<Sum>i\<in>I. \<Sum>j\<in>J. \<Sum>l\<in>L. a i l * b l j) = (\<Sum>i\<in>I. \<Sum>l\<in>L. \<Sum>j\<in>J. a i l * b l j)"
    by (intro sum.cong refl sum.swap)
  also have "\<dots> = (\<Sum>l\<in>L. \<Sum>i\<in>I. a i l * (\<Sum>j\<in>J. b l j))"
    unfolding sum_distrib_left by (rule sum.swap)
  finally show ?thesis by (simp only: sum_distrib_right)
qed

lemma product_neg_bound:
  assumes "0 \<le> v" "v \<le> 255"
  shows "(\<Sum>i<9. \<Sum>j<9. neg_part (\<Sum>l<9. (alpha s (i * 9 + l) + v) * sint (B_val s (l * 9 + j)))) \<le> 2 ^ 31"
proof -
  let ?a = "\<lambda>i l. alpha s (i * 9 + l) + v" and ?b = "\<lambda>m :: nat. if m < 17 then 32768 else (0::int)"
  have pos: "0 \<le> ?a i l" for i l using alpha_bounds(1)[of s "i * 9 + l"] assms(1) by simp
  have "(\<Sum>i<9. \<Sum>j<9. neg_part (\<Sum>l<9. ?a i l * sint (B_val s (l * 9 + j))))
      \<le> (\<Sum>i<9. \<Sum>j<9. \<Sum>l<9. ?a i l * ?b (l * 9 + j))"
  proof (intro sum_mono)
    fix i j :: nat assume ij: "i \<in> {..<9}" "j \<in> {..<9}"
    have "neg_part (\<Sum>l<9. ?a i l * sint (B_val s (l * 9 + j))) \<le> (\<Sum>l<9. neg_part (?a i l * sint (B_val s (l * 9 + j))))"
      by (rule neg_part_sum)
    also have "\<dots> \<le> (\<Sum>l<9. ?a i l * ?b (l * 9 + j))"
      using ij pos B_val_neg_part[of _ s] by (intro sum_mono) (simp add: neg_part_mult mult_left_mono del: mult_le_cancel_left)
    finally show "neg_part (\<Sum>l<9. ?a i l * sint (B_val s (l * 9 + j))) \<le> (\<Sum>l<9. ?a i l * ?b (l * 9 + j))" .
  qed
  also have "\<dots> = (\<Sum>l<9. (\<Sum>i<9. ?a i l) * (\<Sum>j<9. ?b (l * 9 + j)))"
    by (rule sum_triple_swap)
  also have "\<dots> = (\<Sum>i<9. ?a i 0) * (9 * 32768) + (\<Sum>i<9. ?a i 1) * (8 * 32768)"
  proof -
    have "(\<Sum>j<9. ?b (l * 9 + j)) = (if l = 0 then 9 * 32768 else if l = 1 then 8 * 32768 else 0)" for l
    proof -
      have "\<not> l * 9 + j < 17" if "2 \<le> l" for j using that by simp
      then have "(\<Sum>j<9. ?b (l * 9 + j)) = 0" if "2 \<le> l" using that by simp
      moreover have "(\<Sum>j<9. ?b (0 * 9 + j)) = 9 * 32768" "(\<Sum>j<9. ?b (1 * 9 + j)) = 8 * 32768"
        by (simp_all add: eval_nat_numeral)
      ultimately show ?thesis by (cases "l = 0"; cases "l = 1") auto
    qed
    then show ?thesis by (simp add: eval_nat_numeral)
  qed
  also have "\<dots> \<le> 3463 * (9 * 32768) + 3463 * (8 * 32768)"
    using column_bound[of 0 v s] column_bound[of 1 v s] assms by (intro add_mono mult_right_mono) auto
  finally show ?thesis by simp
qed

lemma sum_split_at: "(\<Sum>k<m + n. f k) = (\<Sum>k<m. f k) + (\<Sum>k<n. f (m + k))" for f :: "nat \<Rightarrow> int"
  by (induction n) (auto simp: add.assoc)

text \<open>The bit-extracted sums are small, so they are not negative as signed numbers.\<close>

lemma bit_extract_less:
  "uint (bit_extract x m n) < 2 ^ n" if "n < 32"
proof -
  have "NOT (push_bit n (0xffffffff :: ee_u32)) = mask n"
  proof -
    have "(0xffffffff :: ee_u32) = - 1" by simp
    then have "push_bit n (0xffffffff :: ee_u32) = NOT (mask n)" by (simp only: push_bit_minus_one_eq_not_mask)
    then show ?thesis by simp
  qed
  then have "bit_extract x m n = take_bit n (signed_drop_bit m x)"
    unfolding bit_extract_def by (simp add: take_bit_eq_mask)
  then show ?thesis using that by (simp add: unsigned_take_bit_eq)
qed

lemma bit_term_less: "uint (bit_term a b) \<le> 1905"
proof -
  let ?p = "bit_extract (scast a * scast b) 2 4" and ?q = "bit_extract (scast a * scast b) 5 7"
  have "uint ?p \<le> 15" "uint ?q \<le> 127" using bit_extract_less[of 4 "scast a * scast b" 2]
    bit_extract_less[of 7 "scast a * scast b" 5] by simp_all
  then have "uint ?p * uint ?q \<le> 15 * 127" by (intro mult_mono) auto
  moreover have "uint (?p * ?q) \<le> uint ?p * uint ?q"
    unfolding uint_word_ariths by (intro zmod_le_nonneg_dividend mult_nonneg_nonneg) auto
  ultimately show ?thesis by (simp add: bit_term_def)
qed

lemma sint_bit_dot:
  assumes "N < 2 ^ 16"
  shows "0 \<le> sint (bit_dot N A B i j)"
proof -
  have "uint (\<Sum>k<n. bit_term (f k) (g k)) \<le> 1905 * int n" for n and f g :: "nat \<Rightarrow> ee_s16"
  proof (induction n)
    case (Suc n)
    have "uint ((\<Sum>k<n. bit_term (f k) (g k)) + bit_term (f n) (g n))
        \<le> uint (\<Sum>k<n. bit_term (f k) (g k)) + uint (bit_term (f n) (g n))"
      unfolding uint_word_ariths by (intro zmod_le_nonneg_dividend add_nonneg_nonneg) auto
    with Suc bit_term_less[of "f n" "g n"] show ?case by simp
  qed simp
  from this[of "\<lambda>k. A ! (i * N + k)" "\<lambda>k. B ! (k * N + j)" N] have "uint (bit_dot N A B i j) < 2 ^ 31"
    using assms by (simp add: bit_dot_def)
  then show ?thesis by (simp only: sint_uint_s32 unsigned_greater_eq)
qed

lemma std_elem:
  assumes "0 \<le> sint val" "sint val \<le> 255" "k < 81"
  shows "sint (map (\<lambda>k. A_val s k + val) [0..<81] ! k) = alpha s k + sint val"
    "map (B_val s) [0..<81] ! k = B_val s k"
  using assms by (simp_all add: shifted_alpha[OF assms(1,2)])

lemma std_fits:
  assumes "0 \<le> sint val" "sint val \<le> 255"
  shows "fits 9 510 32768 (map (\<lambda>k. A_val s k + val) [0..<81]) (map (B_val s) [0..<81])"
proof -
  have "\<bar>sint (A_val s k + val)\<bar> \<le> 510" for k
    using shifted_alpha[OF assms, of s k] alpha_bounds[of s k] assms by simp
  moreover have "\<bar>sint x\<bar> \<le> 32768" for x :: ee_s16
    using sint_greater_eq[of x] sint_less[of x] by simp
  ultimately show ?thesis by (auto simp: fits_def)
qed

lemma std_sums:
  assumes "0 \<le> sint val" "sint val \<le> 255"
    and A': "A' = map (\<lambda>k. A_val s k + val) [0..<81]" and B: "B = map (B_val s) [0..<81]"
  shows "(\<Sum>k<9 * 9. neg_part (sint (after_mul_const A' val ! k))) \<le> 2 ^ 31"
    and "(\<Sum>k<9 * 9. neg_part (sint (after_mul_vect 9 A' B val ! k))) \<le> 2 ^ 31"
    and "(\<Sum>k<9 * 9. neg_part (sint (after_mul_matrix 9 A' B ! k))) \<le> 2 ^ 31"
    and "(\<Sum>k<9 * 9. neg_part (sint (after_bitextract 9 A' B ! k))) \<le> 2 ^ 31"
proof -
  have el: "sint (A' ! k) = alpha s k + sint val" "B ! k = B_val s k" if "k < 81" for k
    using std_elem[OF assms(1,2) that] by (simp_all add: A' B)
  have lA: "length A' = 81" by (simp add: A')
  have fits: "fits 9 510 32768 A' B" using std_fits[OF assms(1,2)] by (simp only: A' B)
  have mc: "neg_part (sint (after_mul_const A' val ! k)) = 0" if "k < 81" for k
    using that lA el(1)[OF that] alpha_bounds(1)[of s k] assms(1)
    by (simp add: after_mul_const_def sint_scast_mult neg_part_0)
  then show "(\<Sum>k<9 * 9. neg_part (sint (after_mul_const A' val ! k))) \<le> 2 ^ 31" by simp
  have "neg_part (sint (after_mul_vect 9 A' B val ! k)) \<le> 150405120" if "k < 9" for k
  proof -
    have "in_s32 (dotv 9 A' B k)" using acc_loop_dotv(2)[OF fits that] .
    then have "sint (after_mul_vect 9 A' B val ! k) = dotv 9 A' B k"
      using that unfolding after_mul_vect_def by (simp add: nth_append sint_of_int_s32)
    moreover have "\<bar>dotv 9 A' B k\<bar> \<le> (\<Sum>l<9::nat. 510 * 32768)"
      unfolding dotv_def
      by (rule order_trans[OF sum_abs], rule sum_mono, rule fits_term[OF fits]) (use that in auto)
    ultimately show ?thesis by (intro neg_part_le) simp
  qed
  then have "(\<Sum>k<9. neg_part (sint (after_mul_vect 9 A' B val ! k))) \<le> (\<Sum>k<9::nat. 150405120)"
    by (intro sum_mono) simp
  moreover have "after_mul_vect 9 A' B val ! (9 + k) = after_mul_const A' val ! (9 + k)" if "k < 72" for k
    using that lA by (simp add: after_mul_vect_def nth_append after_mul_const_def)
  then have "(\<Sum>k<72. neg_part (sint (after_mul_vect 9 A' B val ! (9 + k)))) = 0"
    using mc by (intro sum.neutral) simp
  ultimately show "(\<Sum>k<9 * 9. neg_part (sint (after_mul_vect 9 A' B val ! k))) \<le> 2 ^ 31"
    using sum_split_at[of "\<lambda>k. neg_part (sint (after_mul_vect 9 A' B val ! k))" 9 72] by simp
  have "sint (after_mul_matrix 9 A' B ! k) = dot 9 A' B (k div 9) (k mod 9)" if "k < 9 * 9" for k
    using acc_loop_dot(2)[OF fits, of "k div 9" "k mod 9"] that
    unfolding after_mul_matrix_def by (simp add: sint_of_int_s32)
  then have "(\<Sum>k<9 * 9. neg_part (sint (after_mul_matrix 9 A' B ! k)))
      = (\<Sum>i<9. \<Sum>j<9. neg_part (dot 9 A' B i j))"
    by (simp flip: sum_square[of "\<lambda>i j. neg_part (dot 9 A' B i j)" 9 9])
  also have "\<dots> = (\<Sum>i<9. \<Sum>j<9. neg_part (\<Sum>l<9. (alpha s (i * 9 + l) + sint val) * sint (B_val s (l * 9 + j))))"
    by (intro sum.cong refl arg_cong[of _ _ neg_part]) (simp add: dot_def el)
  finally show "(\<Sum>k<9 * 9. neg_part (sint (after_mul_matrix 9 A' B ! k))) \<le> 2 ^ 31"
    using product_neg_bound[OF assms(1,2), of s] by simp
  have "neg_part (sint (after_bitextract 9 A' B ! k)) = 0" if "k < 81" for k
    using that by (simp add: after_bitextract_def neg_part_0 sint_bit_dot)
  then show "(\<Sum>k<9 * 9. neg_part (sint (after_bitextract 9 A' B ! k))) \<le> 2 ^ 31" by simp
qed

lemma matrix_test_standard:
  assumes "0 \<le> sint val" "sint val \<le> 255" "length C = 81"
  shows "\<exists>r C'. length C' = 81 \<and>
    matrix_test 9 C (map (A_val s) [0..<81]) (map (B_val s) [0..<81]) val = Some (r, C', map (A_val s) [0..<81])"
proof -
  let ?A = "map (A_val s) [0..<81]" and ?B = "map (B_val s) [0..<81]"
  define A' where A': "A' = map (\<lambda>k. A_val s k + val) [0..<81]"
  have fits: "fits 9 510 32768 A' ?B" unfolding A' by (rule std_fits[OF assms(1,2)])
  have len: "length (after_mul_const A' val) = 9 * 9" "length (after_mul_vect 9 A' ?B val) = 9 * 9"
    "length (after_mul_matrix 9 A' ?B) = 9 * 9" "length (after_bitextract 9 A' ?B) = 9 * 9"
    by (simp_all add: A' after_mul_const_def after_mul_vect_def after_mul_matrix_def after_bitextract_def)
  note sums = std_sums[OF assms(1,2) A' refl]
  obtain r1 r2 r3 r4 where r: "matrix_sum 9 (after_mul_const A' val) (matrix_big val) = Some r1"
    "matrix_sum 9 (after_mul_vect 9 A' ?B val) (matrix_big val) = Some r2"
    "matrix_sum 9 (after_mul_matrix 9 A' ?B) (matrix_big val) = Some r3"
    "matrix_sum 9 (after_bitextract 9 A' ?B) (matrix_big val) = Some r4"
    using matrix_sum_defined[OF len(1) sint_matrix_big sums(1)] matrix_sum_defined[OF len(2) sint_matrix_big sums(2)]
      matrix_sum_defined[OF len(3) sint_matrix_big sums(3)] matrix_sum_defined[OF len(4) sint_matrix_big sums(4)]
    by blast
  have "A' = map (\<lambda>a. a + val) ?A" by (simp add: A' comp_def)
  from matrix_test_eq[OF fits _ this r, of C] assms(3) len(4) show ?thesis by auto
qed

text \<open>
  C25. On the matrices that \<open>core_init_matrix\<close> builds for the standard block of 666 bytes, with any
  seed at all, \<open>core_bench_matrix\<close> with any of the values 0 to 255 the list benchmark passes returns:
  no access leaves a matrix and no signed addition or multiplication overflows. It leaves the
  dimension, \<open>A\<close> and \<open>B\<close> as they were, so every iteration computes the same.
\<close>

theorem core_bench_matrix_standard:
  assumes "core_init_matrix blksize memblk seed A B C = Some (N, ptrs, p)"
    and "648 < unat blksize" "unat blksize \<le> 800"
    and "length A = 81" "length B = 81" "length C = 81" "0 \<le> sint val" "sint val \<le> 255"
  shows "N = 9 \<and> mat_N p = 9 \<and> (\<exists>r C'. \<forall>crc. length C' = 81 \<and>
    core_bench_matrix p val crc = Some (crc16 r crc, p\<lparr>mat_C := C'\<rparr>))"
proof -
  have "core_init_matrix blksize memblk seed A B C = Some (of_nat 9,
    (align_mem memblk, align_mem memblk + of_nat (2 * 9\<^sup>2), align_mem (align_mem memblk + of_nat (4 * 9\<^sup>2))),
    \<lparr>mat_N = 9, mat_A = map (A_val (init_seed seed)) [0..<9 * 9],
     mat_B = map (B_val (init_seed seed)) [0..<9 * 9], mat_C = C\<rparr>)"
    by (rule core_init_matrix_eq) (use assms in auto)
  with assms(1) have p: "N = 9" "p = \<lparr>mat_N = 9, mat_A = map (A_val (init_seed seed)) [0..<81],
     mat_B = map (B_val (init_seed seed)) [0..<81], mat_C = C\<rparr>" by simp_all
  then show ?thesis
    using matrix_test_standard[OF assms(7,8,6), of "init_seed seed"]
    by (fastforce simp: core_bench_matrix_def)
qed

theorem core_bench_matrix_standard_witness:
  "\<exists>ptrs p r C'. core_init_matrix 666 0x8029a 0 (replicate 81 0) (replicate 81 0) (replicate 81 0) = Some (9, ptrs, p) \<and>
    core_bench_matrix p 0x22 0 = Some (crc16 r 0, p\<lparr>mat_C := C'\<rparr>)"
proof -
  have "\<exists>N ptrs p. core_init_matrix 666 0x8029a 0 (replicate 81 0) (replicate 81 0) (replicate 81 0) = Some (N, ptrs, p)"
    by (subst core_init_matrix_eq[of 9]) auto
  then obtain N ptrs p where
    i: "core_init_matrix 666 0x8029a 0 (replicate 81 0) (replicate 81 0) (replicate 81 0) = Some (N, ptrs, p)"
    by blast
  have "N = 9 \<and> mat_N p = 9 \<and> (\<exists>r C'. \<forall>crc. length C' = 81 \<and>
    core_bench_matrix p 0x22 crc = Some (crc16 r crc, p\<lparr>mat_C := C'\<rparr>))"
    by (rule core_bench_matrix_standard[OF i]) simp_all
  with i show ?thesis by blast
qed

text \<open>
  C31. With elements bounded so that no inner product can overflow, \<open>matrix_mul_matrix\<close> returns and
  every element of \<open>C\<close> is the inner product of a row of \<open>A\<close> and a column of \<open>B\<close>, as integers.
\<close>

theorem matrix_mul_matrix_dot:
  assumes "length A = N * N" "length B = N * N" "length C = N * N"
    and "\<forall>x\<in>set A. \<bar>sint x\<bar> \<le> a" "\<forall>x\<in>set B. \<bar>sint x\<bar> \<le> b" "int N * (a * b) < 2 ^ 31"
  shows "\<exists>C'. matrix_mul_matrix N C A B = Some C' \<and> length C' = N * N \<and>
    (\<forall>i<N. \<forall>j<N. sint (C' ! (i * N + j)) = (\<Sum>k<N. sint (A ! (i * N + k)) * sint (B ! (k * N + j))))"
proof -
  have fits: "fits N a b A B" using assms by (simp add: fits_def)
  have "sint (map (\<lambda>k. word_of_int (dot N A B (k div N) (k mod N))) [0..<N * N] ! (i * N + j) :: ee_s32)
      = dot N A B i j" if "i < N" "j < N" for i j
    using acc_loop_dot(2)[OF fits that] that square_index[OF that] by (simp add: sint_of_int_s32)
  with matrix_mul_matrix_eq[OF fits assms(3)] show ?thesis by (auto simp: dot_def)
qed

theorem matrix_mul_matrix_dot_witness:
  "\<exists>C'. matrix_mul_matrix 2 [0, 0, 0, 0] [1, 2, 3, -4] [5, 6, 7, 8] = Some C' \<and> length C' = 4 \<and>
    sint (C' ! 0) = 19 \<and> sint (C' ! 3) = -14"
proof -
  have "\<exists>C'. matrix_mul_matrix 2 [0, 0, 0, 0] [1, 2, 3, -4] [5, 6, 7, 8] = Some C' \<and> length C' = 2 * 2 \<and>
    (\<forall>i<2. \<forall>j<2. sint (C' ! (i * 2 + j))
      = (\<Sum>k<2. sint (([1, 2, 3, -4] :: ee_s16 list) ! (i * 2 + k)) * sint (([5, 6, 7, 8] :: ee_s16 list) ! (k * 2 + j))))"
    by (rule matrix_mul_matrix_dot[of _ _ _ _ 4 8]) auto
  then obtain C' where "matrix_mul_matrix 2 [0, 0, 0, 0] [1, 2, 3, -4] [5, 6, 7, 8] = Some C'" "length C' = 4"
    "\<forall>i<2. \<forall>j<2. sint (C' ! (i * 2 + j))
      = (\<Sum>k<2. sint (([1, 2, 3, -4] :: ee_s16 list) ! (i * 2 + k)) * sint (([5, 6, 7, 8] :: ee_s16 list) ! (k * 2 + j)))"
    by auto
  from this(1,2) this(3)[rule_format, of 0 0] this(3)[rule_format, of 1 1] show ?thesis
    by (intro exI[of _ C']) (simp add: eval_nat_numeral lessThan_Suc)
qed

section \<open>The layout\<close>

lemma unat_align_mem:
  assumes "0 < unat x" "unat x \<le> 2 ^ 32 - 4"
  shows "unat (align_mem x) = 4 * ((unat x + 3) div 4)"
proof -
  let ?y = "x - 1"
  have y: "unat ?y = unat x - 1"
    using assms(1) by (subst unat_minus_one) (auto simp: unat_gt_0)
  have "?y AND NOT 3 = push_bit 2 (drop_bit 2 ?y)"
  proof -
    have three: "(3 :: ee_u32) = mask 2" by (simp add: mask_eq_exp_minus_1)
    show ?thesis unfolding three by (rule and_not_mask_word)
  qed
  moreover have "unat (push_bit 2 (drop_bit 2 ?y)) = 4 * (unat ?y div 4)"
    unfolding unat_push_drop by (simp add: mult.commute)
  ultimately have z: "unat (?y AND NOT 3) = 4 * ((unat x - 1) div 4)" using y by simp
  have "4 * ((unat x - 1) div 4) \<le> unat x - 1" using div_mult_mod_eq[of "unat x - 1" 4] by linarith
  then have "4 + 4 * ((unat x - 1) div 4) < 2 ^ 32" using assms by linarith
  then have "unat (4 + (?y AND NOT 3)) = 4 + 4 * ((unat x - 1) div 4)"
    unfolding unat_word_ariths z by (simp only: unat_numeral take_bit_eq_mod len_of_numeral_defs) simp
  also have "\<dots> = 4 * ((unat x + 3) div 4)"
  proof -
    obtain k where "unat x = Suc k" using assms(1) gr0_conv_Suc by auto
    moreover have "(4 + k) div 4 = k div 4 + 1" by (rule div_add_self1) simp
    ultimately show ?thesis by simp
  qed
  finally show ?thesis by (simp add: align_mem_def)
qed

text \<open>The block size determines the dimension.\<close>

lemma dimension_unique:
  assumes "8 * n\<^sup>2 < b" "b \<le> 8 * (Suc n)\<^sup>2" "8 * k\<^sup>2 < b" "b \<le> 8 * (Suc k)\<^sup>2"
  shows "n = (k :: nat)"
proof -
  have "n\<^sup>2 < (Suc k)\<^sup>2" "k\<^sup>2 < (Suc n)\<^sup>2" using assms by linarith+
  then have "n < Suc k" "k < Suc n" by (auto dest!: power2_less_imp_less)
  then show ?thesis by simp
qed

lemma block_size_unique:
  assumes "8 * n\<^sup>2 < b" "b \<le> 8 * (Suc n)\<^sup>2" "b = 8 * k\<^sup>2 + 1"
  shows "n = (k :: nat)"
  by (rule dimension_unique[OF assms(1,2)]) (use assms(3) in \<open>simp_all add: power2_eq_square\<close>)

lemma dimension:
  assumes "0 < unat blksize" "unat blksize \<le> 8 * 23170\<^sup>2"
  shows "\<exists>n. 8 * n\<^sup>2 < unat blksize \<and> unat blksize \<le> 8 * (Suc n)\<^sup>2 \<and> 8 * (Suc n)\<^sup>2 < 2 ^ 32"
proof -
  obtain n where n: "8 * n\<^sup>2 < unat blksize" "unat blksize \<le> 8 * (Suc n)\<^sup>2"
    using dimension_exists[OF assms(1)] by blast
  have "n\<^sup>2 < 23170\<^sup>2" using n(1) assms(2) by simp
  then have "n < 23170" by (rule power2_less_imp_less) simp
  then have "(Suc n)\<^sup>2 \<le> 23170\<^sup>2" by (intro power_mono) auto
  then have "8 * (Suc n)\<^sup>2 < 2 ^ 32" by simp
  with n show ?thesis by blast
qed

text \<open>The addresses of the matrices.\<close>

lemma matrix_addresses:
  assumes "8 * n\<^sup>2 < unat blksize" "0 < unat memblk" "unat memblk + unat blksize \<le> 2 ^ 32 - 8"
  shows "unat (align_mem memblk) = 4 * ((unat memblk + 3) div 4)"
    and "k \<le> 8 * n\<^sup>2 \<Longrightarrow> unat (align_mem memblk + of_nat k) = unat (align_mem memblk) + k"
    and "unat (align_mem (align_mem memblk + of_nat (4 * n\<^sup>2))) = unat (align_mem memblk) + 4 * n\<^sup>2"
proof -
  let ?pA = "align_mem memblk"
  show a: "unat ?pA = 4 * ((unat memblk + 3) div 4)"
    using assms(2,3) by (intro unat_align_mem) auto
  have pA: "unat memblk \<le> unat ?pA" "unat ?pA < unat memblk + 4" unfolding a by presburger+
  have room: "unat ?pA + 8 * n\<^sup>2 < 2 ^ 32 - 4" using pA(2) assms(1,3) by linarith
  show plus: "unat (?pA + of_nat k) = unat ?pA + k" if "k \<le> 8 * n\<^sup>2" for k
    using room that unat_of_nat_s32[of k] unfolding unat_word_ariths by simp
  have "unat (align_mem (?pA + of_nat (4 * n\<^sup>2))) = 4 * ((unat ?pA + 4 * n\<^sup>2 + 3) div 4)"
    using plus[of "4 * n\<^sup>2"] room assms(2) pA(1) by (subst unat_align_mem) auto
  also have "\<dots> = unat ?pA + 4 * n\<^sup>2"
  proof -
    have "4 * ((4 * c + 4 * d + 3) div 4) = 4 * c + 4 * d" for c d :: nat by presburger
    then show ?thesis unfolding a .
  qed
  finally show "unat (align_mem (?pA + of_nat (4 * n\<^sup>2))) = unat ?pA + 4 * n\<^sup>2" .
qed

text \<open>The dimension and the end of \<open>C\<close>, whatever the arrays are.\<close>

lemma core_init_matrix_end:
  assumes "0 < unat blksize" "unat blksize \<le> 8 * 23170\<^sup>2" "0 < unat memblk"
    and "unat memblk + unat blksize \<le> 2 ^ 32 - 8"
    and "core_init_matrix blksize memblk seed A B C = Some (N, (pA, pB, pC), p)"
  shows "\<exists>n. 8 * n\<^sup>2 < unat blksize \<and> unat blksize \<le> 8 * (Suc n)\<^sup>2 \<and> mat_N p = n \<and>
    unat pC + 4 * n\<^sup>2 = 4 * ((unat memblk + 3) div 4) + 8 * n\<^sup>2"
proof -
  obtain n where n: "8 * n\<^sup>2 < unat blksize" "unat blksize \<le> 8 * (Suc n)\<^sup>2" "8 * (Suc n)\<^sup>2 < 2 ^ 32"
    using dimension[OF assms(1,2)] by blast
  have i: "size_loop blksize 0 0 = Some (of_nat (Suc n))" using size_loop_finds[OF n, of 0] by simp
  have "n < 2 ^ 32" using n(3) less_le_trans[of n "Suc (n * n)" "2 ^ 32"] by (auto simp: power2_eq_square)
  then have "mat_N p = n" "pC = align_mem (align_mem memblk + of_nat (4 * n\<^sup>2))"
    using assms(5) by (auto simp: core_init_matrix_def i opt_simps Let_def unat_of_nat_s32 power2_eq_square algebra_simps)
  with n matrix_addresses[OF n(1) assms(3,4)] show ?thesis by auto
qed

text \<open>The padding in front of the matrices.\<close>

lemma mod_4_cases: "(m :: nat) mod 4 = 0 \<or> m mod 4 = 1 \<or> m mod 4 = 2 \<or> m mod 4 = 3"
  by presburger

lemma padding: "4 * ((m + 3) div 4) = m + (4 - m mod 4) mod 4" "(4 - m mod 4) mod 4 \<le> 3" for m :: nat
proof -
  have "4 * ((4 * (m div 4) + m mod 4 + 3) div 4) = 4 * (m div 4) + m mod 4 + (4 - m mod 4) mod 4"
    using mod_4_cases[of m] by (elim disjE) simp_all
  then show "4 * ((m + 3) div 4) = m + (4 - m mod 4) mod 4" by simp
  show "(4 - m mod 4) mod 4 \<le> 3" using mod_4_cases[of m] by (elim disjE) simp_all
qed

lemma padding_over:
  assumes "8 * q < b" "m mod 4 = b mod 4"
  shows "b < 8 * q + (4 - m mod 4) mod 4 \<longleftrightarrow> b = 8 * q + (1 :: nat)"
    and "b = 8 * q + 1 \<Longrightarrow> (4 - m mod 4) mod 4 = 3"
proof -
  obtain r where r: "b = 8 * q + r" "0 < r" using less_imp_add_positive[OF assms(1)] by blast
  have m: "m mod 4 = r mod 4" unfolding assms(2) r(1) by presburger
  have "r < (4 - r mod 4) mod 4 \<longleftrightarrow> r = 1"
    using mod_4_cases[of r] r(2) mult_div_mod_eq[of 4 r] by (elim disjE) (simp_all, presburger+)
  then show "b < 8 * q + (4 - m mod 4) mod 4 \<longleftrightarrow> b = 8 * q + 1" using m r(1) by simp
  show "b = 8 * q + 1 \<Longrightarrow> (4 - m mod 4) mod 4 = 3" using m r(1) by simp
qed

text \<open>
  C33. \<open>core_init_matrix\<close> chooses the largest dimension \<open>n\<close> with \<open>8 * n ^ 2\<close> below the block size. \<open>A\<close>,
  \<open>B\<close> and \<open>C\<close> follow one another without overlap from the first 4-byte boundary of the block, \<open>C\<close> is
  4-byte aligned, and when the block itself is aligned they end inside it. The contents: all 16-bit
  values of \<open>B\<close> derive from the seed, \<open>A\<close> holds values below 256.
\<close>

theorem core_init_matrix_layout:
  assumes "0 < unat blksize" "unat blksize \<le> 8 * 23170\<^sup>2" "0 < unat memblk"
    and "unat memblk + unat blksize \<le> 2 ^ 32 - 8"
  shows "\<exists>n. 8 * n\<^sup>2 < unat blksize \<and> unat blksize \<le> 8 * (Suc n)\<^sup>2 \<and>
    (\<forall>seed A B C. length A = n * n \<longrightarrow> length B = n * n \<longrightarrow>
      (\<exists>pA pB pC p. core_init_matrix blksize memblk seed A B C = Some (of_nat n, (pA, pB, pC), p) \<and>
        unat memblk \<le> unat pA \<and> unat pA < unat memblk + 4 \<and> unat pA mod 4 = 0 \<and>
        unat pB = unat pA + 2 * n\<^sup>2 \<and> unat pC = unat pB + 2 * n\<^sup>2 \<and>
        (unat memblk mod 4 = 0 \<longrightarrow> unat pC + 4 * n\<^sup>2 < unat memblk + unat blksize) \<and>
        mat_N p = n \<and> length (mat_A p) = n * n \<and> length (mat_B p) = n * n \<and> mat_C p = C \<and>
        (\<forall>x\<in>set (mat_A p). 0 \<le> sint x \<and> sint x < 256)))"
proof -
  obtain n where n: "8 * n\<^sup>2 < unat blksize" "unat blksize \<le> 8 * (Suc n)\<^sup>2" "8 * (Suc n)\<^sup>2 < 2 ^ 32"
    using dimension[OF assms(1,2)] by blast
  note at = matrix_addresses[OF n(1) assms(3,4)]
  have "unat memblk \<le> unat (align_mem memblk)" "unat (align_mem memblk) < unat memblk + 4" "unat (align_mem memblk) mod 4 = 0"
    "unat memblk mod 4 = 0 \<longrightarrow> unat (align_mem memblk) = unat memblk" unfolding at(1) by presburger+
  moreover have "0 \<le> sint (A_val s k)" "sint (A_val s k) < 256" for s k
    using alpha_bounds[of s k] by (simp_all add: alpha_def)
  ultimately show ?thesis
    using n at(2)[of "2 * n\<^sup>2"] at(3) core_init_matrix_eq[OF n]
    by (intro exI[of _ n] conjI allI impI) (auto simp del: of_nat_mult)
qed

theorem core_init_matrix_layout_witness:
  "\<exists>n. 8 * n\<^sup>2 < 666 \<and> 666 \<le> 8 * (Suc n)\<^sup>2 \<and>
    (\<exists>pA pB pC p. core_init_matrix 666 0x80000 0 (replicate (n * n) 0) (replicate (n * n) 0) (replicate (n * n) 0)
      = Some (of_nat n, (pA, pB, pC), p) \<and> unat pC + 4 * n\<^sup>2 < 0x80000 + 666)"
proof -
  have u: "unat (666 :: ee_u32) = 666" "unat (0x80000 :: ee_u32) = 0x80000" by simp_all
  obtain n where n: "8 * n\<^sup>2 < 666" "666 \<le> 8 * (Suc n)\<^sup>2"
    and r: "\<And>seed A B C. length A = n * n \<Longrightarrow> length B = n * n \<Longrightarrow>
      \<exists>pA pB pC p. core_init_matrix 666 0x80000 seed A B C = Some (of_nat n, (pA, pB, pC), p) \<and>
        unat pC + 4 * n\<^sup>2 < 0x80000 + 666"
    using core_init_matrix_layout[of 666 "0x80000", unfolded u] by fastforce
  have "\<exists>pA pB pC p. core_init_matrix 666 0x80000 0 (replicate (n * n) 0) (replicate (n * n) 0) (replicate (n * n) 0)
      = Some (of_nat n, (pA, pB, pC), p) \<and> unat pC + 4 * n\<^sup>2 < 0x80000 + 666" by (rule r) (simp_all only: length_replicate)
  with n show ?thesis by (intro exI[of _ n] conjI)
qed

text \<open>
  C34. A block that does not start at a 4-byte boundary can be overrun, because the dimension is chosen for the whole block but
  the matrices start at the next boundary. The end of \<open>C\<close> lies \<open>8 * n ^ 2\<close> bytes and the padding behind the start
  of the block, at most two bytes behind its end. For the second of the blocks that \<open>main\<close> cuts from an aligned memory, one
  block size behind it, that happens exactly for the block sizes \<open>8 * n ^ 2 + 1\<close>, and then by two bytes.
\<close>

theorem core_init_matrix_overrun:
  assumes "0 < unat blksize" "unat blksize \<le> 8 * 23170\<^sup>2" "0 < unat memblk"
    and "unat memblk + unat blksize \<le> 2 ^ 32 - 8"
    and "core_init_matrix blksize memblk seed A B C = Some (N, (pA, pB, pC), p)"
  shows "unat pC + 4 * (mat_N p)\<^sup>2 = unat memblk + (4 - unat memblk mod 4) mod 4 + 8 * (mat_N p)\<^sup>2 \<and>
    unat pC + 4 * (mat_N p)\<^sup>2 \<le> unat memblk + unat blksize + 2 \<and>
    (unat memblk mod 4 = unat blksize mod 4 \<longrightarrow>
      (unat memblk + unat blksize < unat pC + 4 * (mat_N p)\<^sup>2 \<longleftrightarrow> (\<exists>n. unat blksize = 8 * n\<^sup>2 + 1)) \<and>
      (unat blksize = 8 * (mat_N p)\<^sup>2 + 1 \<longrightarrow> unat pC + 4 * (mat_N p)\<^sup>2 = unat memblk + unat blksize + 2))"
proof -
  obtain n where n: "8 * n\<^sup>2 < unat blksize" "unat blksize \<le> 8 * (Suc n)\<^sup>2" "mat_N p = n"
    "unat pC + 4 * n\<^sup>2 = 4 * ((unat memblk + 3) div 4) + 8 * n\<^sup>2"
    using core_init_matrix_end[OF assms] by blast
  have sizes: "(\<exists>k. unat blksize = 8 * k\<^sup>2 + 1) \<longleftrightarrow> unat blksize = 8 * n\<^sup>2 + 1" using block_size_unique[OF n(1,2)] by blast
  show ?thesis
    unfolding n(3,4) sizes padding(1) using padding_over[OF n(1), of "unat memblk"] padding(2)[of "unat memblk"] n(1) by auto
qed

theorem core_init_matrix_overrun_witness:
  "\<exists>pA pB pC p. core_init_matrix 649 (0x80000 + 649) 0 (replicate 81 0) (replicate 81 0) (replicate 81 0)
      = Some (9, (pA, pB, pC), p) \<and>
    unat pC + 4 * (mat_N p)\<^sup>2 = unat (0x80000 + 649 + 649 :: ee_u32) + 2"
proof -
  let ?p = "\<lparr>mat_N = 9, mat_A = map (A_val (init_seed 0)) [0..<81], mat_B = map (B_val (init_seed 0)) [0..<81], mat_C = replicate 81 0\<rparr>"
  have p: "\<exists>pA pB pC. core_init_matrix 649 (0x80000 + 649) 0 (replicate 81 0) (replicate 81 0) (replicate 81 0)
      = Some (9, (pA, pB, pC), ?p)"
    by (subst core_init_matrix_eq[of 9]) auto
  then obtain pA pB pC where c: "core_init_matrix 649 (0x80000 + 649) 0 (replicate 81 0) (replicate 81 0) (replicate 81 0)
      = Some (9, (pA, pB, pC), ?p)" by blast
  have u: "unat (649 :: ee_u32) = 649" "unat (0x80000 + 649 :: ee_u32) = 0x80000 + 649" by simp_all
  have "unat pC + 4 * (mat_N ?p)\<^sup>2 = unat (0x80000 + 649 :: ee_u32) + unat (649 :: ee_u32) + 2"
    using core_init_matrix_overrun[OF _ _ _ _ c] by (simp add: u)
  with c show ?thesis by (intro exI conjI) (assumption, simp)
qed

end
