(* ===== verification/Core_List.thy ===== *)
theory Core_List
  imports List_Order Core_State Core_Matrix
begin

text \<open>
  The list benchmark of \<open>coremark/src/core_list_join.c\<close>: \<open>calc_func\<close> and \<open>cmp_complex\<close>, which run the
  state and the matrix benchmark on the way to comparing two data words, \<open>core_bench_list\<close> and
  \<open>core_list_init\<close>. The store of the list cells is extended to \<open>core_results\<close>.

  \<open>cmp_complex\<close> is an interpretation of the sort's locale \<open>list_cmp_key\<close>: the key of a data word is the
  value cached in its low seven bits, and it is fixed once the word has been compared.
\<close>

section \<open>The code\<close>

text \<open>
  \<open>memblock[0]\<close> to \<open>memblock[2]\<close> only hold the other data in other forms: the block of the list is the
  store, the block of the matrices is \<open>mat\<close>. \<open>port\<close> is not used on a single core.
\<close>

record core_results = store +
  seed1 :: ee_s16
  seed2 :: ee_s16
  seed3 :: ee_s16
  memblock3 :: "ee_u8 list"
  rsize :: ee_u32
  iterations :: ee_u32
  execs :: ee_u32
  rlist :: ptr
  mat :: mat_params
  rcrc :: ee_u16
  crclist :: ee_u16
  crcmatrix :: ee_u16
  crcstate :: ee_u16
  err :: ee_s16

text \<open>The three branches of \<open>calc_func\<close> that compute a value.\<close>

definition calc_value :: "ee_s16 \<Rightarrow> core_results \<Rightarrow> (ee_s16 \<times> core_results) option" where
  "calc_value data res =
     (let flag = data AND 0x7;
          dtype = ucast (signed_drop_bit 3 (scast data :: ee_s32) AND 0xf) :: ee_s16;
          dtype = dtype OR push_bit 4 dtype
      in if flag = 0 then
           do { let dtype = (if dtype <s 0x22 then 0x22 else dtype);
                (retval, mem) \<leftarrow> core_bench_state (rsize res) (memblock3 res) (seed1 res) (seed2 res) dtype (rcrc res);
                let res = res\<lparr>memblock3 := mem\<rparr>;
                Some (retval, if crcstate res = 0 then res\<lparr>crcstate := retval\<rparr> else res) }
         else if flag = 1 then
           do { (retval, m) \<leftarrow> core_bench_matrix (mat res) dtype (rcrc res);
                let res = res\<lparr>mat := m\<rparr>;
                Some (retval, if crcmatrix res = 0 then res\<lparr>crcmatrix := retval\<rparr> else res) }
         else Some (data, res))"

text \<open>\<open>calc_func\<close> gets the address of a data cell; it reads and writes the \<open>data16\<close> there.\<close>

definition calc_func :: "nat \<Rightarrow> core_results \<Rightarrow> (ee_s16 \<times> core_results) option" where
  "calc_func pdata res =
     do { c \<leftarrow> datas res pdata;
          let data = data16 c;
          let optype = signed_drop_bit 7 (scast data :: ee_s32) AND 1;
          if optype \<noteq> 0 then Some (data AND 0x007f, res)
          else
            do { (retval, res) \<leftarrow> calc_value data res;
                 let res = res\<lparr>rcrc := crcu16 retval (rcrc res)\<rparr>;
                 let retval = retval AND 0x007f;
                 c \<leftarrow> datas res pdata;
                 res \<leftarrow> set_data res pdata (c\<lparr>data16 := (data AND 0xff00) OR 0x0080 OR retval\<rparr>);
                 Some (retval, res) } }"

definition cmp_complex :: "nat \<Rightarrow> nat \<Rightarrow> core_results \<Rightarrow> (ee_s32 \<times> core_results) option" where
  "cmp_complex a b res =
     do { (val1, res) \<leftarrow> calc_func a res;
          (val2, res) \<leftarrow> calc_func b res;
          Some (scast val1 - scast val2, res) }"

subsection \<open>The benchmark\<close>

text \<open>\<open>p->info->data16\<close>\<close>

definition get_data16 :: "'a store_scheme \<Rightarrow> ptr \<Rightarrow> ee_s16 option" where
  "get_data16 s p = do { d \<leftarrow> get_info s p; c \<leftarrow> datas s d; Some (data16 c) }"

text \<open>\<open>x >> k\<close> of a 16-bit value, promoted to \<open>int\<close>, and its lowest bit as a 16-bit number.\<close>

definition bit_of_s16 :: "nat \<Rightarrow> ee_s16 \<Rightarrow> ee_u16" where
  "bit_of_s16 k x = ucast (signed_drop_bit k (scast x :: ee_s32) AND 1)"

text \<open>
  The variables of the search loop: \<open>list\<close>, \<open>retval\<close>, \<open>found\<close>, \<open>missed\<close> and \<open>info.idx\<close>.
\<close>

record find_vars =
  flist :: ptr
  fretval :: ee_u16
  ffound :: ee_u16
  fmissed :: ee_u16
  fidx :: ee_s16

text \<open>Moving the successor of the found item behind the head of the list.\<close>

definition cache_next :: "ptr \<Rightarrow> ptr \<Rightarrow> 'a store_scheme \<Rightarrow> 'a store_scheme option" where
  "cache_next this_find list s =
     do { n \<leftarrow> get_next s this_find;
          if n \<noteq> None then
            do { let finder = n;
                 fn \<leftarrow> get_next s finder;
                 s \<leftarrow> set_next s this_find fn;
                 ln \<leftarrow> get_next s list;
                 s \<leftarrow> set_next s finder ln;
                 set_next s list finder }
          else Some s }"

text \<open>The two branches of the loop body: nothing found, and \<open>this_find\<close> found.\<close>

definition find_missed :: "find_vars \<Rightarrow> 'a store_scheme \<Rightarrow> (find_vars \<times> 'a store_scheme) option" where
  "find_missed v s =
     do { n \<leftarrow> get_next s (flist v);
          d \<leftarrow> get_data16 s n;
          Some (v\<lparr>fmissed := fmissed v + 1, fretval := fretval v + bit_of_s16 8 d\<rparr>, s) }"

definition find_found :: "ptr \<Rightarrow> find_vars \<Rightarrow> 'a store_scheme \<Rightarrow> (find_vars \<times> 'a store_scheme) option" where
  "find_found this_find v s =
     do { let v = v\<lparr>ffound := ffound v + 1\<rparr>;
          d \<leftarrow> get_data16 s this_find;
          let v = (if d AND 0x1 \<noteq> 0 then v\<lparr>fretval := fretval v + bit_of_s16 9 d\<rparr> else v);
          s \<leftarrow> cache_next this_find (flist v) s;
          Some (v, s) }"

definition find_step :: "nat \<Rightarrow> find_vars \<times> 'a store_scheme \<Rightarrow> (find_vars \<times> 'a store_scheme) option" where
  "find_step i = (\<lambda>(v, s).
     do { let info = \<lparr>data16 = of_nat i AND 0xff, idx = fidx v\<rparr>;
          this_find \<leftarrow> core_list_find s (flist v) info;
          (list, s) \<leftarrow> core_list_reverse s (flist v);
          let v = v\<lparr>flist := list\<rparr>;
          (v, s) \<leftarrow> (if this_find = None then find_missed v s else find_found this_find v s);
          Some (if 0 \<le>s fidx v then v\<lparr>fidx := fidx v + 1\<rparr> else v, s) })"

text \<open>\<open>while (finder) { retval = crc16(list->info->data16, retval); finder = finder->next; }\<close>\<close>

partial_function (option) crc_loop :: "'a store_scheme \<Rightarrow> ptr \<Rightarrow> ptr \<Rightarrow> ee_u16 \<Rightarrow> ee_u16 option" where
  "crc_loop s list finder retval =
     (if finder \<noteq> None then
        do { d \<leftarrow> get_data16 s list;
             n \<leftarrow> get_next s finder;
             crc_loop s list n (crc16 d retval) }
      else Some retval)"

declare crc_loop.simps [code]

definition core_bench_list :: "core_results \<Rightarrow> ee_s16 \<Rightarrow> (ee_u16 \<times> core_results) option" where
  "core_bench_list res finder_idx =
     do { let find_num = seed3 res;
          (v, res) \<leftarrow> for_loop 0 (nat (sint find_num)) find_step
             (\<lparr>flist = rlist res, fretval = 0, ffound = 0, fmissed = 0, fidx = finder_idx\<rparr>, res);
          let retval = fretval v + (ffound v * 4 - fmissed v);
          let info = \<lparr>data16 = (if 0 <s find_num then (find_num - 1) AND 0xff else 0), idx = fidx v\<rparr>;
          (list, res) \<leftarrow> (if 0 <s finder_idx then core_list_mergesort (flist v) cmp_complex res
                         else Some (flist v, res));
          n \<leftarrow> get_next res list;
          (remover, res) \<leftarrow> core_list_remove res n;
          finder \<leftarrow> core_list_find res list info;
          finder \<leftarrow> (if finder = None then get_next res list else Some finder);
          retval \<leftarrow> crc_loop res list finder retval;
          n \<leftarrow> get_next res list;
          (remover, res) \<leftarrow> core_list_undo_remove res remover n;
          (list, res) \<leftarrow> core_list_mergesort list (cmp_idx True) res;
          finder \<leftarrow> get_next res list;
          retval \<leftarrow> crc_loop res list finder retval;
          Some (retval, res) }"

subsection \<open>Initialisation\<close>

text \<open>
  \<open>core_list_init\<close>: the block holds \<open>size\<close> list heads, at the addresses from \<open>memblock\<close> on, followed by
  \<open>size\<close> data cells, at the addresses from \<open>datablock\<close> on.
\<close>

definition list_items :: "ee_u32 \<Rightarrow> ee_u32" where
  "list_items blksize = blksize div (16 + 4) - 2"

definition item_data :: "ee_s16 \<Rightarrow> nat \<Rightarrow> ee_s16" where
  "item_data seed i =
     (let datpat = ucast (scast seed XOR of_nat i :: ee_u32) AND 0xf :: ee_u16;
          dat = push_bit 3 datpat OR (of_nat i AND 0x7)
      in push_bit 8 dat OR dat)"

definition item_idx :: "ee_s16 \<Rightarrow> ee_u32 \<Rightarrow> nat \<Rightarrow> ee_s16" where
  "item_idx seed sz i =
     (if of_nat i < sz div 5 then of_nat i
      else let pat = ucast (of_nat i XOR scast seed :: ee_u32) :: ee_u16
           in 0x3fff AND (push_bit 8 (of_nat (Suc i) AND 0x07) OR pat))"

partial_function (option) index_loop ::
  "ee_s16 \<Rightarrow> ee_u32 \<Rightarrow> 'a store_scheme \<Rightarrow> ptr \<Rightarrow> nat \<Rightarrow> 'a store_scheme option" where
  "index_loop seed sz s finder i =
     do { n \<leftarrow> get_next s finder;
          if n \<noteq> None then
            do { d \<leftarrow> get_info s finder;
                 c \<leftarrow> datas s d;
                 s \<leftarrow> set_data s d (c\<lparr>idx := item_idx seed sz i\<rparr>);
                 index_loop seed sz s n (Suc i) }
          else Some s }"

declare index_loop.simps [code]

definition core_list_init ::
  "ee_u32 \<Rightarrow> nat \<Rightarrow> nat \<Rightarrow> ee_s16 \<Rightarrow> 'a store_scheme \<Rightarrow> (ptr \<times> 'a store_scheme) option" where
  "core_list_init blksize memblock datablock seed s =
     do { let sz = list_items blksize;
          let memblock_end = memblock + unat sz;
          let datablock_end = datablock + unat sz;
          let list = Some memblock;
          s \<leftarrow> set_next s list None;
          s \<leftarrow> set_info s list datablock;
          c \<leftarrow> datas s datablock;
          s \<leftarrow> set_data s datablock (c\<lparr>idx := 0x0000, data16 := 0x8080\<rparr>);
          (_, mb, db, s) \<leftarrow> core_list_insert_new s list \<lparr>data16 = 0xffff, idx = 0x7fff\<rparr>
             (memblock + 1) (datablock + 1) memblock_end datablock_end;
          (mb, db, s) \<leftarrow> for_loop 0 (unat sz) (\<lambda>i (mb, db, s).
             do { (_, mb, db, s) \<leftarrow> core_list_insert_new s list
                    \<lparr>data16 = item_data seed i, idx = 0x7fff\<rparr> mb db memblock_end datablock_end;
                  Some (mb, db, s) }) (mb, db, s);
          finder \<leftarrow> get_next s list;
          s \<leftarrow> index_loop seed sz s finder 1;
          core_list_mergesort list (cmp_idx True) s }"

section \<open>What a comparison may change\<close>

text \<open>
  \<open>frame r r'\<close>: the two results differ at most in the list cells, the checksums and the contents of
  the result matrix; the checksums of the matrix and of the state run are set once, as long as they are zero.
\<close>

definition frame :: "core_results \<Rightarrow> core_results \<Rightarrow> bool" where
  "frame r r' \<longleftrightarrow> seed1 r' = seed1 r \<and> seed2 r' = seed2 r \<and> seed3 r' = seed3 r \<and>
     memblock3 r' = memblock3 r \<and> rsize r' = rsize r \<and> iterations r' = iterations r \<and>
     execs r' = execs r \<and> rlist r' = rlist r \<and> crclist r' = crclist r \<and> err r' = err r \<and>
     mat_N (mat r') = mat_N (mat r) \<and> mat_A (mat r') = mat_A (mat r) \<and> mat_B (mat r') = mat_B (mat r) \<and>
     length (mat_C (mat r')) = length (mat_C (mat r)) \<and>
     (crcmatrix r \<noteq> 0 \<longrightarrow> crcmatrix r' = crcmatrix r) \<and> (crcstate r \<noteq> 0 \<longrightarrow> crcstate r' = crcstate r)"

lemma frame_refl [simp]: "frame r r"
  by (simp add: frame_def)

lemma frame_trans: "frame r s \<Longrightarrow> frame s t \<Longrightarrow> frame r t"
  by (simp add: frame_def)

lemma frame_store [simp]:
  "frame r (r'\<lparr>heads := h\<rparr>) = frame r r'" "frame r (r'\<lparr>datas := d\<rparr>) = frame r r'"
  "frame (r\<lparr>heads := h\<rparr>) r' = frame r r'" "frame (r\<lparr>datas := d\<rparr>) r' = frame r r'"
  "frame r (r'\<lparr>rcrc := c\<rparr>) = frame r r'"
  by (simp_all add: frame_def)

text \<open>
  The states in which both nested benchmarks return and leave their inputs as they were: the
  state block is well formed and its corruption is undone, and the matrix test is defined for every
  value the list benchmark passes.
\<close>

definition state_ok :: "core_results \<Rightarrow> bool" where
  "state_ok r \<longleftrightarrow> block_ok (rsize r) (memblock3 r) \<and> seed1 r = seed2 r \<and>
     (\<forall>i<unat (rsize r). memblock3 r ! i \<noteq> 44 \<longrightarrow> memblock3 r ! i XOR ucast (seed1 r) \<noteq> 44)"

definition mat_ok :: "mat_params \<Rightarrow> bool" where
  "mat_ok p \<longleftrightarrow> length (mat_A p) = mat_N p * mat_N p \<and> length (mat_C p) = mat_N p * mat_N p \<and>
     (\<forall>v. 0 \<le> sint v \<and> sint v \<le> 255 \<longrightarrow>
        (\<exists>r C'. length C' = mat_N p * mat_N p \<and>
           matrix_test (mat_N p) (mat_C p) (mat_A p) (mat_B p) v = Some (r, C', mat_A p)))"

definition bench_ok :: "core_results \<Rightarrow> bool" where
  "bench_ok r \<longleftrightarrow> state_ok r \<and> mat_ok (mat r)"

lemma bench_ok_store [simp]:
  "bench_ok (r\<lparr>heads := h\<rparr>) = bench_ok r" "bench_ok (r\<lparr>datas := d\<rparr>) = bench_ok r"
  by (simp_all add: bench_ok_def state_ok_def)

lemma bench_ok_frame:
  assumes "frame r r'" "bench_ok r"
  shows "bench_ok r'"
proof -
  have "\<exists>x C'. length C' = mat_N (mat r) * mat_N (mat r) \<and>
      matrix_test (mat_N (mat r)) (mat_C (mat r')) (mat_A (mat r)) (mat_B (mat r)) v = Some (x, C', mat_A (mat r))"
    if v: "0 \<le> sint v" "sint v \<le> 255" for v
  proof -
    obtain x C' where "length C' = mat_N (mat r) * mat_N (mat r)"
      "matrix_test (mat_N (mat r)) (mat_C (mat r)) (mat_A (mat r)) (mat_B (mat r)) v = Some (x, C', mat_A (mat r))"
      using assms(2) v by (auto simp: bench_ok_def mat_ok_def)
    then show ?thesis
      using matrix_test_fresh[of "mat_A (mat r)" "mat_N (mat r)" "mat_C (mat r)" "mat_C (mat r')"] assms
      by (auto simp: bench_ok_def mat_ok_def frame_def)
  qed
  then show ?thesis using assms by (auto simp: bench_ok_def state_ok_def mat_ok_def frame_def)
qed

lemma dtype_bounds:
  fixes x :: ee_s32
  defines "d \<equiv> ucast (x AND 0xf) :: ee_s16"
  shows "0 \<le> sint (d OR push_bit 4 d)" "sint (d OR push_bit 4 d) \<le> 255"
proof -
  have "(0xf :: ee_s32) = mask 4" by (simp add: mask_eq_exp_minus_1)
  then have d: "d = ucast (x AND mask 4)" by (simp only: d_def)
  have "take_bit 8 (d OR push_bit 4 d) = d OR push_bit 4 d"
    unfolding d by (rule bit_word_eqI) (auto simp: bit_simps)
  then have "uint (d OR push_bit 4 d) = take_bit 8 (uint (d OR push_bit 4 d))"
    by (metis unsigned_take_bit_eq)
  moreover have "take_bit 8 (uint (d OR push_bit 4 d)) < 2 ^ 8" by (rule take_bit_int_less_exp)
  ultimately have u: "uint (d OR push_bit 4 d) < 256" by simp
  then have "sint (d OR push_bit 4 d) = uint (d OR push_bit 4 d)" by (intro sint_uint_s16) simp
  with u show "0 \<le> sint (d OR push_bit 4 d)" "sint (d OR push_bit 4 d) \<le> 255" by simp_all
qed

lemma calc_value_defined:
  assumes "bench_ok r"
  shows "\<exists>v r'. calc_value data r = Some (v, r') \<and> frame r r' \<and> heads r' = heads r \<and> datas r' = datas r"
proof -
  let ?d = "ucast (signed_drop_bit 3 (scast data :: ee_s32) AND 0xf) :: ee_s16"
  let ?t = "?d OR push_bit 4 ?d"
  have st: "\<exists>c. core_bench_state (rsize r) (memblock3 r) (seed1 r) (seed2 r) step crc = Some (c, memblock3 r)"
    if "2 \<le> sint step" for step crc
    using core_bench_state_undo[OF _ that, of "rsize r" "memblock3 r" "seed1 r" crc] assms
    by (auto simp: bench_ok_def state_ok_def)
  have big: "2 \<le> sint (if ?t <s 0x22 then 0x22 else ?t)"
    by (auto simp: word_sless_alt not_less)
  consider "data AND 0x7 = 0" | "data AND 0x7 = 1" | "data AND 0x7 \<noteq> 0" "data AND 0x7 \<noteq> 1" by blast
  then show ?thesis
  proof cases
    case 1
    then show ?thesis using st[OF big, of "rcrc r"] by (auto simp: calc_value_def Let_def frame_def)
  next
    case 2
    obtain x C' where "length C' = mat_N (mat r) * mat_N (mat r)"
      "matrix_test (mat_N (mat r)) (mat_C (mat r)) (mat_A (mat r)) (mat_B (mat r)) ?t = Some (x, C', mat_A (mat r))"
      using assms dtype_bounds[of "signed_drop_bit 3 (scast data)"] by (auto simp: bench_ok_def mat_ok_def)
    then show ?thesis
      using 2 assms by (auto simp: calc_value_def Let_def core_bench_matrix_def frame_def bench_ok_def mat_ok_def)
  next
    case 3
    then show ?thesis by (simp add: calc_value_def Let_def)
  qed
qed

section \<open>The comparison by value\<close>

text \<open>A data word with bit 7 set carries its value in the bits below; the value is the key.\<close>

definition cached :: "'a store_scheme \<Rightarrow> nat \<Rightarrow> bool" where
  "cached s d \<longleftrightarrow> (case datas s d of None \<Rightarrow> False | Some c \<Rightarrow> bit (data16 c) 7)"

definition val_key :: "'a store_scheme \<Rightarrow> nat \<Rightarrow> int" where
  "val_key s d = (case datas s d of None \<Rightarrow> 0 | Some c \<Rightarrow> uint (data16 c AND 0x7f))"

text \<open>\<open>data_kept c c'\<close>: the index and the high byte are the same.\<close>

definition data_kept :: "list_data \<Rightarrow> list_data \<Rightarrow> bool" where
  "data_kept c c' \<longleftrightarrow> idx c' = idx c \<and> data16 c' AND 0xff00 = data16 c AND 0xff00"

lemma optype_bit: "signed_drop_bit 7 (scast data :: ee_s32) AND 1 \<noteq> 0 \<longleftrightarrow> bit data 7" for data :: ee_s16
proof -
  have "y AND 1 = of_bool (bit y 0)" for y :: ee_s32
    by (simp add: and_one_eq mod_2_eq_odd bit_0)
  then have "signed_drop_bit 7 (scast data :: ee_s32) AND 1 \<noteq> 0 \<longleftrightarrow> bit (signed_drop_bit 7 (scast data :: ee_s32)) 0"
    by simp
  also have "\<dots> \<longleftrightarrow> bit data 7" by (simp add: bit_simps del: bit_0)
  finally show ?thesis .
qed

lemma cached_word:
  fixes d v :: ee_s16
  shows "bit ((d AND 0xff00) OR 0x80 OR (v AND 0x7f)) 7"
    and "((d AND 0xff00) OR 0x80 OR (v AND 0x7f)) AND 0x7f = v AND 0x7f"
    and "((d AND 0xff00) OR 0x80 OR (v AND 0x7f)) AND 0xff00 = d AND 0xff00"
proof -
  show "bit ((d AND 0xff00) OR 0x80 OR (v AND 0x7f)) 7" by (simp add: bit_simps)
  show "((d AND 0xff00) OR 0x80 OR (v AND 0x7f)) AND 0x7f = v AND 0x7f"
    by (rule bit_word_eqI) (auto simp: bit_simps numeral_eq_Suc less_Suc_eq)
  show "((d AND 0xff00) OR 0x80 OR (v AND 0x7f)) AND 0xff00 = d AND 0xff00"
    by (rule bit_word_eqI) (auto simp: bit_simps numeral_eq_Suc less_Suc_eq)
qed

lemma calc_func_spec:
  assumes "bench_ok r" "datas r d = Some c"
  shows "\<exists>v r' c'. calc_func d r = Some (v, r') \<and> heads r' = heads r \<and> datas r' = (datas r)(d \<mapsto> c') \<and>
    frame r r' \<and> data_kept c c' \<and> bit (data16 c') 7 \<and> v = data16 c' AND 0x7f \<and> (bit (data16 c) 7 \<longrightarrow> c' = c)"
proof (cases "bit (data16 c) 7")
  case True
  then have "calc_func d r = Some (data16 c AND 0x7f, r)"
    using assms(2) by (simp add: calc_func_def optype_bit)
  with True assms(2) show ?thesis by (auto simp: data_kept_def fun_upd_idem)
next
  case False
  obtain w r1 where w: "calc_value (data16 c) r = Some (w, r1)" "frame r r1" "heads r1 = heads r" "datas r1 = datas r"
    using calc_value_defined[OF assms(1)] by blast
  define c' where "c' = c\<lparr>data16 := (data16 c AND 0xff00) OR 0x80 OR (w AND 0x7f)\<rparr>"
  have "calc_func d r = Some (w AND 0x7f, r1\<lparr>rcrc := crcu16 w (rcrc r1), datas := (datas r)(d \<mapsto> c')\<rparr>)"
    using False w assms(2) by (simp add: calc_func_def optype_bit set_data_def c'_def Let_def)
  moreover have "data_kept c c'" "bit (data16 c') 7" "w AND 0x7f = data16 c' AND 0x7f"
    using cached_word[of "data16 c" w] by (simp_all add: c'_def data_kept_def)
  ultimately show ?thesis
    using False w
    by (intro exI[of _ "w AND 0x7f"] exI[of _ "r1\<lparr>rcrc := crcu16 w (rcrc r1), datas := (datas r)(d \<mapsto> c')\<rparr>"]
        exI[of _ c']) simp
qed

definition calc_from :: "core_results \<Rightarrow> nat set \<Rightarrow> core_results \<Rightarrow> bool" where
  "calc_from r0 A r \<longleftrightarrow> bench_ok r0 \<and> frame r0 r \<and> (\<forall>d. d \<notin> A \<longrightarrow> datas r d = datas r0 d) \<and>
     (\<forall>d\<in>A. \<exists>c0 c. datas r0 d = Some c0 \<and> datas r d = Some c \<and> data_kept c0 c)"

lemma data_kept_refl [simp]: "data_kept c c"
  by (simp add: data_kept_def)

lemma data_kept_trans: "data_kept a b \<Longrightarrow> data_kept b c \<Longrightarrow> data_kept a c"
  by (simp add: data_kept_def)

lemma calc_func_from:
  assumes "calc_from r0 A r" "d \<in> A"
  shows "\<exists>v r'. calc_func d r = Some (v, r') \<and> heads r' = heads r \<and> calc_from r0 A r' \<and> cached r' d \<and>
    uint v = val_key r' d \<and> (\<forall>x\<in>A. cached r x \<longrightarrow> cached r' x \<and> val_key r' x = val_key r x)"
proof -
  obtain c0 c where c: "datas r0 d = Some c0" "datas r d = Some c" "data_kept c0 c"
    using assms by (auto simp: calc_from_def)
  have "bench_ok r" using assms(1) bench_ok_frame by (auto simp: calc_from_def)
  from calc_func_spec[OF this c(2)] obtain v r' c' where r':
    "calc_func d r = Some (v, r')" "heads r' = heads r" "datas r' = (datas r)(d \<mapsto> c')" "frame r r'"
    "data_kept c c'" "bit (data16 c') 7" "v = data16 c' AND 0x7f" "bit (data16 c) 7 \<longrightarrow> c' = c"
    by blast
  have "calc_from r0 A r'"
    using assms r'(3) frame_trans[OF _ r'(4)] data_kept_trans[OF c(3) r'(5)] c(1)
    by (auto simp: calc_from_def)
  moreover have "cached r' d" "uint v = val_key r' d" using r' by (simp_all add: cached_def val_key_def)
  moreover have "cached r' x \<and> val_key r' x = val_key r x" if "cached r x" for x
    using that r' c(2) by (cases "x = d") (simp_all add: cached_def val_key_def)
  ultimately show ?thesis using r'(1,2) by blast
qed

lemma val_key_bounds: "0 \<le> val_key s d" "val_key s d < 128"
proof -
  have "uint (x AND 0x7f :: ee_s16) < 128" for x
  proof -
    have "(0x7f :: ee_s16) = mask 7" by (simp add: mask_eq_exp_minus_1)
    then have "x AND 0x7f = take_bit 7 x" by (simp only: take_bit_eq_mask)
    then show ?thesis using take_bit_int_less_exp[of 7 "uint x"] by (simp add: unsigned_take_bit_eq)
  qed
  then show "0 \<le> val_key s d" "val_key s d < 128" by (simp_all add: val_key_def split: option.splits)
qed

lemma cmp_complex_from:
  assumes "calc_from r0 A r" "a \<in> A" "b \<in> A"
  shows "\<exists>c t. cmp_complex a b r = Some (c, t) \<and> calc_from r0 A t \<and> cached t a \<and> cached t b \<and>
    (c \<le>s 0 \<longleftrightarrow> val_key t a \<le> val_key t b) \<and> (\<forall>x\<in>A. cached r x \<longrightarrow> cached t x \<and> val_key t x = val_key r x)"
proof -
  obtain v r1 where 1: "calc_func a r = Some (v, r1)" "calc_from r0 A r1" "cached r1 a" "uint v = val_key r1 a"
    "\<forall>x\<in>A. cached r x \<longrightarrow> cached r1 x \<and> val_key r1 x = val_key r x"
    using calc_func_from[OF assms(1,2)] by blast
  obtain w t where 2: "calc_func b r1 = Some (w, t)" "calc_from r0 A t" "cached t b" "uint w = val_key t b"
    "\<forall>x\<in>A. cached r1 x \<longrightarrow> cached t x \<and> val_key t x = val_key r1 x"
    using calc_func_from[OF 1(2) assms(3)] by blast
  have "uint v = val_key t a" "cached t a" using 1 2(5) assms(2) by auto
  moreover have "sint v = uint v" "sint w = uint w"
    using 1(4) 2(4) val_key_bounds[of r1 a] val_key_bounds[of t b] sint_uint_s16[of v] sint_uint_s16[of w]
    by simp_all
  ultimately have "(scast v - scast w :: ee_s32) \<le>s 0 \<longleftrightarrow> val_key t a \<le> val_key t b"
    using 2(4) by (simp add: signed_difference_le_0)
  with 1 2 \<open>cached t a\<close> show ?thesis by (auto simp: cmp_complex_def)
qed

lemma calc_value_cells:
  "calc_value data (r\<lparr>heads := h\<rparr>) = map_option (\<lambda>(v, t). (v, t\<lparr>heads := h\<rparr>)) (calc_value data r)"
  by (auto simp: calc_value_def Let_def split: bind_split)

lemma calc_func_cells:
  "calc_func d (r\<lparr>heads := h\<rparr>) = map_option (\<lambda>(v, t). (v, t\<lparr>heads := h\<rparr>)) (calc_func d r)"
  unfolding calc_func_def
  by (cases "datas r d")
     (auto simp: Let_def calc_value_cells set_data_def split: bind_split option.splits)

interpretation value_cmp: list_cmp_key cmp_complex "calc_from r0" cached val_key
  for r0 :: core_results
proof unfold_locales
  show "cmp_complex a b (s\<lparr>heads := h\<rparr>) = map_option (\<lambda>(c, t). (c, t\<lparr>heads := h\<rparr>)) (cmp_complex a b s)"
    for a b s h
    unfolding cmp_complex_def by (auto simp: calc_func_cells split: bind_split)
next
  fix A s a b assume A: "calc_from r0 A s" "a \<in> A" "b \<in> A"
  obtain c t where r: "cmp_complex a b s = Some (c, t)" "calc_from r0 A t" "cached t a" "cached t b"
    "c \<le>s 0 \<longleftrightarrow> val_key t a \<le> val_key t b" "\<forall>x\<in>A. cached s x \<longrightarrow> cached t x \<and> val_key t x = val_key s x"
    using cmp_complex_from[OF A] by blast
  then show "\<exists>c t. cmp_complex a b s = Some (c, t) \<and> calc_from r0 A t" by blast
  fix c' t' assume "cmp_complex a b s = Some (c', t')"
  with r have [simp]: "c' = c" "t' = t" by simp_all
  show "cached t' a \<and> cached t' b" "c' \<le>s 0 \<longleftrightarrow> val_key t' a \<le> val_key t' b" using r by simp_all
  show "cached t' x \<and> val_key t' x = val_key s x" if "x \<in> A" "cached s x" for x using r that by simp
qed (auto simp: calc_from_def cached_def val_key_def fun_eq_iff)

section \<open>The search loop\<close>

lemma set_next_chain_cell:
  "chain h p xs q \<Longrightarrow> x \<in> set xs \<Longrightarrow> \<exists>c. h x = Some c \<and>
   set_next (s\<lparr>heads := h\<rparr>) (Some x) v = Some (s\<lparr>heads := h(x \<mapsto> c\<lparr>lnext := v\<rparr>)\<rparr>)"
  using chain_cells[of h p xs q x] by (auto simp: set_next_def)

text \<open>
  Moving the successor of a node behind the head: nothing to do for the last node and for the head, otherwise a
  permutation that keeps the head.
\<close>

lemma cache_next_last:
  "chain (heads s) p (us @ [x]) None \<Longrightarrow> cache_next (Some x) q s = Some s"
  by (auto simp: cache_next_def)

lemma cache_next_head:
  assumes "chain (heads s) (Some x) (x # y # ys) None"
  shows "cache_next (Some x) (Some x) s = Some s"
proof -
  obtain cx cy where c: "heads s x = Some cx" "lnext cx = Some y" "heads s y = Some cy" using assms by auto
  moreover have "x \<noteq> y" using chain_distinct[OF assms] by simp
  ultimately show ?thesis by (cases cx; cases cy) (simp add: cache_next_def set_next_def fun_upd_idem)
qed

lemma cache_next_move:
  assumes "chain (heads s) (Some a) (a # us @ x # y # vs) None"
  shows "\<exists>h. cache_next (Some x) (Some a) s = Some (s\<lparr>heads := h\<rparr>) \<and> chain h (Some a) (a # y # us @ x # vs) None \<and>
    same_cells (set (a # us @ x # y # vs)) (heads s) h"
proof -
  obtain ca cx cy where c: "heads s a = Some ca" "chain (heads s) (lnext ca) us (Some x)" "heads s x = Some cx"
    "lnext cx = Some y" "heads s y = Some cy" "chain (heads s) (lnext cy) vs None"
    using assms by auto
  have d: "distinct (a # us @ x # y # vs)" by (rule chain_distinct[OF assms])
  define h where "h = (heads s)(x \<mapsto> cx\<lparr>lnext := lnext cy\<rparr>, y \<mapsto> cy\<lparr>lnext := lnext ca\<rparr>, a \<mapsto> ca\<lparr>lnext := Some y\<rparr>)"
  have "cache_next (Some x) (Some a) s = Some (s\<lparr>heads := h\<rparr>)"
    using c d by (auto simp: cache_next_def set_next_def h_def)
  moreover have "chain h (Some a) (a # y # us @ x # vs) None" using c d by (auto simp: h_def)
  moreover have "same_cells (set (a # us @ x # y # vs)) (heads s) h" using c by (auto simp: same_cells_def h_def)
  ultimately show ?thesis by blast
qed

lemma cache_next_chain:
  assumes "chain (heads s) (Some a) (a # ys) None" "x \<in> set (a # ys)"
  shows "\<exists>h zs. cache_next (Some x) (Some a) s = Some (s\<lparr>heads := h\<rparr>) \<and> chain h (Some a) (a # zs) None \<and>
    mset zs = mset ys \<and> same_cells (set (a # ys)) (heads s) h"
proof -
  obtain us vs where xs: "a # ys = us @ x # vs" using assms(2) by (metis in_set_conv_decomp)
  consider "vs = []" | y vs' where "us = []" "vs = y # vs'" | us' y vs' where "us = a # us'" "vs = y # vs'"
    using xs by (cases us; cases vs) auto
  then show ?thesis
  proof cases
    case 1
    then have "cache_next (Some x) (Some a) s = Some (s\<lparr>heads := heads s\<rparr>)"
      using cache_next_last[of s "Some a" us x "Some a"] assms(1) xs by simp
    with assms(1) show ?thesis by blast
  next
    case 2
    then have "cache_next (Some x) (Some a) s = Some (s\<lparr>heads := heads s\<rparr>)"
      using cache_next_head[of s x y vs'] assms(1) xs by simp
    with assms(1) show ?thesis by blast
  next
    case 3
    then have ys: "ys = us' @ x # y # vs'" using xs by simp
    obtain h where "cache_next (Some x) (Some a) s = Some (s\<lparr>heads := h\<rparr>)" "chain h (Some a) (a # y # us' @ x # vs') None"
      "same_cells (set (a # ys)) (heads s) h"
      using cache_next_move[of s a us' x y vs'] assms(1) ys by auto
    then show ?thesis using ys by (intro exI[of _ h] exI[of _ "y # us' @ x # vs'"]) auto
  qed
qed

lemma get_data16_node: "node_data s x \<noteq> None \<Longrightarrow> \<exists>d. get_data16 s (Some x) = Some d"
  by (auto simp: node_data_def get_data16_def opt_simps)

lemma node_data_same_cells: "same_cells S (heads s) h \<Longrightarrow> node_data (s\<lparr>heads := h\<rparr>) x = node_data s x"
  by (simp add: node_data_def same_cells_info)

text \<open>What the search loop keeps: a chain over the same nodes, with only next pointers changed.\<close>

definition permuted :: "'a store_scheme \<Rightarrow> nat list \<Rightarrow> find_vars \<times> 'a store_scheme \<Rightarrow> bool" where
  "permuted s xs = (\<lambda>(v, t). \<exists>h ys. t = s\<lparr>heads := h\<rparr> \<and> chain h (flist v) ys None \<and>
     mset ys = mset xs \<and> same_cells (set xs) (heads s) h)"

lemma permuted_node_data:
  "permuted s xs (v, t) \<Longrightarrow> node_data t x = node_data s x"
  using node_data_same_cells[of "set xs" s _ x] by (auto simp: permuted_def)

lemma permuted_flist [simp]:
  "permuted s xs (v\<lparr>ffound := a\<rparr>, t) = permuted s xs (v, t)"
  "permuted s xs (v\<lparr>fmissed := a\<rparr>, t) = permuted s xs (v, t)"
  "permuted s xs (v\<lparr>fretval := b\<rparr>, t) = permuted s xs (v, t)"
  "permuted s xs (v\<lparr>fidx := b\<rparr>, t) = permuted s xs (v, t)"
  by (simp_all add: permuted_def)

lemma find_missed_permuted:
  assumes "permuted s xs (v, t)" "2 \<le> length xs" "\<forall>x\<in>set xs. node_data s x \<noteq> None"
  shows "\<exists>w. find_missed v t = Some w \<and> permuted s xs w"
proof -
  obtain h ys where t: "t = s\<lparr>heads := h\<rparr>" "chain h (flist v) ys None" "mset ys = mset xs"
    using assms(1) by (auto simp: permuted_def)
  have len: "length ys = length xs" "set ys = set xs" using t(3) by (auto dest: mset_eq_length mset_eq_setD)
  with assms(2) obtain a b zs where ys: "ys = a # b # zs" by (cases ys; cases "tl ys") auto
  with t have "get_next t (flist v) = Some (Some b)" by auto
  moreover obtain d where "get_data16 t (Some b) = Some d"
    using get_data16_node[of t b] assms(3) permuted_node_data[OF assms(1), of b] ys len(2) by auto
  ultimately show ?thesis using assms(1) by (simp add: find_missed_def)
qed

lemma find_found_permuted:
  assumes "permuted s xs (v, t)" "x \<in> set xs" "\<forall>x\<in>set xs. node_data s x \<noteq> None"
  shows "\<exists>w. find_found (Some x) v t = Some w \<and> permuted s xs w"
proof -
  obtain h ys where t: "t = s\<lparr>heads := h\<rparr>" "chain h (flist v) ys None" "mset ys = mset xs"
    "same_cells (set xs) (heads s) h"
    using assms(1) by (auto simp: permuted_def)
  have x: "x \<in> set ys" "set ys = set xs" using assms(2) t(3) by (auto dest: mset_eq_setD)
  then obtain a zs where ys: "ys = a # zs" by (cases ys) auto
  then have a: "flist v = Some a" using t(2) by simp
  obtain h' ws where c: "cache_next (Some x) (Some a) t = Some (t\<lparr>heads := h'\<rparr>)" "chain h' (Some a) (a # ws) None"
    "mset ws = mset zs" "same_cells (set ys) h h'"
    using cache_next_chain[of t a zs x] t(1,2) ys a x by auto
  have sc: "same_cells (set xs) (heads s) h'" using same_cells_trans[OF t(4) c(4)] x(2) by simp
  obtain d where d: "get_data16 t (Some x) = Some d"
    using get_data16_node[of t x] assms(2,3) permuted_node_data[OF assms(1), of x] by auto
  have "permuted s xs (v, t\<lparr>heads := h'\<rparr>)"
    unfolding permuted_def using c(2,3) sc t(1,3) ys a by (auto intro!: exI[of _ h'] exI[of _ "a # ws"])
  then show ?thesis using d c(1) a by (simp add: find_found_def Let_def)
qed

lemma find_step_permuted:
  assumes "permuted s xs w" "2 \<le> length xs" "\<forall>x\<in>set xs. node_data s x \<noteq> None"
  shows "\<exists>w'. find_step i w = Some w' \<and> permuted s xs w'"
proof -
  obtain v t where w: "w = (v, t)" by (cases w)
  then obtain h ys where t: "t = s\<lparr>heads := h\<rparr>" "chain h (flist v) ys None" "mset ys = mset xs"
    "same_cells (set xs) (heads s) h"
    using assms(1) by (auto simp: permuted_def)
  have set: "set ys = set xs" using t(3) by (auto dest: mset_eq_setD)
  have data: "\<forall>x\<in>set ys. node_data t x \<noteq> None"
    using assms(3) permuted_node_data[of s xs v t] assms(1) w set by simp
  have ch: "chain (heads t) (flist v) ys None" using t(1,2) by simp
  obtain q where q: "core_list_find t (flist v) \<lparr>data16 = of_nat i AND 0xff, idx = fidx v\<rparr> = Some q"
    "\<forall>x. q = Some x \<longrightarrow> x \<in> set ys"
    using core_list_find_total[OF ch data] by blast
  obtain p h' where r: "core_list_reverse t (flist v) = Some (p, t\<lparr>heads := h'\<rparr>)" "chain h' p (rev ys) None"
    "same_cells (set ys) h h'"
    using core_list_reverse_chain[of t "flist v" ys] t(1,2) by auto
  have perm: "permuted s xs (v\<lparr>flist := p\<rparr>, t\<lparr>heads := h'\<rparr>)"
    unfolding permuted_def using r(2) t(1,3) same_cells_trans[OF t(4) r(3)] set
    by (auto intro!: exI[of _ h'] exI[of _ "rev ys"])
  obtain w' where w': "(if q = None then find_missed (v\<lparr>flist := p\<rparr>) (t\<lparr>heads := h'\<rparr>)
      else find_found q (v\<lparr>flist := p\<rparr>) (t\<lparr>heads := h'\<rparr>)) = Some w'" "permuted s xs w'"
  proof (cases q)
    case None
    then show ?thesis using find_missed_permuted[OF perm assms(2,3)] that by auto
  next
    case (Some x)
    then have "x \<in> set xs" using q(2) set by simp
    from find_found_permuted[OF perm this assms(3)] Some that show ?thesis by auto
  qed
  moreover obtain v' t' where "w' = (v', t')" by (cases w')
  ultimately show ?thesis using q(1) r(1) by (simp add: w find_step_def Let_def)
qed

section \<open>The whole benchmark\<close>

lemma crc_loop_total:
  assumes "chain (heads s) finder xs None" "get_data16 s list = Some d"
  shows "\<exists>r. crc_loop s list finder retval = Some r"
  using assms
proof (induction xs arbitrary: finder retval)
  case Nil
  then show ?case by (subst crc_loop.simps) simp
next
  case (Cons x xs)
  then show ?case by (subst crc_loop.simps) auto
qed

lemma chain_suffix: "chain h p xs None \<Longrightarrow> x \<in> set xs \<Longrightarrow> \<exists>ys. chain h (Some x) (x # ys) None"
proof -
  assume ch: "chain h p xs None" and x: "x \<in> set xs"
  from x obtain us vs where "xs = us @ x # vs" by (auto simp: in_set_conv_decomp)
  with ch have "chain h (Some x) (x # vs) None" by auto
  then show ?thesis by blast
qed

text \<open>The part between the two sorts: remove, search, checksum, undo.\<close>

lemma remove_search_undo:
  assumes "chain (heads s) p xs None" "3 \<le> length xs" "\<forall>x\<in>set xs. node_data s x \<noteq> None"
  shows "\<exists>n y s1 finder finder' r z. get_next s p = Some n \<and> core_list_remove s n = Some (y, s1) \<and>
    core_list_find s1 p i = Some finder \<and>
    (if finder = None then get_next s1 p else Some finder) = Some finder' \<and>
    crc_loop s1 p finder' retval = Some r \<and> get_next s1 p = Some n \<and> core_list_undo_remove s1 y n = Some (z, s)"
proof -
  obtain a x y zs where xs: "xs = a # x # y # zs"
    using assms(2) by (cases xs; cases "tl xs"; cases "tl (tl xs)") auto
  have d: "distinct xs" by (rule chain_distinct[OF assms(1)])
  have p: "p = Some a" "get_next s p = Some (Some x)" "chain (heads s) (Some x) (x # y # zs) None"
    using assms(1) xs by auto
  obtain h where h: "core_list_remove s (Some x) = Some (Some y, s\<lparr>heads := h\<rparr>)"
    "chain h (Some x) (x # zs) None" "infos h (x # zs) = tl (infos (heads s) (x # y # zs))"
    "\<forall>b. b \<noteq> x \<longrightarrow> b \<noteq> y \<longrightarrow> h b = heads s b"
    "core_list_undo_remove (s\<lparr>heads := h\<rparr>) (Some y) (Some x) = Some (Some y, s)"
    using core_list_remove_undo_chain[OF p(3)] by blast
  let ?s1 = "s\<lparr>heads := h\<rparr>"
  have ha: "h a = heads s a" using h(4) d xs by auto
  then have ch: "chain (heads ?s1) p (a # x # zs) None" using assms(1) h(2) xs p(1) by auto
  have "map_option info (h x) = map_option info (heads s y)"
    using h(3) by (simp add: infos_def)
  moreover have "h b = heads s b" if "b \<in> set zs" for b using h(4) d xs that by auto
  ultimately have data: "\<forall>b\<in>set (a # x # zs). node_data ?s1 b \<noteq> None"
    using assms(3) ha xs by (auto simp: node_data_def)
  obtain finder where f: "core_list_find ?s1 p i = Some finder" "\<forall>b. finder = Some b \<longrightarrow> b \<in> set (a # x # zs)"
    using core_list_find_total[OF ch data] by blast
  have nx: "get_next ?s1 p = Some (Some x)" using ch by auto
  obtain f' ys where f': "(if finder = None then get_next ?s1 p else Some finder) = Some f'"
    "chain (heads ?s1) f' ys None"
  proof (cases finder)
    case None
    then show ?thesis using that[of "Some x" "x # zs"] nx h(2) by simp
  next
    case (Some b)
    then obtain us where "chain (heads ?s1) (Some b) (b # us) None" using chain_suffix[OF ch] f(2) by blast
    then show ?thesis using that[of "Some b" "b # us"] Some by simp
  qed
  obtain d0 where "get_data16 ?s1 p = Some d0" using data p(1) get_data16_node[of ?s1 a] by auto
  then obtain r where "crc_loop ?s1 p f' retval = Some r" using crc_loop_total[OF f'(2)] by blast
  with h(1,5) p(2) f(1) f'(1) nx show ?thesis by blast
qed

lemma regen_data_kept: "data_kept c0 c \<Longrightarrow> regen_data c = regen_data c0"
proof -
  assume k: "data_kept c0 c"
  have "regen d = regen (d AND 0xff00)" for d
    unfolding regen_def by (rule bit_word_eqI) (auto simp: bit_simps numeral_eq_Suc less_Suc_eq)
  then have "regen (data16 c) = regen (data16 c0)" using k by (metis data_kept_def)
  with k show ?thesis by (cases c; cases c0) (simp add: regen_data_def data_kept_def)
qed

text \<open>The addresses of the data of the nodes \<open>xs\<close>.\<close>

abbreviation data_addrs :: "'a store_scheme \<Rightarrow> nat list \<Rightarrow> nat set" where
  "data_addrs s xs \<equiv> data_at (heads s) ` set xs"

lemma node_data_data_at: "chain (heads s) p xs q \<Longrightarrow> x \<in> set xs \<Longrightarrow> node_data s x = datas s (data_at (heads s) x)"
  using chain_cells[of "heads s" p xs q x] by (auto simp: node_data_def data_at_def)

lemma mergesort_value:
  assumes "chain (heads s) p xs None" "2 \<le> length xs" "length xs \<le> 2 ^ 30" "bench_ok s"
    and "\<forall>x\<in>set xs. node_data s x \<noteq> None"
  shows "\<exists>q t. core_list_mergesort p cmp_complex s = Some (q, t) \<and> frame s t \<and>
    chain (heads t) q (sort_key (\<lambda>x. val_key t (data_at (heads s) x)) xs) None \<and>
    same_cells (set xs) (heads s) (heads t) \<and>
    (\<forall>d. d \<notin> data_addrs s xs \<longrightarrow> datas t d = datas s d) \<and>
    (\<forall>d\<in>data_addrs s xs. \<exists>c0 c. datas s d = Some c0 \<and> datas t d = Some c \<and> data_kept c0 c \<and> bit (data16 c) 7 \<and>
       (bit (data16 c0) 7 \<longrightarrow> data16 c AND 0x7f = data16 c0 AND 0x7f))"
proof -
  have "\<forall>x\<in>set xs. \<exists>c. datas s (data_at (heads s) x) = Some c"
    using assms(5) node_data_data_at[OF assms(1)] by fastforce
  then have "calc_from s (data_addrs s xs) s" using assms(4) by (force simp: calc_from_def)
  moreover have ne: "xs \<noteq> []" using assms(2) by auto
  ultimately obtain q t where t: "core_list_mergesort p cmp_complex s = Some (q, t)"
    "calc_from s (data_addrs s xs) t"
    "chain (heads t) q (sort_key (val_key t \<circ> data_at (heads s)) xs) None"
    "same_cells (set xs) (heads s) (heads t)"
    "\<forall>x\<in>data_addrs s xs. cached s x \<longrightarrow> val_key t x = val_key s x"
    "\<forall>x\<in>set xs. cached t (data_at (heads s) x)"
    using value_cmp.mergesort_sorts[OF assms(1) ne chain_info_at[OF assms(1)] _ order_refl assms(3)] assms(2)
    by blast
  have "\<exists>c0 c. datas s d = Some c0 \<and> datas t d = Some c \<and> data_kept c0 c \<and> bit (data16 c) 7 \<and>
       (bit (data16 c0) 7 \<longrightarrow> data16 c AND 0x7f = data16 c0 AND 0x7f)" if d: "d \<in> data_addrs s xs" for d
  proof -
    obtain c0 c where c: "datas s d = Some c0" "datas t d = Some c" "data_kept c0 c"
      using t(2) d unfolding calc_from_def by blast
    moreover have "bit (data16 c) 7" using t(6) d c(2) by (auto simp: cached_def)
    moreover have "data16 c AND 0x7f = data16 c0 AND 0x7f" if "bit (data16 c0) 7"
    proof -
      have "val_key t d = val_key s d" using t(5) d c(1) that by (metis cached_def option.simps(5))
      then have "uint (data16 c AND 0x7f) = uint (data16 c0 AND 0x7f)" using c by (simp add: val_key_def)
      then show ?thesis by (rule unsigned_word_eqI)
    qed
    ultimately show ?thesis by blast
  qed
  with t(1-4) show ?thesis by (auto simp: calc_from_def comp_def)
qed

text \<open>
  The list between iterations: sorted strictly by index, every data word equal to its regenerated
  form, at least a head, an item and a tail.
\<close>

definition list_ready :: "core_results \<Rightarrow> nat list \<Rightarrow> bool" where
  "list_ready r xs \<longleftrightarrow> chain (heads r) (rlist r) xs None \<and> 3 \<le> length xs \<and> length xs \<le> 2 ^ 30 \<and>
     (\<forall>x\<in>set xs. node_data r x \<noteq> None) \<and> sorted_wrt (<) (map (node_idx r) xs) \<and>
     (\<forall>x\<in>set xs. regenerated r (data_at (heads r) x))"

text \<open>What holds between the two sorts, relative to the state \<open>r\<close> before.\<close>

definition mid_state :: "core_results \<Rightarrow> nat list \<Rightarrow> ptr \<Rightarrow> core_results \<Rightarrow> bool" where
  "mid_state r xs p t \<longleftrightarrow> frame r t \<and> (\<exists>zs. chain (heads t) p zs None \<and> mset zs = mset xs) \<and>
     same_cells (set xs) (heads r) (heads t) \<and> (\<forall>d. d \<notin> data_addrs r xs \<longrightarrow> datas t d = datas r d) \<and>
     (\<forall>d\<in>data_addrs r xs. \<exists>c0 c. datas r d = Some c0 \<and> datas t d = Some c \<and> data_kept c0 c)"

lemma list_ready_cells:
  assumes "list_ready r xs" "d \<in> data_addrs r xs"
  shows "\<exists>c. datas r d = Some c \<and> regen_data c = c"
proof -
  obtain x where x: "x \<in> set xs" "d = data_at (heads r) x" using assms(2) by auto
  then have "node_data r x = datas r d" using assms(1) node_data_data_at by (auto simp: list_ready_def)
  moreover obtain c where "node_data r x = Some c" using assms(1) x(1) by (auto simp: list_ready_def)
  moreover have "regenerated r d" using assms(1) x by (auto simp: list_ready_def)
  ultimately have "datas r d = Some c" "map_option regen_data (datas r d) = datas r d"
    by (simp_all add: regenerated_def)
  then show ?thesis by simp
qed

lemma mid_state_data:
  assumes "list_ready r xs" "mid_state r xs p t"
  shows "regen_cells (data_addrs r xs) (datas t) = datas r" "\<forall>x\<in>set xs. node_data t x \<noteq> None"
    "\<forall>x\<in>set xs. node_idx t x = node_idx r x" "data_at (heads t) = data_at (heads r)"
proof -
  show da: "data_at (heads t) = data_at (heads r)"
    using assms(2) data_at_same_cells by (auto simp: mid_state_def)
  have kept: "\<exists>c0 c. datas r d = Some c0 \<and> datas t d = Some c \<and> idx c = idx c0 \<and> regen_data c = c0"
    if d: "d \<in> data_addrs r xs" for d
  proof -
    obtain c0 c where c: "datas r d = Some c0" "datas t d = Some c" "data_kept c0 c"
      using assms(2) d unfolding mid_state_def by blast
    have "regen_data c0 = c0" using list_ready_cells[OF assms(1) d] c(1) by auto
    then have "regen_data c = c0" "idx c = idx c0" using regen_data_kept[OF c(3)] c(3) by (simp_all add: data_kept_def)
    with c(1,2) show ?thesis by blast
  qed
  show "regen_cells (data_addrs r xs) (datas t) = datas r"
  proof
    show "regen_cells (data_addrs r xs) (datas t) d = datas r d" for d
      using kept[of d] assms(2) by (cases "d \<in> data_addrs r xs") (auto simp: regen_cells_def mid_state_def)
  qed
  have info: "map_option info (heads t x) = Some (data_at (heads r) x)" if "x \<in> set xs" for x
  proof -
    have "same_cells (set xs) (heads r) (heads t)" using assms(2) by (simp add: mid_state_def)
    moreover have "info_at (heads r) (data_at (heads r)) (set xs)"
      using assms(1) chain_info_at by (auto simp: list_ready_def)
    ultimately show ?thesis using that same_cells_info by (metis info_at_def)
  qed
  show "\<forall>x\<in>set xs. node_data t x \<noteq> None"
  proof
    fix x assume x: "x \<in> set xs"
    then obtain c where "datas t (data_at (heads r) x) = Some c" using kept by blast
    with info[OF x] show "node_data t x \<noteq> None" by (auto simp: node_data_def)
  qed
  show "\<forall>x\<in>set xs. node_idx t x = node_idx r x"
  proof
    fix x assume "x \<in> set xs"
    then obtain c0 c where "datas r (data_at (heads r) x) = Some c0" "datas t (data_at (heads r) x) = Some c" "idx c = idx c0"
      using kept by blast
    then show "node_idx t x = node_idx r x" by (simp add: node_idx_def idx_key_def da)
  qed
qed

text \<open>The search loop and the optional sort by value lead to such a state.\<close>

lemma search_and_sort:
  assumes "list_ready r xs" "bench_ok r"
  shows "\<exists>v p t r1. for_loop 0 n find_step (\<lparr>flist = rlist r, fretval = 0, ffound = 0, fmissed = 0, fidx = k\<rparr>, r)
      = Some (v, r1) \<and>
    (if 0 <s k then core_list_mergesort (flist v) cmp_complex r1 else Some (flist v, r1)) = Some (p, t) \<and>
    mid_state r xs p t"
proof -
  have L: "chain (heads r) (rlist r) xs None" "2 \<le> length xs" "length xs \<le> 2 ^ 30" "\<forall>x\<in>set xs. node_data r x \<noteq> None"
    using assms(1) by (auto simp: list_ready_def)
  have "\<exists>w. for_loop 0 n find_step (\<lparr>flist = rlist r, fretval = 0, ffound = 0, fmissed = 0, fidx = k\<rparr>, r)
      = Some w \<and> permuted r xs w"
  proof (rule for_loop_rule[where I = "\<lambda>_. permuted r xs"])
    show "permuted r xs (\<lparr>flist = rlist r, fretval = 0, ffound = 0, fmissed = 0, fidx = k\<rparr>, r)"
      using L(1) by (auto simp: permuted_def intro!: exI[of _ "heads r"] exI[of _ xs])
  qed (rule find_step_permuted[OF _ L(2,4)])
  then obtain v r1 where w: "for_loop 0 n find_step (\<lparr>flist = rlist r, fretval = 0, ffound = 0, fmissed = 0, fidx = k\<rparr>, r)
      = Some (v, r1)" "permuted r xs (v, r1)" by auto
  then obtain h ys where r1: "r1 = r\<lparr>heads := h\<rparr>" "chain h (flist v) ys None" "mset ys = mset xs"
    "same_cells (set xs) (heads r) h" by (auto simp: permuted_def)
  have set: "set ys = set xs" "length ys = length xs" using r1(3) by (auto dest: mset_eq_setD mset_eq_length)
  have da: "data_addrs r1 ys = data_addrs r xs" using data_at_same_cells[OF r1(4)] set r1(1) by simp
  have cells: "\<exists>c. datas r d = Some c" if "d \<in> data_addrs r xs" for d
    using list_ready_cells[OF assms(1) that] by blast
  then have "\<forall>d\<in>data_addrs r xs. \<exists>c0 c. datas r d = Some c0 \<and> datas r1 d = Some c \<and> data_kept c0 c"
    using r1(1) data_kept_refl by (metis (no_types, lifting) store.select_convs(2) store.surjective store.update_convs(1))
  then have "mid_state r xs (flist v) r1"
    using r1 by (auto simp: mid_state_def)
  moreover have "\<exists>p t. core_list_mergesort (flist v) cmp_complex r1 = Some (p, t) \<and> mid_state r xs p t"
  proof -
    have "chain (heads r1) (flist v) ys None" "bench_ok r1" "\<forall>x\<in>set ys. node_data r1 x \<noteq> None"
      using r1 assms(2) L(4) set permuted_node_data[OF w(2)] by auto
    from mergesort_value[OF this(1) _ _ this(2,3)] L(2,3) set obtain p t where
      t: "core_list_mergesort (flist v) cmp_complex r1 = Some (p, t)" "frame r1 t"
      "chain (heads t) p (sort_key (\<lambda>x. val_key t (data_at (heads r1) x)) ys) None"
      "same_cells (set ys) (heads r1) (heads t)"
      "\<forall>d. d \<notin> data_addrs r xs \<longrightarrow> datas t d = datas r1 d"
      "\<forall>d\<in>data_addrs r xs. \<exists>c0 c. datas r1 d = Some c0 \<and> datas t d = Some c \<and> data_kept c0 c"
      unfolding da by (metis (no_types, lifting))
    then have "mid_state r xs p t"
      using r1 same_cells_trans[OF r1(4), of "set ys" "heads t"] set(1)
      by (auto simp: mid_state_def intro!: exI[of _ "sort_key (\<lambda>x. val_key t (data_at (heads r1) x)) ys"])
    with t(1) show ?thesis by blast
  qed
  ultimately show ?thesis using w(1) by (cases "0 <s k") auto
qed

lemma sort_key_restores:
  assumes "sorted_wrt (<) (map f xs)" "mset zs = mset xs" "\<forall>x\<in>set xs. g x = f x"
  shows "sort_key g zs = xs"
proof -
  have "map g xs = map f xs" using assms(3) by simp
  then have s: "sorted_wrt (<) (map g xs)" using assms(1) by metis
  then have "distinct (map g xs)" "sorted (map g xs)"
    by (simp_all add: strict_sorted_iff)
  moreover have "set zs = set xs" using mset_eq_setD[OF assms(2)] .
  ultimately show ?thesis
    using sort_key_inj_key_eq[OF assms(2), of g] by (simp add: distinct_map)
qed

text \<open>The sort by index brings back the list cells of the state \<open>r\<close>.\<close>

lemma sort_back:
  assumes "list_ready r xs" "mid_state r xs p t"
  shows "core_list_mergesort p (cmp_idx True) t = Some (rlist r, t\<lparr>heads := heads r, datas := datas r\<rparr>)"
proof -
  obtain zs where zs: "chain (heads t) p zs None" "mset zs = mset xs"
    using assms(2) by (auto simp: mid_state_def)
  have set: "set zs = set xs" "length zs = length xs" using zs(2) by (auto dest: mset_eq_setD mset_eq_length)
  have L: "chain (heads r) (rlist r) xs None" "3 \<le> length xs" "length xs \<le> 2 ^ 30"
    "sorted_wrt (<) (map (node_idx r) xs)"
    using assms(1) by (auto simp: list_ready_def)
  note M = mid_state_data[OF assms]
  obtain q h where q: "core_list_mergesort p (cmp_idx True) t =
      Some (q, t\<lparr>heads := h, datas := regen_cells (data_addrs t zs) (datas t)\<rparr>)"
    "chain h q (sort_key (node_idx t) zs) None" "same_cells (set zs) (heads t) h"
    using mergesort_regen[OF zs(1)] L(2,3) set M(2) by auto
  have "sort_key (node_idx t) zs = xs" by (rule sort_key_restores[OF L(4) zs(2) M(3)])
  then have ch: "chain h q xs None" using q(2) by simp
  have "q = rlist r" using chain_head[OF ch] chain_head[OF L(1)] L(2) by (cases xs) auto
  moreover have "same_cells (set xs) (heads r) h"
    using same_cells_trans[OF _ q(3), of "set xs" "heads r"] assms(2) set by (simp add: mid_state_def)
  then have "h = heads r" using same_cells_same_chain[OF _ L(1)] ch calculation by blast
  moreover have "regen_cells (data_addrs t zs) (datas t) = datas r" using M(1,4) set by simp
  ultimately show ?thesis using q(1) by simp
qed

lemma core_bench_list_total:
  assumes "list_ready r xs" "bench_ok r"
  shows "\<exists>crc t. core_bench_list r k = Some (crc, t) \<and> heads t = heads r \<and> datas t = datas r \<and> frame r t"
proof -
  obtain v p t r1 where s: "for_loop 0 (nat (sint (seed3 r))) find_step
      (\<lparr>flist = rlist r, fretval = 0, ffound = 0, fmissed = 0, fidx = k\<rparr>, r) = Some (v, r1)"
    "(if 0 <s k then core_list_mergesort (flist v) cmp_complex r1 else Some (flist v, r1)) = Some (p, t)"
    "mid_state r xs p t"
    using search_and_sort[OF assms] by blast
  obtain zs where zs: "chain (heads t) p zs None" "mset zs = mset xs"
    using s(3) by (auto simp: mid_state_def)
  have set: "set zs = set xs" "length zs = length xs" using zs(2) by (auto dest: mset_eq_setD mset_eq_length)
  have L: "chain (heads r) (rlist r) xs None" "3 \<le> length xs" "\<forall>x\<in>set xs. node_data r x \<noteq> None"
    using assms(1) by (auto simp: list_ready_def)
  let ?i = "\<lparr>data16 = (if 0 <s seed3 r then (seed3 r - 1) AND 0xff else 0), idx = fidx v\<rparr>"
  let ?c = "fretval v + (ffound v * 4 - fmissed v)"
  obtain n y s1 finder finder' c z where m: "get_next t p = Some n" "core_list_remove t n = Some (y, s1)"
    "core_list_find s1 p ?i = Some finder" "(if finder = None then get_next s1 p else Some finder) = Some finder'"
    "crc_loop s1 p finder' ?c = Some c" "get_next s1 p = Some n" "core_list_undo_remove s1 y n = Some (z, t)"
    using remove_search_undo[OF zs(1), of ?i ?c] L(2) set mid_state_data(2)[OF assms(1) s(3)] by auto
  define t' where "t' = t\<lparr>heads := heads r, datas := datas r\<rparr>"
  have t': "core_list_mergesort p (cmp_idx True) t = Some (rlist r, t')" "heads t' = heads r" "datas t' = datas r" "frame r t'"
    using sort_back[OF assms(1) s(3)] s(3) by (simp_all add: t'_def mid_state_def)
  obtain a x ys where xs: "xs = a # x # ys" using L(2) by (cases xs; cases "tl xs") auto
  then have a: "rlist r = Some a" "get_next t' (rlist r) = Some (Some x)" "chain (heads t') (Some x) (x # ys) None"
    using L(1) t'(2) by auto
  have "node_data t' a \<noteq> None" using L(3) xs t'(2,3) by (simp add: node_data_def)
  then obtain d where "get_data16 t' (rlist r) = Some d" using get_data16_node a(1) by metis
  then obtain c' where "crc_loop t' (rlist r) (Some x) c = Some c'" using crc_loop_total[OF a(3)] by blast
  then have "core_bench_list r k = Some (c', t')"
    using s(1,2) m t'(1) a(2) by (simp add: core_bench_list_def Let_def)
  with t' show ?thesis by blast
qed

text \<open>
  \<open>core_bench_list\<close> on a list that is sorted by distinct indices and whose data are
  regenerated, with both seeds equal, no byte of the state block that the seed turns into a comma,
  and a matrix on which no product overflows: every search, removal and sort of the list, and every
  matrix and state run that the comparison starts, terminates without undefined behaviour; afterwards
  the nodes and the data of the list are identical to those before, so that the next call
  works on the same list again. Seeds, state block, matrix operands and the list pointer are kept.
\<close>

theorem core_bench_list_restores:
  assumes "list_ready r xs" "bench_ok r"
  shows "\<exists>crc t. core_bench_list r k = Some (crc, t) \<and> heads t = heads r \<and> datas t = datas r \<and> frame r t"
  by (rule core_bench_list_total[OF assms])

definition sample_results :: core_results where
  "sample_results = \<lparr>
     heads = [0 \<mapsto> \<lparr>lnext = Some 1, info = 0\<rparr>, 1 \<mapsto> \<lparr>lnext = Some 2, info = 1\<rparr>, 2 \<mapsto> \<lparr>lnext = None, info = 2\<rparr>],
     datas = [0 \<mapsto> \<lparr>data16 = 0x8080, idx = 0\<rparr>, 1 \<mapsto> \<lparr>data16 = 0x0202, idx = 5\<rparr>, 2 \<mapsto> \<lparr>data16 = 0xffff, idx = 0x7fff\<rparr>],
     seed1 = 0, seed2 = 0, seed3 = 2, memblock3 = [0, 0], rsize = 2, iterations = 1, execs = 7,
     rlist = Some 0, mat = \<lparr>mat_N = 0, mat_A = [], mat_B = [], mat_C = []\<rparr>,
     rcrc = 0, crclist = 0, crcmatrix = 0, crcstate = 0, err = 0\<rparr>"

lemma matrix_test_empty: "matrix_test 0 [] [] [] v = Some (0, [], [])"
  by code_simp

lemma sample_results_ready: "list_ready sample_results [0, 1, 2]" "bench_ok sample_results"
proof -
  have "regen 0x8080 = 0x8080" "regen 0x0202 = 0x0202" "regen 0xffff = 0xffff" by code_simp+
  then show "list_ready sample_results [0, 1, 2]"
    by (simp add: list_ready_def sample_results_def node_data_def node_idx_def idx_key_def data_at_def regenerated_def regen_data_def)
  have "mat_ok (mat sample_results)"
    unfolding mat_ok_def using matrix_test_empty by (simp add: sample_results_def)
  then show "bench_ok sample_results"
    by (simp add: bench_ok_def state_ok_def sample_results_def block_ok_def less_2_cases_iff)
qed

theorem core_bench_list_restores_witness:
  "\<exists>crc t. core_bench_list sample_results (-1) = Some (crc, t) \<and> heads t = heads sample_results \<and>
     datas t = datas sample_results \<and> frame sample_results t"
  using core_bench_list_restores[OF sample_results_ready] .

text \<open>
  C15. \<open>core_list_mergesort\<close> with \<open>cmp_complex\<close>, whose comparison computes the value of a node by a
  matrix or a state run the first time it meets the node and stores it in the node: it terminates
  without undefined behaviour and returns the stable sort of the nodes by the values that the nodes
  hold at the end, each of them cached (bit 7 set) and equal to the one it had when it was cached before.
  High bytes and indices of the data are kept, and so is everything outside the list.
\<close>

theorem mergesort_cmp_complex:
  assumes "chain (heads s) p xs None" "2 \<le> length xs" "length xs \<le> 2 ^ 30" "bench_ok s"
    and "\<forall>x\<in>set xs. node_data s x \<noteq> None"
  shows "\<exists>q t. core_list_mergesort p cmp_complex s = Some (q, t) \<and> frame s t \<and>
    chain (heads t) q (sort_key (\<lambda>x. val_key t (data_at (heads s) x)) xs) None \<and>
    same_cells (set xs) (heads s) (heads t) \<and>
    (\<forall>d. d \<notin> data_addrs s xs \<longrightarrow> datas t d = datas s d) \<and>
    (\<forall>d\<in>data_addrs s xs. \<exists>c0 c. datas s d = Some c0 \<and> datas t d = Some c \<and> data_kept c0 c \<and> bit (data16 c) 7 \<and>
       (bit (data16 c0) 7 \<longrightarrow> data16 c AND 0x7f = data16 c0 AND 0x7f))"
  by (rule mergesort_value[OF assms])

theorem mergesort_cmp_complex_witness:
  "\<exists>q t. core_list_mergesort (Some 0) cmp_complex sample_results = Some (q, t) \<and>
    chain (heads t) q (sort_key (\<lambda>x. val_key t x) [0, 1, 2]) None \<and>
    (\<forall>d\<in>{0, 1, 2}. \<exists>c. datas t d = Some c \<and> bit (data16 c) 7)"
proof -
  have "chain (heads sample_results) (Some 0) [0, 1, 2] None"
    "\<forall>x\<in>set [0, 1, 2]. node_data sample_results x \<noteq> None"
    by (simp_all add: sample_results_def node_data_def)
  then obtain q t where q: "core_list_mergesort (Some 0) cmp_complex sample_results = Some (q, t)"
    "chain (heads t) q (sort_key (\<lambda>x. val_key t (data_at (heads sample_results) x)) [0, 1, 2]) None"
    "\<forall>d\<in>data_addrs sample_results [0, 1, 2]. \<exists>c0 c. datas sample_results d = Some c0 \<and> datas t d = Some c \<and>
       data_kept c0 c \<and> bit (data16 c) 7 \<and> (bit (data16 c0) 7 \<longrightarrow> data16 c AND 0x7f = data16 c0 AND 0x7f)"
    using mergesort_cmp_complex[OF _ _ _ sample_results_ready(2), of "Some 0" "[0, 1, 2]"] by auto
  have d: "data_at (heads sample_results) x = x" if "x \<in> set [0, 1, 2]" for x
    using that by (auto simp: sample_results_def data_at_def)
  then have "data_addrs sample_results [0, 1, 2] = {0, 1, 2}" by simp
  moreover have "sort_key (\<lambda>x. val_key t (data_at (heads sample_results) x)) [0, 1, 2] = sort_key (val_key t) [0, 1, 2]"
    using d by (simp add: insort_key.simps)
  ultimately show ?thesis using q by (metis (no_types, lifting))
qed

end
