(* ===== verification/List_Value.thy ===== *)
theory List_Value
  imports Core_List
begin

text \<open>
  What \<open>core_bench_list\<close> of \<open>coremark/src/core_list_join.c\<close> computes, without pointers: \<open>bench_list_value\<close> gives its
  result and the three checksums as a function of the list of the data. The reordering by the searches is \<open>search_once\<close>,
  the values that the sort computes are \<open>all_values\<close>: one value for each node, in the order of the list,
  whatever comparisons the merge sort makes. The heap code is shown to compute this function.
\<close>

section \<open>The order of the list\<close>

text \<open>
  The list after a successful search for the first element with \<open>P\<close>: reversed, and the element before the
  found one (which follows it after the reversal) moved behind the head.
\<close>

definition found_order :: "('b \<Rightarrow> bool) \<Rightarrow> 'b list \<Rightarrow> 'b list" where
  "found_order P xs =
     (let us = takeWhile (\<lambda>x. \<not> P x) xs; l = butlast us @ dropWhile (\<lambda>x. \<not> P x) xs
      in if us = [] then rev xs else hd (rev l) # last us # tl (rev l))"

lemma first_such_split:
  assumes "first_such P xs = Some x"
  obtains us vs where "xs = us @ x # vs" "takeWhile (\<lambda>x. \<not> P x) xs = us" "dropWhile (\<lambda>x. \<not> P x) xs = x # vs" "P x"
proof -
  obtain vs where d: "dropWhile (\<lambda>x. \<not> P x) xs = x # vs"
    using assms by (auto simp: first_such_def split: list.splits)
  moreover have "P x" using hd_dropWhile[of "\<lambda>x. \<not> P x" xs] d by simp
  ultimately show ?thesis using that[of "takeWhile (\<lambda>x. \<not> P x) xs" vs] by (metis takeWhile_dropWhile_id)
qed

lemma first_such_NoneD: "first_such P xs = None \<Longrightarrow> dropWhile (\<lambda>x. \<not> P x) xs = []"
  by (simp add: first_such_def split: list.splits)

lemma cache_next_order:
  assumes "chain (heads s) p (rev xs) None" "first_such P xs = Some x"
  shows "\<exists>h. cache_next (Some x) p s = Some (s\<lparr>heads := h\<rparr>) \<and> chain h p (found_order P xs) None \<and>
    same_cells (set xs) (heads s) h"
proof -
  obtain us vs where xs: "xs = us @ x # vs" and w: "takeWhile (\<lambda>x. \<not> P x) xs = us" "dropWhile (\<lambda>x. \<not> P x) xs = x # vs"
    using first_such_split[OF assms(2)] by blast
  note order = found_order_def[of P xs, unfolded w Let_def]
  consider "us = []" | us' z where "us = us' @ [z]" "vs = []" | us' z vs' a where "us = us' @ [z]" "vs = vs' @ [a]"
    by (cases us rule: rev_cases; cases vs rule: rev_cases) auto
  then show ?thesis
  proof cases
    case 1
    then have "cache_next (Some x) p s = Some (s\<lparr>heads := heads s\<rparr>)" using assms(1) cache_next_last[of s p "rev vs" x p] by (simp add: xs)
    with 1 assms(1) order show ?thesis by (intro exI[of _ "heads s"]) simp
  next
    case 2
    then have "rev xs = x # z # rev us'" by (simp add: xs)
    moreover have "found_order P xs = x # z # rev us'" using 2 order by simp
    moreover have "p = Some x" using assms(1) calculation(1) by auto
    ultimately show ?thesis using assms(1) cache_next_head[of s x z "rev us'"] by (intro exI[of _ "heads s"]) simp
  next
    case 3
    then have r: "rev xs = a # rev vs' @ x # z # rev us'" by (simp add: xs)
    moreover have "found_order P xs = a # z # rev vs' @ x # rev us'" using 3 order by simp
    moreover have "p = Some a" using assms(1) r by auto
    moreover have "set xs = set (a # rev vs' @ x # z # rev us')" using arg_cong[OF r, of set] by simp
    ultimately show ?thesis using assms(1) cache_next_move[of s a "rev vs'" x z "rev us'"] by simp
  qed
qed

lemma mset_found_order: "first_such P xs = Some x \<Longrightarrow> mset (found_order P xs) = mset xs"
proof -
  assume "first_such P xs = Some x"
  then obtain us vs where xs: "xs = us @ x # vs" and w: "takeWhile (\<lambda>x. \<not> P x) xs = us" "dropWhile (\<lambda>x. \<not> P x) xs = x # vs"
    by (rule first_such_split)
  note order = found_order_def[of P xs, unfolded w Let_def]
  have hd_tl: "add_mset (hd l) (mset (tl l)) = mset l" if "l \<noteq> []" for l :: "'a list" using that by (cases l) auto
  show ?thesis
  proof (cases us rule: rev_cases)
    case Nil
    with order show ?thesis by simp
  next
    case (snoc us' z)
    let ?l = "us' @ x # vs"
    have "mset (found_order P xs) = add_mset z (add_mset (hd (rev ?l)) (mset (tl (rev ?l))))" using snoc order by (simp add: add_mset_commute)
    also have "\<dots> = add_mset z (mset (rev ?l))" by (subst hd_tl) simp_all
    also have "\<dots> = mset xs" by (simp add: xs snoc)
    finally show ?thesis .
  qed
qed

lemma takeWhile_map_comp: "takeWhile P (map f xs) = map f (takeWhile (\<lambda>x. P (f x)) xs)"
  by (simp add: takeWhile_map comp_def)

lemma dropWhile_map_comp: "dropWhile P (map f xs) = map f (dropWhile (\<lambda>x. P (f x)) xs)"
  by (simp add: dropWhile_map comp_def)

lemma first_such_map: "first_such P (map f xs) = map_option f (first_such (\<lambda>x. P (f x)) xs)"
  by (induction xs) simp_all

lemma found_order_map:
  assumes "first_such (\<lambda>x. P (f x)) xs = Some x"
  shows "found_order P (map f xs) = map f (found_order (\<lambda>x. P (f x)) xs)"
proof -
  obtain us vs where "dropWhile (\<lambda>x. \<not> P (f x)) xs = x # vs" using first_such_split[OF assms] by metis
  then have "rev (butlast (takeWhile (\<lambda>x. \<not> P (f x)) xs) @ dropWhile (\<lambda>x. \<not> P (f x)) xs) \<noteq> []" by simp
  then show ?thesis
    unfolding found_order_def Let_def takeWhile_map_comp dropWhile_map_comp
    by (auto simp: last_map rev_map map_tl hd_map simp flip: map_butlast map_append)
qed

section \<open>The search loop\<close>

text \<open>
  One search on a list of nodes with the data \<open>val\<close>: the order of the list, \<open>retval\<close>, \<open>found\<close>, \<open>missed\<close> and
  \<open>info.idx\<close> afterwards. With \<open>val\<close> the identity it works on the list of the data themselves.
\<close>

type_synonym 'b search = "'b list \<times> ee_u16 \<times> ee_u16 \<times> ee_u16 \<times> ee_s16"

definition wanted :: "ee_s16 \<Rightarrow> ee_s16 \<Rightarrow> list_data \<Rightarrow> bool" where
  "wanted b k c \<longleftrightarrow> (if 0 \<le>s k then idx c = k else data_byte (data16 c) = scast b)"

definition search_once :: "('b \<Rightarrow> list_data) \<Rightarrow> nat \<Rightarrow> 'b search \<Rightarrow> 'b search" where
  "search_once val i = (\<lambda>(xs, rv, fo, mi, k).
     let P = (\<lambda>x. wanted (of_nat i AND 0xff) k (val x)); k' = (if 0 \<le>s k then k + 1 else k)
     in case first_such P xs of
          None \<Rightarrow> (rev xs, rv + bit_of_s16 8 (data16 (val (rev xs ! 1))), fo, mi + 1, k')
        | Some x \<Rightarrow> (found_order P xs, if data16 (val x) AND 1 \<noteq> 0 then rv + bit_of_s16 9 (data16 (val x)) else rv,
                    fo + 1, mi, k'))"

definition search_from :: "'a store_scheme \<Rightarrow> nat list \<Rightarrow> find_vars \<times> 'a store_scheme \<Rightarrow> nat search \<Rightarrow> bool" where
  "search_from s xs = (\<lambda>(v, t) (ys, rv, fo, mi, k). \<exists>h. t = s\<lparr>heads := h\<rparr> \<and> chain h (flist v) ys None \<and> mset ys = mset xs \<and>
     same_cells (set xs) (heads s) h \<and> fretval v = rv \<and> ffound v = fo \<and> fmissed v = mi \<and> fidx v = k)"

lemma core_list_find_wanted:
  assumes "chain (heads s) p xs None" "\<forall>x\<in>set xs. node_data s x = Some (val x)"
  shows "core_list_find s p \<lparr>data16 = b, idx = k\<rparr> = Some (first_such (\<lambda>x. wanted b k (val x)) xs)"
  unfolding core_list_find_def using find_idx_chain[OF assms] find_data_chain[OF assms] by (simp add: wanted_def cong: if_cong)

lemma get_data16_val: "node_data s x = Some c \<Longrightarrow> get_data16 s (Some x) = Some (data16 c)"
  by (auto simp: node_data_def get_data16_def opt_simps)

lemma find_step_search:
  assumes "search_from s xs w q" "2 \<le> length xs" "\<forall>x\<in>set xs. node_data s x = Some (val x)"
  shows "\<exists>w'. find_step i w = Some w' \<and> search_from s xs w' (search_once val i q)"
proof -
  obtain v t where w: "w = (v, t)" by (cases w)
  obtain ys rv fo mi k where q: "q = (ys, rv, fo, mi, k)" by (cases q)
  obtain h where t: "t = s\<lparr>heads := h\<rparr>" "chain h (flist v) ys None" "mset ys = mset xs" "same_cells (set xs) (heads s) h"
    and v: "fretval v = rv" "ffound v = fo" "fmissed v = mi" "fidx v = k"
    using assms(1) by (auto simp: w q search_from_def)
  have set: "set ys = set xs" "length ys = length xs" using t(3) by (auto dest: mset_eq_setD mset_eq_length)
  have data: "node_data (s\<lparr>heads := g\<rparr>) x = Some (val x)" if "same_cells (set xs) (heads s) g" "x \<in> set ys" for g x
    using node_data_same_cells[OF that(1)] that(2) assms(3) set by simp
  let ?P = "\<lambda>x. wanted (of_nat i AND 0xff) k (val x)"
  have f: "core_list_find t (flist v) \<lparr>data16 = of_nat i AND 0xff, idx = fidx v\<rparr> = Some (first_such ?P ys)"
    using core_list_find_wanted[of t "flist v" ys val] t data[OF t(4)] v(4) by simp
  obtain p h' where r: "core_list_reverse t (flist v) = Some (p, t\<lparr>heads := h'\<rparr>)" "chain h' p (rev ys) None" "same_cells (set ys) h h'"
    using core_list_reverse_chain[of t "flist v" ys] t(1,2) by auto
  have sc: "same_cells (set xs) (heads s) h'" using same_cells_trans[OF t(4) r(3)] set by simp
  show ?thesis
  proof (cases "first_such ?P ys")
    case None
    obtain a b zs where z: "rev ys = a # b # zs" using assms(2) set by (cases "rev ys"; cases "tl (rev ys)") auto
    then have n: "get_next (s\<lparr>heads := h'\<rparr>) p = Some (Some b)" using r(2) by auto
    have "b \<in> set ys" using z by (metis list.set_intros set_rev)
    then have "get_data16 (s\<lparr>heads := h'\<rparr>) (Some b) = Some (data16 (val b))" by (intro get_data16_val data[OF sc])
    then show ?thesis using f r(1,2) t(1,3) n sc v z None
      by (auto simp: w q find_step_def find_missed_def search_once_def search_from_def add_mset_commute intro!: exI[of _ h'])
  next
    case (Some x)
    then have x: "x \<in> set ys" by (rule first_such_in)
    obtain h'' where c: "cache_next (Some x) p (s\<lparr>heads := h'\<rparr>) = Some (s\<lparr>heads := h''\<rparr>)"
      "chain h'' p (found_order ?P ys) None" "same_cells (set ys) h' h''"
      using cache_next_order[of "s\<lparr>heads := h'\<rparr>" p ys ?P x] r(2) Some by auto
    have "same_cells (set xs) (heads s) h''" using same_cells_trans[OF sc c(3)] set by simp
    moreover have "get_data16 (s\<lparr>heads := h'\<rparr>) (Some x) = Some (data16 (val x))" by (intro get_data16_val data[OF sc x])
    ultimately show ?thesis using f r(1,2) t(1,3) c mset_found_order[OF Some] v Some
      by (auto simp: w q find_step_def find_found_def search_once_def search_from_def Let_def)
  qed
qed

lemma find_loop_search:
  assumes "chain (heads s) p xs None" "2 \<le> length xs" "\<forall>x\<in>set xs. node_data s x = Some (val x)"
  shows "\<exists>w. for_loop 0 n find_step (\<lparr>flist = p, fretval = 0, ffound = 0, fmissed = 0, fidx = k\<rparr>, s) = Some w \<and>
    search_from s xs w (fold (search_once val) [0..<n] (xs, 0, 0, 0, k))"
proof -
  have "\<exists>w. for_loop 0 n find_step (\<lparr>flist = p, fretval = 0, ffound = 0, fmissed = 0, fidx = k\<rparr>, s) = Some w \<and>
    search_from s xs w (fold (search_once val) [0..<0 + n] (xs, 0, 0, 0, k))"
  proof (rule for_loop_rule[where I = "\<lambda>i w. search_from s xs w (fold (search_once val) [0..<i] (xs, 0, 0, 0, k))"])
    show "search_from s xs (\<lparr>flist = p, fretval = 0, ffound = 0, fmissed = 0, fidx = k\<rparr>, s)
      (fold (search_once val) [0..<0] (xs, 0, 0, 0, k))"
      using assms(1) by (auto simp: search_from_def intro!: exI[of _ "heads s"])
    fix i w assume "search_from s xs w (fold (search_once val) [0..<i] (xs, 0, 0, 0, k))"
    from find_step_search[OF this assms(2,3)] show "\<exists>w'. find_step i w = Some w' \<and>
      search_from s xs w' (fold (search_once val) [0..<Suc i] (xs, 0, 0, 0, k))" by simp
  qed
  then show ?thesis by simp
qed

lemma search_once_map:
  assumes "xs \<noteq> []" "tl xs \<noteq> []"
  shows "search_once (\<lambda>c. c) i (map val xs, r) = (case search_once val i (xs, r) of (ys, r') \<Rightarrow> (map val ys, r'))"
proof (cases r)
  case (fields rv fo mi k)
  have n: "map val (rev xs) ! Suc 0 = val (rev xs ! Suc 0)" using assms by (subst nth_map) (cases xs; cases "tl xs"; simp)+
  show ?thesis
    by (cases "first_such (\<lambda>x. wanted (of_nat i AND 0xff) k (val x)) xs")
      (simp_all add: fields search_once_def first_such_map found_order_map n Let_def rev_map)
qed

section \<open>Computing the values\<close>

text \<open>
  The results of the state benchmark, for a step and a checksum, and of the matrix benchmark, for a value, on the
  inputs of \<open>r\<close>.
\<close>

definition state_result :: "core_results \<Rightarrow> ee_s16 \<Rightarrow> ee_u16 \<Rightarrow> ee_u16" where
  "state_result r step crc = fst (the (core_bench_state (rsize r) (memblock3 r) (seed1 r) (seed2 r) step crc))"

definition matrix_result :: "core_results \<Rightarrow> ee_s16 \<Rightarrow> ee_s16" where
  "matrix_result r val = fst (the (matrix_test (mat_N (mat r)) (mat_C (mat r)) (mat_A (mat r)) (mat_B (mat r)) val))"

text \<open>
  What \<open>calc_func\<close> does to a data cell and to \<open>crc\<close>, \<open>crcmatrix\<close> and \<open>crcstate\<close>, given those results.
\<close>

type_synonym crcs = "ee_u16 \<times> ee_u16 \<times> ee_u16"

definition data_dtype :: "ee_s16 \<Rightarrow> ee_s16" where
  "data_dtype data = (let d = ucast (signed_drop_bit 3 (scast data :: ee_s32) AND 0xf) :: ee_s16 in d OR push_bit 4 d)"

definition data_step :: "ee_s16 \<Rightarrow> ee_s16" where
  "data_step data = (if data_dtype data <s 0x22 then 0x22 else data_dtype data)"

definition data_value ::
  "(ee_s16 \<Rightarrow> ee_u16 \<Rightarrow> ee_u16) \<Rightarrow> (ee_s16 \<Rightarrow> ee_s16) \<Rightarrow> ee_s16 \<Rightarrow> crcs \<Rightarrow> ee_s16 \<times> crcs" where
  "data_value st mx data = (\<lambda>(c, cm, cs).
     if data AND 0x7 = 0 then let v = st (data_step data) c in (v, c, cm, if cs = 0 then v else cs)
     else if data AND 0x7 = 1 then let v = crc16 (mx (data_dtype data)) c in (v, c, if cm = 0 then v else cm, cs)
     else (data, c, cm, cs))"

definition cell_value ::
  "(ee_s16 \<Rightarrow> ee_u16 \<Rightarrow> ee_u16) \<Rightarrow> (ee_s16 \<Rightarrow> ee_s16) \<Rightarrow> list_data \<Rightarrow> crcs \<Rightarrow> list_data \<times> crcs" where
  "cell_value st mx cell q =
     (if bit (data16 cell) 7 then (cell, q)
      else let (v, c, cm, cs) = data_value st mx (data16 cell) q
           in (cell\<lparr>data16 := (data16 cell AND 0xff00) OR 0x80 OR (v AND 0x7f)\<rparr>, crcu16 v c, cm, cs))"

fun all_values ::
  "(ee_s16 \<Rightarrow> ee_u16 \<Rightarrow> ee_u16) \<Rightarrow> (ee_s16 \<Rightarrow> ee_s16) \<Rightarrow> list_data list \<Rightarrow> crcs \<Rightarrow> list_data list \<times> crcs" where
  "all_values st mx [] q = ([], q)"
| "all_values st mx (c # cs) q =
     (let (c', q) = cell_value st mx c q; (cs', q) = all_values st mx cs q in (c' # cs', q))"

definition crcs_of :: "core_results \<Rightarrow> crcs" where
  "crcs_of r = (rcrc r, crcmatrix r, crcstate r)"

definition with_crcs :: "crcs \<Rightarrow> core_results \<Rightarrow> core_results" where
  "with_crcs q r = (case q of (c, cm, cs) \<Rightarrow> r\<lparr>rcrc := c, crcmatrix := cm, crcstate := cs\<rparr>)"

lemma matrix_result_frame:
  assumes "frame r0 r" "bench_ok r0" "0 \<le> sint v" "sint v \<le> 255"
  shows "\<exists>C. length C = length (mat_C (mat r)) \<and>
    matrix_test (mat_N (mat r)) (mat_C (mat r)) (mat_A (mat r)) (mat_B (mat r)) v = Some (matrix_result r0 v, C, mat_A (mat r))"
proof -
  have f: "mat_N (mat r) = mat_N (mat r0)" "mat_A (mat r) = mat_A (mat r0)" "mat_B (mat r) = mat_B (mat r0)"
    "length (mat_C (mat r)) = length (mat_C (mat r0))" using assms(1) by (auto simp: frame_def)
  have l: "length (mat_A (mat r0)) = mat_N (mat r0) * mat_N (mat r0)" "length (mat_C (mat r0)) = mat_N (mat r0) * mat_N (mat r0)"
    using assms(2) by (auto simp: bench_ok_def mat_ok_def)
  obtain x C where "length C = mat_N (mat r0) * mat_N (mat r0)"
    "matrix_test (mat_N (mat r0)) (mat_C (mat r0)) (mat_A (mat r0)) (mat_B (mat r0)) v = Some (x, C, mat_A (mat r0))"
    using assms(2-4) by (auto simp: bench_ok_def mat_ok_def)
  then show ?thesis using matrix_test_fresh[OF l(1,2)] f l by (auto simp: matrix_result_def)
qed

lemma state_result_frame:
  assumes "frame r0 r" "bench_ok r0" "2 \<le> sint step"
  shows "core_bench_state (rsize r) (memblock3 r) (seed1 r) (seed2 r) step crc = Some (state_result r0 step crc, memblock3 r)"
proof -
  obtain c where "core_bench_state (rsize r0) (memblock3 r0) (seed1 r0) (seed2 r0) step crc = Some (c, memblock3 r0)"
    using core_bench_state_undo[OF _ assms(3), of "rsize r0" "memblock3 r0" "seed1 r0" crc] assms(2)
    by (auto simp: bench_ok_def state_ok_def)
  with assms(1) show ?thesis by (auto simp: state_result_def frame_def)
qed

lemma calc_value_exact:
  assumes "frame r0 r" "bench_ok r0" "data_value (state_result r0) (matrix_result r0) data (crcs_of r) = (v, q)"
  shows "\<exists>C. length C = length (mat_C (mat r)) \<and> calc_value data r = Some (v, with_crcs q (r\<lparr>mat := (mat r)\<lparr>mat_C := C\<rparr>\<rparr>))"
proof -
  let ?d = "ucast (signed_drop_bit 3 (scast data :: ee_s32) AND 0xf) :: ee_s16"
  let ?t = "?d OR push_bit 4 ?d"
  have big: "2 \<le> sint (if ?t <s 0x22 then 0x22 else ?t)" by (auto simp: word_sless_alt not_less)
  consider "data AND 0x7 = 0" | "data AND 0x7 = 1" | "data AND 0x7 \<noteq> 0" "data AND 0x7 \<noteq> 1" by blast
  then show ?thesis
  proof cases
    case 1
    then show ?thesis
      using state_result_frame[OF assms(1,2) big] assms(3)
      by (intro exI[of _ "mat_C (mat r)"]) (auto simp: calc_value_def data_value_def data_step_def data_dtype_def crcs_of_def with_crcs_def Let_def)
  next
    case 2
    obtain C where "length C = length (mat_C (mat r))"
      "matrix_test (mat_N (mat r)) (mat_C (mat r)) (mat_A (mat r)) (mat_B (mat r)) ?t = Some (matrix_result r0 ?t, C, mat_A (mat r))"
      using matrix_result_frame[OF assms(1,2) dtype_bounds] by blast
    then show ?thesis using 2 assms(3)
      by (intro exI[of _ C]) (auto simp: calc_value_def data_value_def data_step_def data_dtype_def crcs_of_def with_crcs_def core_bench_matrix_def Let_def)
  next
    case 3
    then show ?thesis using assms(3)
      by (intro exI[of _ "mat_C (mat r)"]) (auto simp: calc_value_def data_value_def data_step_def data_dtype_def crcs_of_def with_crcs_def Let_def)
  qed
qed

lemma calc_func_exact:
  assumes "frame r0 r" "bench_ok r0" "datas r d = Some c" "cell_value (state_result r0) (matrix_result r0) c (crcs_of r) = (c', q)"
  shows "\<exists>t. calc_func d r = Some (data16 c' AND 0x7f, t) \<and> heads t = heads r \<and> datas t = (datas r)(d \<mapsto> c') \<and>
    frame r0 t \<and> crcs_of t = q \<and> (bit (data16 c) 7 \<longrightarrow> t = r)"
proof (cases "bit (data16 c) 7")
  case True
  then have "calc_func d r = Some (data16 c AND 0x7f, r)" "c' = c" "q = crcs_of r"
    using assms(3,4) by (auto simp: calc_func_def optype_bit cell_value_def)
  with assms(1,3) show ?thesis by (simp add: fun_upd_idem)
next
  case False
  obtain v x y z where v: "data_value (state_result r0) (matrix_result r0) (data16 c) (crcs_of r) = (v, x, y, z)" by (metis prod_cases4)
  obtain C where C: "length C = length (mat_C (mat r))"
    "calc_value (data16 c) r = Some (v, with_crcs (x, y, z) (r\<lparr>mat := (mat r)\<lparr>mat_C := C\<rparr>\<rparr>))"
    using calc_value_exact[OF assms(1,2) v] by blast
  have c': "c' = c\<lparr>data16 := (data16 c AND 0xff00) OR 0x80 OR (v AND 0x7f)\<rparr>" "q = (crcu16 v x, y, z)"
    using assms(4) False v by (auto simp: cell_value_def)
  define t where "t = with_crcs q (r\<lparr>mat := (mat r)\<lparr>mat_C := C\<rparr>, datas := (datas r)(d \<mapsto> c')\<rparr>)"
  have "calc_func d r = Some (v AND 0x7f, t)"
    using False C(2) assms(3) by (simp add: calc_func_def optype_bit set_data_def c' t_def with_crcs_def Let_def)
  moreover have "v AND 0x7f = data16 c' AND 0x7f" by (simp add: c' cached_word)
  moreover have fr: "frame r0 t"
  proof -
    obtain v' r' where r': "calc_value (data16 c) r = Some (v', r')" "frame r r'"
      using calc_value_defined[OF bench_ok_frame[OF assms(1,2)]] by blast
    then have "frame r (with_crcs (x, y, z) (r\<lparr>mat := (mat r)\<lparr>mat_C := C\<rparr>\<rparr>))" using C(2) by simp
    then have "frame r t" by (simp add: t_def c' with_crcs_def frame_def)
    with assms(1) show ?thesis by (rule frame_trans)
  qed
  moreover have "heads t = heads r" "datas t = (datas r)(d \<mapsto> c')" "crcs_of t = q"
    by (simp_all add: t_def c'(2) with_crcs_def crcs_of_def)
  ultimately show ?thesis using False by auto
qed

fun calc_all :: "nat list \<Rightarrow> core_results \<Rightarrow> core_results option" where
  "calc_all [] r = Some r"
| "calc_all (d # ds) r = do { (_, r) \<leftarrow> calc_func d r; calc_all ds r }"

lemma calc_all_append: "calc_all (ds @ es) r = Option.bind (calc_all ds r) (calc_all es)"
  by (induction ds arbitrary: r) (auto split: bind_split)

lemma calc_all_values:
  assumes "frame r0 r" "bench_ok r0" "distinct ds" "list_all2 (\<lambda>d c. datas r d = Some c) ds cs"
    and "all_values (state_result r0) (matrix_result r0) cs (crcs_of r) = (cs', q)"
  shows "\<exists>t. calc_all ds r = Some t \<and> frame r0 t \<and> heads t = heads r \<and> list_all2 (\<lambda>d c. datas t d = Some c) ds cs' \<and>
    (\<forall>d. d \<notin> set ds \<longrightarrow> datas t d = datas r d) \<and> crcs_of t = q"
  using assms
proof (induction ds arbitrary: r cs cs' q)
  case (Cons d ds)
  then obtain c cs1 where cs: "cs = c # cs1" "datas r d = Some c" "list_all2 (\<lambda>d c. datas r d = Some c) ds cs1"
    by (cases cs) auto
  obtain c' q1 cs1' q2 where v: "cell_value (state_result r0) (matrix_result r0) c (crcs_of r) = (c', q1)" "all_values (state_result r0) (matrix_result r0) cs1 q1 = (cs1', q2)"
    "cs' = c' # cs1'" "q = q2"
    using Cons.prems(5) cs(1) by (auto split: prod.splits)
  obtain t where t: "calc_func d r = Some (data16 c' AND 0x7f, t)" "heads t = heads r" "datas t = (datas r)(d \<mapsto> c')"
    "frame r0 t" "crcs_of t = q1"
    using calc_func_exact[OF Cons.prems(1,2) cs(2) v(1)] by blast
  have d: "d \<notin> set ds" "distinct ds" using Cons.prems(3) by auto
  have "list_all2 (\<lambda>d c. datas t d = Some c) ds cs1"
    using cs(3) d(1) by (rule_tac list.rel_mono_strong[of "\<lambda>d c. datas r d = Some c"]) (auto simp: t(3))
  then obtain u where u: "calc_all ds t = Some u" "frame r0 u" "heads u = heads t"
    "list_all2 (\<lambda>d c. datas u d = Some c) ds cs1'" "\<forall>d. d \<notin> set ds \<longrightarrow> datas u d = datas t d" "crcs_of u = q2"
    using Cons.IH[OF t(4) Cons.prems(2) d(2), of cs1 cs1' q2] v(2) t(5) by blast
  with t v d show ?case by (intro exI[of _ u]) auto
qed (auto simp: list_all2_Cons1)

text \<open>A comparison is two calls of \<open>calc_func\<close>.\<close>

lemma cmp_complex_calc:
  "cmp_complex a b r = Some (c, t) \<Longrightarrow> calc_all [a, b] r = Some t"
  by (auto simp: cmp_complex_def opt_simps)

lemma pass_one_calc:
  "pass_runs cmp_complex dof 1 xs s = Some (ys, n, t) \<Longrightarrow>
   calc_all (map dof (take (2 * (length xs div 2)) xs)) s = Some t"
proof (induction xs arbitrary: s ys n rule: induct_list012)
  case 1
  then show ?case by (simp add: pass_runs.simps)
next
  case (2 x)
  then show ?case by (auto simp: pass_runs.simps[of _ _ _ "[x]"] pass_runs.simps[of _ _ _ "[]"])
next
  case (3 x y zs)
  then obtain c s1 ws m where "cmp_complex (dof x) (dof y) s = Some (c, s1)" "pass_runs cmp_complex dof 1 zs s1 = Some (ws, m, t)"
    by (subst (asm) pass_runs.simps) (auto simp: opt_simps split: if_splits)
  then have "calc_all [dof x, dof y] s = Some s1" "calc_all (map dof (take (2 * (length zs div 2)) zs)) s1 = Some t"
    using "3.IH"(1) cmp_complex_calc by blast+
  with calc_all_append[of "[dof x, dof y]" "map dof (take (2 * (length zs div 2)) zs)" s] show ?case by (simp del: calc_all.simps)
qed

text \<open>Once the values of all nodes but one are cached, a sort computes the value of that one and nothing else.\<close>

lemma cached_calc: "cached r d \<Longrightarrow> \<exists>v. calc_func d r = Some (v, r)"
  by (auto simp: cached_def calc_func_def optype_bit split: option.splits)

lemma cached_heads [simp]: "cached (r\<lparr>heads := h\<rparr>) = cached r"
  by (simp add: cached_def fun_eq_iff)

lemma sort_rest_calc:
  assumes "\<forall>x\<in>A. x \<noteq> d \<longrightarrow> cached s1 x" "calc_func d s1 = Some (v, s2)" "\<forall>x\<in>A. cached s2 x"
    and "sort_runs cmp_complex dof k xs s1 = Some (ys, t)" "dof ` set xs \<subseteq> A" "0 < k" "length xs \<le> 2 ^ 30"
  shows "\<exists>h. t = s1\<lparr>heads := h\<rparr> \<or> t = s2\<lparr>heads := h\<rparr>"
proof -
  define ok where "ok = (\<lambda>B r. B \<subseteq> A \<and> (\<exists>h. r = s1\<lparr>heads := h\<rparr> \<or> r = s2\<lparr>heads := h\<rparr>))"
  have calc: "\<exists>w u. calc_func a r = Some (w, u) \<and> ok B u" if r: "ok B r" "a \<in> B" for B r a
  proof -
    obtain h where h: "a \<in> A" "r = s1\<lparr>heads := h\<rparr> \<or> r = s2\<lparr>heads := h\<rparr>" using r by (auto simp: ok_def)
    consider "r = s1\<lparr>heads := h\<rparr>" "a = d" | "cached r a" using h assms(1,3) by auto
    then show ?thesis
    proof cases
      case 1
      then have "calc_func a r = Some (v, s2\<lparr>heads := h\<rparr>)" using assms(2) by (simp add: calc_func_cells)
      with r(1) show ?thesis unfolding ok_def by blast
    next
      case 2
      then show ?thesis using cached_calc[of r a] r(1) by blast
    qed
  qed
  have total: "list_cmp_total cmp_complex ok"
  proof
    fix B s a b assume "ok B s" "a \<in> B" "b \<in> B"
    then obtain v1 r1 v2 r2 where "calc_func a s = Some (v1, r1)" "calc_func b r1 = Some (v2, r2)" "ok B r2"
      using calc by blast
    then show "\<exists>c t. cmp_complex a b s = Some (c, t) \<and> ok B t" by (simp add: cmp_complex_def)
  next
    show "ok B (s\<lparr>heads := h\<rparr>) = ok B s" for B s h
    proof -
      have "\<exists>g. s = u\<lparr>heads := g\<rparr>" if "s\<lparr>heads := h\<rparr> = u\<lparr>heads := k\<rparr>" for u :: core_results and k
        using that by (intro exI[of _ "heads s"]) (cases s; cases u; simp)
      moreover have "\<exists>k. s\<lparr>heads := h\<rparr> = u\<lparr>heads := k\<rparr>" if "s = u\<lparr>heads := g\<rparr>" for u :: core_results and g
        using that by (intro exI[of _ h]) simp
      ultimately show ?thesis unfolding ok_def by metis
    qed
  qed
  have "s1 = s1\<lparr>heads := heads s1\<rparr>" by simp
  then have "ok A s1" unfolding ok_def by blast
  with list_cmp_total.sort_runs_total[OF total this assms(5-7)] assms(4) show ?thesis by (auto simp: ok_def)
qed

lemma calc_all_cached:
  assumes "calc_from r0 A r" "set ds \<subseteq> A" "calc_all ds r = Some t"
  shows "calc_from r0 A t \<and> (\<forall>d\<in>A. d \<in> set ds \<or> cached r d \<longrightarrow> cached t d)"
  using assms
proof (induction ds arbitrary: r)
  case (Cons d ds)
  obtain v u where u: "calc_func d r = Some (v, u)" "calc_from r0 A u" "cached u d" "\<forall>x\<in>A. cached r x \<longrightarrow> cached u x"
    using calc_func_from[OF Cons.prems(1), of d] Cons.prems(2) by auto
  with Cons.IH[OF u(2)] Cons.prems(2,3) show ?case by auto
qed simp

lemma sort_calc:
  assumes "sort_runs cmp_complex dof 1 xs s = Some (ys, t)" "calc_from s A s" "dof ` set xs = A" "2 \<le> length xs" "length xs \<le> 2 ^ 30"
  shows "\<exists>u h. calc_all (map dof xs) s = Some u \<and> t = u\<lparr>heads := h\<rparr>"
proof -
  obtain zs n s1 where p: "pass_runs cmp_complex dof 1 xs s = Some (zs, n, s1)"
    using assms(1) by (subst (asm) sort_runs.simps) (auto split: option.splits)
  have k: "(0::nat) < 1" by simp
  have zs: "set zs = set xs" "length zs = length xs"
    using mset_eq_setD[OF pass_runs_mset[OF k p]] pass_runs_count[OF k p] by simp_all
  have s1: "calc_from s A s1" using value_cmp.pass_runs_total[OF assms(2) _ k, of dof xs] assms(3) p by auto
  have all: "\<forall>x\<in>A. cached t x"
    using value_cmp.sort_runs_compared[OF assms(1,2) _ assms(4)] assms(3) by (auto simp: all_blocks_1 value_cmp.compared_def)
  let ?m = "2 * (length xs div 2)"
  have c1: "calc_all (map dof (take ?m xs)) s = Some s1" by (rule pass_one_calc[OF p])
  have sub: "set (map dof (take ?m xs)) \<subseteq> A" using assms(3) by (auto dest: in_set_takeD)
  let ?d = "dof (last xs)"
  have xs: "xs = butlast xs @ [last xs]" "last xs \<in> set xs" using assms(4) by (cases xs; simp)+
  then have d: "?d \<in> A" using assms(3) by blast
  obtain v s2 where s2: "calc_func ?d s1 = Some (v, s2)" "cached s2 ?d" "\<forall>x\<in>A. cached s1 x \<longrightarrow> cached s2 x"
    using calc_func_from[OF s1 d] by blast
  have same: "s2 = s1" if "cached s1 ?d" using cached_calc[OF that] s2(1) by auto
  have "set (butlast xs) \<subseteq> set (take ?m xs)" by (simp add: butlast_conv_take set_take_subset_set_take)
  then have but: "cached s1 x" if "x \<in> A" "x \<noteq> ?d" for x
  proof -
    have "x \<in> dof ` set xs" using that(1) assms(3) by metis
    then obtain y where "y \<in> set xs" "x = dof y" by blast
    then have "x \<in> set (map dof (take ?m xs))"
      using \<open>set (butlast xs) \<subseteq> set (take ?m xs)\<close> that(2) xs(1) by (metis Un_iff empty_iff image_eqI insertE list.set_map list.simps(15) set_append set_empty subsetD)
    then show ?thesis using calc_all_cached[OF assms(2) sub c1] that(1) by blast
  qed
  have u: "calc_all (map dof xs) s = Some s2"
  proof (cases "even (length xs)")
    case True
    then have m: "take ?m xs = xs" by simp
    then have "cached s1 ?d" using calc_all_cached[OF assms(2) sub c1] d xs(2) by auto
    with c1 m same show ?thesis by simp
  next
    case False
    then have "?m = length xs - 1" by presburger
    then have "take ?m xs = butlast xs" by (simp add: butlast_conv_take)
    moreover have "map dof xs = map dof (butlast xs) @ [?d]" using arg_cong[OF xs(1), of "map dof"] by simp
    ultimately show ?thesis using c1 s2(1) calc_all_append[of "map dof (butlast xs)" "[?d]" s] by simp
  qed
  have "\<exists>h. t = s1\<lparr>heads := h\<rparr> \<or> t = s2\<lparr>heads := h\<rparr>"
  proof (cases "n \<le> 1")
    case True
    then have "t = s1\<lparr>heads := heads s1\<rparr>" using assms(1) p by (simp add: sort_runs.simps[of cmp_complex dof "Suc 0"])
    then show ?thesis by blast
  next
    case False
    then have "sort_runs cmp_complex dof (1 * 2) zs s1 = Some (ys, t)"
      using assms(1) p by (simp add: sort_runs.simps[of cmp_complex dof "Suc 0"])
    moreover have "\<forall>x\<in>A. cached s2 x" using but s2(2,3) by blast
    ultimately show ?thesis using sort_rest_calc[of A ?d s1 v s2 dof "1 * 2" zs ys t] but s2(1) zs assms(3,5) by auto
  qed
  moreover have "s2 = s1" if "t = s1\<lparr>heads := h\<rparr>" for h using all d that same by simp
  ultimately have "\<exists>h. t = s2\<lparr>heads := h\<rparr>" by blast
  with u show ?thesis by blast
qed

section \<open>The checksums\<close>

text \<open>\<open>n\<close> times the same value.\<close>

fun crc_repeat :: "nat \<Rightarrow> ee_s16 \<Rightarrow> ee_u16 \<Rightarrow> ee_u16" where
  "crc_repeat 0 d crc = crc"
| "crc_repeat (Suc n) d crc = crc_repeat n d (crc16 d crc)"

lemma crc_loop_steps:
  assumes "chain (heads s) finder xs None" "get_data16 s list = Some d"
  shows "crc_loop s list finder retval = Some (crc_repeat (length xs) d retval)"
  using assms
proof (induction xs arbitrary: finder retval)
  case Nil
  then show ?case by (subst crc_loop.simps) simp
next
  case (Cons x xs)
  then show ?case by (subst crc_loop.simps) auto
qed

text \<open>From the found element on, or from the second one.\<close>

definition crc_steps :: "(list_data \<Rightarrow> bool) \<Rightarrow> list_data list \<Rightarrow> nat" where
  "crc_steps P cs = (let n = length (dropWhile (\<lambda>c. \<not> P c) cs) in if n = 0 then length cs - 1 else n)"

lemma remove_search_value:
  assumes "chain (heads s) p xs None" "3 \<le> length xs" "\<forall>x\<in>set xs. node_data s x = Some (val x)"
  shows "\<exists>n y s1 finder finder' z. get_next s p = Some n \<and> core_list_remove s n = Some (y, s1) \<and>
    core_list_find s1 p \<lparr>data16 = b, idx = k\<rparr> = Some finder \<and>
    (if finder = None then get_next s1 p else Some finder) = Some finder' \<and>
    crc_loop s1 p finder' retval =
      Some (crc_repeat (crc_steps (wanted b k) (val (hd xs) # map val (drop 2 xs))) (data16 (val (hd xs))) retval) \<and>
    get_next s1 p = Some n \<and> core_list_undo_remove s1 y n = Some (z, s)"
proof -
  obtain a x y zs where xs: "xs = a # x # y # zs"
    using assms(2) by (cases xs; cases "tl xs"; cases "tl (tl xs)") auto
  have d: "distinct xs" by (rule chain_distinct[OF assms(1)])
  have p: "p = Some a" "get_next s p = Some (Some x)" "chain (heads s) (Some x) (x # y # zs) None"
    using assms(1) xs by auto
  obtain h where h: "core_list_remove s (Some x) = Some (Some y, s\<lparr>heads := h\<rparr>)"
    "chain h (Some x) (x # zs) None" "infos h (x # zs) = tl (infos (heads s) (x # y # zs))"
    "\<forall>b. b \<noteq> x \<longrightarrow> b \<noteq> y \<longrightarrow> h b = heads s b"
    "core_list_undo_remove (s\<lparr>heads := h\<rparr>) (Some y) (Some x) = Some (Some y, s)"
    using core_list_remove_undo_chain[OF p(3)] by blast
  let ?s1 = "s\<lparr>heads := h\<rparr>" and ?val = "val(x := val y)"
  have ha: "h a = heads s a" using h(4) d xs by auto
  then have ch: "chain (heads ?s1) p (a # x # zs) None" using assms(1) h(2) xs p(1) by auto
  have "map_option info (h x) = map_option info (heads s y)" using h(3) by (simp add: infos_def)
  moreover have "h b = heads s b" if "b \<in> set zs" for b using h(4) d xs that by auto
  ultimately have data: "\<forall>b\<in>set (a # x # zs). node_data ?s1 b = Some (?val b)"
    using assms(3) ha xs d by (auto simp: node_data_def)
  let ?P = "\<lambda>z. wanted b k (?val z)"
  have f: "core_list_find ?s1 p \<lparr>data16 = b, idx = k\<rparr> = Some (first_such ?P (a # x # zs))"
    by (rule core_list_find_wanted[OF ch data])
  have nx: "get_next ?s1 p = Some (Some x)" using ch by auto
  have vals: "val (hd xs) # map val (drop 2 xs) = map ?val (a # x # zs)" using d xs by auto
  obtain f' where f': "(if first_such ?P (a # x # zs) = None then get_next ?s1 p else Some (first_such ?P (a # x # zs))) = Some f'"
    "\<exists>us. chain (heads ?s1) f' us None \<and> length us = crc_steps (wanted b k) (map ?val (a # x # zs))"
  proof (cases "first_such ?P (a # x # zs)")
    case None
    then have "dropWhile (\<lambda>z. \<not> ?P z) (a # x # zs) = []" by (rule first_such_NoneD)
    then have "crc_steps (wanted b k) (map ?val (a # x # zs)) = length (x # zs)"
      unfolding crc_steps_def dropWhile_map_comp Let_def by (simp only: list.size map_append list.map) simp
    moreover have "chain (heads ?s1) (Some x) (x # zs) None" using h(2) by simp
    ultimately show ?thesis using that[of "Some x"] nx None by metis
  next
    case (Some z)
    then obtain us vs where z: "a # x # zs = us @ z # vs" "dropWhile (\<lambda>z. \<not> ?P z) (a # x # zs) = z # vs"
      using first_such_split[of ?P "a # x # zs" z] by metis
    have "chain (heads ?s1) (Some z) (z # vs) None" using ch unfolding z(1) by auto
    moreover have "crc_steps (wanted b k) (map ?val (a # x # zs)) = length (z # vs)"
      unfolding crc_steps_def dropWhile_map_comp z(2) by (simp add: Let_def)
    ultimately show ?thesis using that[of "Some z"] Some by fastforce
  qed
  have "get_data16 ?s1 p = Some (data16 (val (hd xs)))" using get_data16_val[of ?s1 a] data p(1) xs d by auto
  then have "crc_loop ?s1 p f' retval = Some (crc_repeat (crc_steps (wanted b k) (map ?val (a # x # zs))) (data16 (val (hd xs))) retval)"
    using crc_loop_steps f'(2) by metis
  with h(1,5) p(2) f f'(1) nx vals show ?thesis by metis
qed

lemma length_search_once: "length (fst (search_once val i q)) = length (fst q)"
proof (cases q)
  case (fields xs rv fo mi k)
  show ?thesis
    by (cases "first_such (\<lambda>x. wanted (of_nat i AND 0xff) k (val x)) xs")
      (auto simp: fields search_once_def Let_def dest!: mset_found_order mset_eq_length)
qed

lemma fold_search_map:
  assumes "2 \<le> length xs"
  shows "fold (search_once (\<lambda>c. c)) is (map val xs, r) = (case fold (search_once val) is (xs, r) of (ys, r') \<Rightarrow> (map val ys, r'))"
  using assms
proof (induction "is" arbitrary: xs r)
  case (Cons i "is")
  obtain ys r' where q: "search_once val i (xs, r) = (ys, r')" by (cases "search_once val i (xs, r)")
  then have "length ys = length xs" using length_search_once[of val i "(xs, r)"] by simp
  moreover have "search_once (\<lambda>c. c) i (map val xs, r) = (map val ys, r')"
    using search_once_map[of xs i val r] Cons.prems q by (cases xs; cases "tl xs") auto
  ultimately show ?case using Cons.IH[of ys r'] Cons.prems q by simp
qed simp

section \<open>The benchmark on lists of data\<close>

text \<open>
  \<open>core_bench_list\<close> as a function of the list of the data: the result, and the three checksums afterwards.
\<close>

definition cached_key :: "list_data \<Rightarrow> int" where
  "cached_key c = uint (data16 c AND 0x7f)"

definition bench_list_value ::
  "(ee_s16 \<Rightarrow> ee_u16 \<Rightarrow> ee_u16) \<Rightarrow> (ee_s16 \<Rightarrow> ee_s16) \<Rightarrow> ee_s16 \<Rightarrow> list_data list \<Rightarrow> crcs \<Rightarrow> ee_s16 \<Rightarrow> ee_u16 \<times> crcs"
  where
  "bench_list_value st mx n cs q k =
     (let (ds, rv, fo, mi, k') = fold (search_once (\<lambda>c. c)) [0..<nat (sint n)] (cs, 0, 0, 0, k);
          (ds, q) = (if 0 <s k then case all_values st mx ds q of (vs, q) \<Rightarrow> (sort_key cached_key vs, q) else (ds, q));
          w = wanted (if 0 <s n then (n - 1) AND 0xff else 0) k';
          rv = crc_repeat (crc_steps w (hd ds # drop 2 ds)) (data16 (hd ds)) (rv + (fo * 4 - mi))
      in (crc_repeat (length cs - 1) (data16 (hd cs)) rv, q))"

text \<open>The sort by value on the nodes is the sort by value on the data.\<close>

lemma sort_by_value:
  assumes "chain (heads s) p ys None" "2 \<le> length ys" "length ys \<le> 2 ^ 30" "frame r s" "bench_ok r"
    and "\<forall>x\<in>set ys. node_data s x = Some (val x)" "inj_on (data_at (heads s)) (set ys)"
    and "all_values (state_result r) (matrix_result r) (map val ys) (crcs_of s) = (vs, q)"
  shows "\<exists>p' t zs val'. core_list_mergesort p cmp_complex s = Some (p', t) \<and> chain (heads t) p' zs None \<and>
    (\<forall>x\<in>set zs. node_data t x = Some (val' x)) \<and> length zs = length ys \<and> map val' zs = sort_key cached_key vs \<and> crcs_of t = q"
proof -
  let ?dof = "data_at (heads s)"
  have ne: "ys \<noteq> []" using assms(2) by auto
  have cell: "datas s (?dof x) = Some (val x)" if "x \<in> set ys" for x
    using node_data_data_at[OF assms(1) that] assms(6) that by simp
  have ok: "bench_ok s" by (rule bench_ok_frame[OF assms(4,5)])
  have cf: "calc_from s (data_addrs s ys) s" using ok cell by (force simp: calc_from_def)
  obtain zs t p' h where z: "sort_runs cmp_complex ?dof 1 ys s = Some (zs, t)"
    "core_list_mergesort p cmp_complex s = Some (p', t\<lparr>heads := h\<rparr>)" "chain h p' zs None" "mset zs = mset ys"
    "same_cells (set ys) (heads s) h"
    using value_cmp.mergesort_permutes[OF assms(1) ne chain_info_at[OF assms(1)] cf order_refl assms(3)] by blast
  have set: "set zs = set ys" "length zs = length ys" using z(4) by (auto dest: mset_eq_setD mset_eq_length)
  have key: "zs = sort_key (val_key t \<circ> ?dof) ys"
    using value_cmp.sort_runs_by[where dof = ?dof and f = "val_key t" and xs = ys and A = "data_addrs s ys" and k = 1 and ?r0.0 = s] z(1) cf
    by (simp add: sort_blocks_1 value_cmp.agrees_def)
  obtain u g where u: "calc_all (map ?dof ys) s = Some u" "t = u\<lparr>heads := g\<rparr>"
    using sort_calc[OF z(1) cf refl assms(2,3)] by blast
  have "distinct (map ?dof ys)" using chain_distinct[OF assms(1)] assms(7) by (simp add: distinct_map)
  moreover have "list_all2 (\<lambda>d c. datas s d = Some c) (map ?dof ys) (map val ys)"
    using cell by (simp add: list.rel_map list.rel_refl_strong)
  ultimately obtain u' where u': "calc_all (map ?dof ys) s = Some u'" "list_all2 (\<lambda>d c. datas u' d = Some c) (map ?dof ys) vs" "crcs_of u' = q"
    using calc_all_values[OF assms(4,5) _ _ assms(8)] by blast
  define val' where "val' = (\<lambda>x. the (datas u (?dof x)))"
  have l2: "list_all2 (\<lambda>x c. datas u (?dof x) = Some c) ys vs" using u u' by (simp add: list.rel_map)
  then have vs: "map val' ys = vs"
    by (induction ys vs rule: list_all2_induct) (simp_all add: val'_def)
  have some: "datas u (?dof x) = Some (val' x)" if x: "x \<in> set ys" for x
  proof -
    obtain i where i: "i < length ys" "x = ys ! i" using x by (auto simp: in_set_conv_nth)
    then have "datas u (?dof x) = Some (vs ! i)" using list_all2_nthD[OF l2] by simp
    then show ?thesis by (simp add: val'_def)
  qed
  have "map val' zs = sort_key cached_key vs"
  proof -
    have "zs = sort_key (\<lambda>x. cached_key (val' x)) ys"
      unfolding key by (rule sort_key_cong_set) (simp add: val_key_def u(2) some cached_key_def)
    then show ?thesis using vs map_sort_key[of val' cached_key ys] by simp
  qed
  moreover have "node_data (t\<lparr>heads := h\<rparr>) x = Some (val' x)" if "x \<in> set zs" for x
  proof -
    have "map_option info (h x) = Some (?dof x)"
      using same_cells_info[OF z(5), of x] chain_info_at[OF assms(1)] that set by (simp add: info_at_def)
    then show ?thesis using some that set u(2) by (auto simp: node_data_def)
  qed
  moreover have "crcs_of (t\<lparr>heads := h\<rparr>) = q" using u u' by (simp add: crcs_of_def)
  ultimately show ?thesis using z(2,3) set by (intro exI[of _ p'] exI[of _ "t\<lparr>heads := h\<rparr>"] exI[of _ zs] exI[of _ val']) simp
qed

lemma crcs_of_upd [simp]:
  "crcs_of (r\<lparr>heads := h\<rparr>) = crcs_of r" "crcs_of (r\<lparr>datas := d\<rparr>) = crcs_of r"
  by (simp_all add: crcs_of_def)

lemma list_ready_inj:
  assumes "list_ready r xs"
  shows "inj_on (data_at (heads r)) (set xs)"
proof (rule inj_onI)
  fix x y assume xy: "x \<in> set xs" "y \<in> set xs" "data_at (heads r) x = data_at (heads r) y"
  then have "node_idx r x = node_idx r y" by (simp add: node_idx_def)
  moreover have "sorted_wrt (<) (map (node_idx r) xs)" using assms by (simp add: list_ready_def)
  then have "distinct (map (node_idx r) xs)" by (simp add: strict_sorted_iff)
  ultimately show "x = y" using xy(1,2) by (auto simp: distinct_map inj_on_def)
qed

text \<open>The whole benchmark, between the search loop and the second sort.\<close>

lemma bench_list_value_total:
  assumes "list_ready r xs" "bench_ok r"
  shows "\<exists>crc t. core_bench_list r k = Some (crc, t) \<and> heads t = heads r \<and> datas t = datas r \<and> frame r t \<and>
    (crc, crcs_of t) = bench_list_value (state_result r) (matrix_result r) (seed3 r) (map (the \<circ> node_data r) xs) (crcs_of r) k"
proof -
  define val where "val = the \<circ> node_data r"
  let ?n = "nat (sint (seed3 r))"
  have L: "chain (heads r) (rlist r) xs None" "3 \<le> length xs" "2 \<le> length xs" "length xs \<le> 2 ^ 30" "\<forall>x\<in>set xs. node_data r x = Some (val x)"
    using assms(1) by (auto simp: list_ready_def val_def)
  obtain w where w: "for_loop 0 ?n find_step (\<lparr>flist = rlist r, fretval = 0, ffound = 0, fmissed = 0, fidx = k\<rparr>, r) = Some w"
    "search_from r xs w (fold (search_once val) [0..<?n] (xs, 0, 0, 0, k))"
    using find_loop_search[OF L(1,3,5)] by blast
  obtain ys rv fo mi k' where q: "fold (search_once val) [0..<?n] (xs, 0, 0, 0, k) = (ys, rv, fo, mi, k')"
    by (metis prod_cases5)
  have spec: "fold (search_once (\<lambda>c. c)) [0..<?n] (map val xs, 0, 0, 0, k) = (map val ys, rv, fo, mi, k')"
    using fold_search_map[OF L(3), of "[0..<?n]" val "(0, 0, 0, k)"] q by simp
  obtain v r1 where vr: "w = (v, r1)" by (cases w)
  obtain h where r1: "r1 = r\<lparr>heads := h\<rparr>" "chain h (flist v) ys None" "mset ys = mset xs" "same_cells (set xs) (heads r) h"
    "fretval v = rv" "ffound v = fo" "fmissed v = mi" "fidx v = k'"
    using w(2) q vr by (auto simp: search_from_def)
  have set: "set ys = set xs" "length ys = length xs" using r1(3) by (auto dest: mset_eq_setD mset_eq_length)
  obtain p t where s: "(if 0 <s k then core_list_mergesort (flist v) cmp_complex r1 else Some (flist v, r1)) = Some (p, t)"
    "mid_state r xs p t"
    using search_and_sort[OF assms, of ?n k] w(1) vr by auto
  define ds q' where "ds = fst (if 0 <s k then case all_values (state_result r) (matrix_result r) (map val ys) (crcs_of r) of (vs, q) \<Rightarrow> (sort_key cached_key vs, q)
      else (map val ys, crcs_of r))"
    and "q' = snd (if 0 <s k then case all_values (state_result r) (matrix_result r) (map val ys) (crcs_of r) of (vs, q) \<Rightarrow> (sort_key cached_key vs, q)
      else (map val ys, crcs_of r))"
  have data1: "\<forall>x\<in>set ys. node_data r1 x = Some (val x)"
    using node_data_same_cells[OF r1(4)] r1(1) L(5) set by simp
  have "\<exists>zs val'. chain (heads t) p zs None \<and> (\<forall>x\<in>set zs. node_data t x = Some (val' x)) \<and> length zs = length xs \<and>
    map val' zs = ds \<and> crcs_of t = q'"
  proof (cases "0 <s k")
    case True
    obtain vs q2 where all: "all_values (state_result r) (matrix_result r) (map val ys) (crcs_of r1) = (vs, q2)" by (cases "all_values (state_result r) (matrix_result r) (map val ys) (crcs_of r1)")
    have "inj_on (data_at (heads r1)) (set ys)"
      using list_ready_inj[OF assms(1)] data_at_same_cells[OF r1(4)] set r1(1) by simp
    from sort_by_value[OF _ _ _ _ assms(2) data1 this all, of "flist v"] show ?thesis
      using True s(1) r1 all set L(3,4) by (fastforce simp: ds_def q'_def)
  next
    case False
    then show ?thesis using s(1) r1 data1 set by (intro exI[of _ ys] exI[of _ val]) (auto simp: ds_def q'_def)
  qed
  then obtain zs val' where z: "chain (heads t) p zs None" "\<forall>x\<in>set zs. node_data t x = Some (val' x)" "length zs = length xs"
    "map val' zs = ds" "crcs_of t = q'" by blast
  let ?b = "if 0 <s seed3 r then (seed3 r - 1) AND 0xff else 0 :: ee_s16"
  let ?rv = "crc_repeat (crc_steps (wanted ?b k') (hd ds # drop 2 ds)) (data16 (hd ds)) (rv + (fo * 4 - mi))"
  have hd: "val' (hd zs) = hd ds" "map val' (drop 2 zs) = drop 2 ds" using z(3,4) L(3) by (cases zs; auto simp: drop_map)+
  obtain n y s1 finder finder' u where m: "get_next t p = Some n" "core_list_remove t n = Some (y, s1)"
    "core_list_find s1 p \<lparr>data16 = ?b, idx = k'\<rparr> = Some finder" "(if finder = None then get_next s1 p else Some finder) = Some finder'"
    "crc_loop s1 p finder' (rv + (fo * 4 - mi)) = Some ?rv" "get_next s1 p = Some n" "core_list_undo_remove s1 y n = Some (u, t)"
    using remove_search_value[OF z(1) _ z(2), of ?b k' "rv + (fo * 4 - mi)"] L(2) z(3) hd by auto
  let ?t = "t\<lparr>heads := heads r, datas := datas r\<rparr>"
  have t: "core_list_mergesort p (cmp_idx True) t = Some (rlist r, ?t)" by (rule sort_back[OF assms(1) s(2)])
  obtain a x us where xs: "xs = a # x # us" using L(3) by (cases xs; cases "tl xs") auto
  then have a: "rlist r = Some a" "get_next ?t (rlist r) = Some (Some x)" "chain (heads ?t) (Some x) (x # us) None"
    using L(1) by auto
  have "get_data16 ?t (rlist r) = Some (data16 (val a))"
    using get_data16_val[of ?t a "val a"] L(5) xs a(1) by (simp add: node_data_def)
  from crc_loop_steps[OF a(3) this] have "core_bench_list r k = Some (crc_repeat (length (x # us)) (data16 (val a)) ?rv, ?t)"
    using w(1) vr s(1) m t a(2) r1(5-8) by (simp add: core_bench_list_def Let_def)
  moreover have "frame r ?t" using s(2) by (simp add: mid_state_def)
  moreover have "bench_list_value (state_result r) (matrix_result r) (seed3 r) (map val xs) (crcs_of r) k = (crc_repeat (length (x # us)) (data16 (val a)) ?rv, q')"
    unfolding bench_list_value_def Let_def spec using xs
    by (simp add: ds_def q'_def split: prod.splits)
  ultimately show ?thesis using z(5) unfolding val_def by (intro exI[of _ "crc_repeat (length (x # us)) (data16 (val a)) ?rv"] exI[of _ ?t]) (simp add: val_def)
qed

section \<open>Properties\<close>

text \<open>
  C14. \<open>core_bench_list\<close> refines a function on lists of data. On a list as \<open>core_list_init\<close> leaves it, of at least three
  nodes, it terminates without undefined behaviour; its result and the checksums of list, matrix and state runs are
  those that \<open>bench_list_value\<close> computes from the data in list order, whatever the addresses and whatever comparisons
  the merge sort makes; and nodes and data are afterwards identical to those before.
\<close>

theorem core_bench_list_value:
  assumes "list_ready r xs" "bench_ok r"
  shows "\<exists>crc t. core_bench_list r k = Some (crc, t) \<and> heads t = heads r \<and> datas t = datas r \<and> frame r t \<and>
    (crc, crcs_of t) = bench_list_value (state_result r) (matrix_result r) (seed3 r) (map (the \<circ> node_data r) xs) (crcs_of r) k"
  by (rule bench_list_value_total[OF assms])

theorem core_bench_list_value_witness:
  "\<exists>crc t. core_bench_list sample_results (-1) = Some (crc, t) \<and> heads t = heads sample_results \<and>
    (crc, crcs_of t) = bench_list_value (state_result sample_results) (matrix_result sample_results) 2
      [\<lparr>data16 = 0x8080, idx = 0\<rparr>, \<lparr>data16 = 0x0202, idx = 5\<rparr>, \<lparr>data16 = 0xffff, idx = 0x7fff\<rparr>] (crcs_of sample_results) (-1)"
proof -
  have "map (the \<circ> node_data sample_results) [0, 1, 2] =
      [\<lparr>data16 = 0x8080, idx = 0\<rparr>, \<lparr>data16 = 0x0202, idx = 5\<rparr>, \<lparr>data16 = 0xffff, idx = 0x7fff\<rparr>]" "seed3 sample_results = 2"
    by (simp_all add: sample_results_def node_data_def)
  with core_bench_list_value[OF sample_results_ready, of "-1"] show ?thesis by auto
qed

end
