(* ===== verification/List_Init.thy ===== *)
theory List_Init
  imports Core_List
begin

text \<open>
  What \<open>core_list_init\<close> of \<open>coremark/src/core_list_join.c\<close> builds: the list of the head, the items and
  the tail, with the data and the indices the seed determines, sorted by index.
\<close>

section \<open>Building the list\<close>

text \<open>
  The data of the \<open>j\<close>-th node inserted, before indexing: the head, the tail, then the items. The
  first \<open>m\<close> nodes have been inserted; each new one goes right behind the head.
\<close>

definition raw_cell :: "ee_s16 \<Rightarrow> nat \<Rightarrow> list_data" where
  "raw_cell seed j =
     (if j = 0 then \<lparr>data16 = 0x8080, idx = 0\<rparr>
      else if j = 1 then \<lparr>data16 = 0xffff, idx = 0x7fff\<rparr>
      else \<lparr>data16 = item_data seed (j - 2), idx = 0x7fff\<rparr>)"

definition node_order :: "nat \<Rightarrow> nat \<Rightarrow> nat list" where
  "node_order mb m = mb # rev [mb + 2..<mb + m] @ [mb + 1]"

text \<open>\<open>block_store\<close>: the cells of the block exist, and outside it nothing differs from \<open>s0\<close>.\<close>

definition block_store :: "'a store_scheme \<Rightarrow> nat \<Rightarrow> nat \<Rightarrow> nat \<Rightarrow> 'a store_scheme \<Rightarrow> bool" where
  "block_store s0 mb db n s \<longleftrightarrow> {mb..<mb + n} \<subseteq> dom (heads s) \<and> {db..<db + n} \<subseteq> dom (datas s) \<and>
     (\<forall>a. a \<notin> {mb..<mb + n} \<longrightarrow> heads s a = heads s0 a) \<and>
     (\<forall>a. a \<notin> {db..<db + n} \<longrightarrow> datas s a = datas s0 a) \<and> store.more s = store.more s0"

definition built_list :: "nat \<Rightarrow> nat \<Rightarrow> (nat \<Rightarrow> list_data) \<Rightarrow> nat \<Rightarrow> 'a store_scheme \<Rightarrow> bool" where
  "built_list mb db cell m s \<longleftrightarrow> chain (heads s) (Some mb) (node_order mb m) None \<and>
     (\<forall>j<m. map_option info (heads s (mb + j)) = Some (db + j)) \<and> (\<forall>j<m. datas s (db + j) = Some (cell j))"

lemma set_node_order: "2 \<le> m \<Longrightarrow> set (node_order mb m) = {mb..<mb + m}"
  by (auto simp: node_order_def)

lemma length_node_order: "2 \<le> m \<Longrightarrow> length (node_order mb m) = m"
  by (simp add: node_order_def)

lemma node_order_Suc: "2 \<le> m \<Longrightarrow> node_order mb (Suc m) = mb # (mb + m) # tl (node_order mb m)"
  by (simp add: node_order_def)

text \<open>One insertion behind the head.\<close>

lemma insert_item:
  assumes "built_list mb db cell m s" "block_store s0 mb db n s" "2 \<le> m" "m + 1 < n"
    and "cell m = \<lparr>data16 = data16 i, idx = idx i\<rparr>"
  shows "\<exists>s'. core_list_insert_new s (Some mb) i (mb + m) (db + m) (mb + n) (db + n)
      = Some (Some (mb + m), mb + Suc m, db + Suc m, s') \<and>
    built_list mb db cell (Suc m) s' \<and> block_store s0 mb db n s'"
proof -
  have B: "chain (heads s) (Some mb) (node_order mb m) None"
    "\<And>j. j < m \<Longrightarrow> map_option info (heads s (mb + j)) = Some (db + j)" "\<And>j. j < m \<Longrightarrow> datas s (db + j) = Some (cell j)"
    using assms(1) by (auto simp: built_list_def)
  let ?r = "tl (node_order mb m)"
  have order: "node_order mb m = mb # ?r" "set ?r = {mb + 1..<mb + m}"
    using assms(3) by (auto simp: node_order_def)
  have "chain (heads s) (Some mb) (mb # ?r) None" using B(1) order(1) by metis
  then obtain c where c: "heads s mb = Some c" "chain (heads s) (lnext c) ?r None" by auto
  have ic: "info c = db" using B(2)[of 0] c(1) assms(3) by simp
  obtain f g where fg: "heads s (mb + m) = Some f" "datas s (db + m) = Some g"
  proof -
    have "mb + m \<in> {mb..<mb + n}" "db + m \<in> {db..<db + n}" using assms(4) by simp_all
    then have "mb + m \<in> dom (heads s)" "db + m \<in> dom (datas s)" using assms(2) unfolding block_store_def by blast+
    then show ?thesis using that by blast
  qed
  define h where "h = (heads s)(mb + m \<mapsto> \<lparr>lnext = lnext c, info = db + m\<rparr>, mb \<mapsto> c\<lparr>lnext := Some (mb + m)\<rparr>)"
  define s' where "s' = s\<lparr>heads := h, datas := (datas s)(db + m \<mapsto> \<lparr>data16 = data16 i, idx = idx i\<rparr>)\<rparr>"
  have "core_list_insert_new s (Some mb) i (mb + m) (db + m) (mb + n) (db + n)
      = Some (Some (mb + m), mb + Suc m, db + Suc m, s')"
    using core_list_insert_new_eq[OF c(1) fg, of "mb + n" "db + n" i] assms(3,4) by (simp add: s'_def h_def)
  moreover have "chain h (Some mb) (node_order mb (Suc m)) None"
    unfolding node_order_Suc[OF assms(3)] using c(2) assms(3) order(2) by (auto simp: h_def)
  then have "built_list mb db cell (Suc m) s'"
    using B(2,3) ic assms(3,5) by (auto simp: built_list_def s'_def h_def less_Suc_eq)
  moreover have "block_store s0 mb db n s'"
    using assms(2,4) by (auto simp: block_store_def s'_def h_def)
  ultimately show ?thesis by blast
qed

lemma insert_items:
  assumes "built_list mb db (raw_cell seed) 2 s" "block_store s0 mb db n s" "4 \<le> n"
  shows "\<exists>s'. for_loop 0 n (\<lambda>i (m, d, s).
      do { (_, m, d, s) \<leftarrow> core_list_insert_new s (Some mb) \<lparr>data16 = item_data seed i, idx = 0x7fff\<rparr> m d (mb + n) (db + n);
           Some (m, d, s) }) (mb + 2, db + 2, s) = Some (mb + (n - 1), db + (n - 1), s') \<and>
    built_list mb db (raw_cell seed) (n - 1) s' \<and> block_store s0 mb db n s'"
    (is "\<exists>s'. for_loop 0 n ?f _ = _ \<and> _")
proof -
  define M where "M = (\<lambda>i. min (i + 2) (n - 1))"
  let ?I = "\<lambda>i (m, d, s). m = mb + M i \<and> d = db + M i \<and> built_list mb db (raw_cell seed) (M i) s \<and>
    block_store s0 mb db n s"
  have "\<exists>v. for_loop 0 n ?f (mb + 2, db + 2, s) = Some v \<and> ?I (0 + n) v"
  proof (rule for_loop_rule[where I = ?I])
    have "M 0 = 2" using assms(3) by (simp add: M_def)
    then show "?I 0 (mb + 2, db + 2, s)" using assms(1,2) by simp
    fix i v assume i: "0 \<le> i" "i < 0 + n" and v: "?I i v"
    obtain t where t: "v = (mb + M i, db + M i, t)" "built_list mb db (raw_cell seed) (M i) t" "block_store s0 mb db n t"
      using v by (cases v) auto
    show "\<exists>v'. ?f i v = Some v' \<and> ?I (Suc i) v'"
    proof (cases "i + 3 < n")
      case True
      then have M: "M i = i + 2" "M (Suc i) = Suc (M i)" by (auto simp: M_def)
      have "raw_cell seed (M i) = \<lparr>data16 = item_data seed i, idx = 0x7fff\<rparr>" by (simp add: raw_cell_def M)
      then obtain s' where "core_list_insert_new t (Some mb) \<lparr>data16 = item_data seed i, idx = 0x7fff\<rparr>
          (mb + M i) (db + M i) (mb + n) (db + n) = Some (Some (mb + M i), mb + Suc (M i), db + Suc (M i), s')"
        "built_list mb db (raw_cell seed) (Suc (M i)) s'" "block_store s0 mb db n s'"
        using insert_item[OF t(2,3), of "\<lparr>data16 = item_data seed i, idx = 0x7fff\<rparr>"] True M(1) by auto
      then show ?thesis by (simp add: t(1) M(2))
    next
      case False
      then have M: "M i = n - 1" "M (Suc i) = M i" using i assms(3) by (auto simp: M_def)
      then have "core_list_insert_new t (Some mb) \<lparr>data16 = item_data seed i, idx = 0x7fff\<rparr>
          (mb + M i) (db + M i) (mb + n) (db + n) = Some (None, mb + M i, db + M i, t)"
        using assms(3) by (intro core_list_insert_new_full) auto
      then show ?thesis using t by (simp add: M(2))
    qed
  qed
  moreover have "M n = n - 1" using assms(3) by (simp add: M_def)
  ultimately show ?thesis by auto
qed

section \<open>Indexing\<close>

text \<open>The cells after the indexing loop: the \<open>k\<close>-th node behind the head gets the index of \<open>k + 1\<close>.\<close>

definition final_cell :: "ee_s16 \<Rightarrow> ee_u32 \<Rightarrow> nat \<Rightarrow> list_data" where
  "final_cell seed sz j =
     (if j < 2 then raw_cell seed j
      else \<lparr>data16 = item_data seed (j - 2), idx = item_idx seed sz (unat sz - 1 - j)\<rparr>)"

lemma index_loop_chain:
  assumes "chain (heads s) p (xs @ [z]) None" "info_at (heads s) dof (set xs)" "inj_on dof (set xs)"
    and "\<forall>x\<in>set xs. datas s (dof x) \<noteq> None"
  shows "\<exists>d. index_loop seed sz s p i = Some (s\<lparr>datas := d\<rparr>) \<and>
    (\<forall>a. a \<notin> dof ` set xs \<longrightarrow> d a = datas s a) \<and>
    (\<forall>k<length xs. d (dof (xs ! k)) = map_option (idx_update (\<lambda>_. item_idx seed sz (i + k))) (datas s (dof (xs ! k))))"
  using assms
proof (induction xs arbitrary: s p i)
  case Nil
  then have "index_loop seed sz s p i = Some (s\<lparr>datas := datas s\<rparr>)" by (subst index_loop.simps) auto
  then show ?case by (intro exI[of _ "datas s"]) simp
next
  case (Cons x xs)
  then obtain c where c: "p = Some x" "heads s x = Some c" "chain (heads s) (lnext c) (xs @ [z]) None" by auto
  have info: "info c = dof x" using Cons.prems(2) c(2) by (simp add: info_at_def)
  obtain v where v: "datas s (dof x) = Some v" using Cons.prems(4) by auto
  have "distinct (x # xs @ [z])" using chain_distinct[OF Cons.prems(1)] by simp
  then have x: "dof x \<notin> dof ` set xs" using Cons.prems(3) by (auto simp: inj_on_def)
  define s1 where "s1 = s\<lparr>datas := (datas s)(dof x \<mapsto> v\<lparr>idx := item_idx seed sz i\<rparr>)\<rparr>"
  have "lnext c \<noteq> None" using c(3) by (cases xs) auto
  then have step: "index_loop seed sz s p i = index_loop seed sz s1 (lnext c) (Suc i)"
    using c(1,2) v info by (subst index_loop.simps) (simp add: set_data_def s1_def)
  have same: "datas s1 (dof y) = datas s (dof y)" if "y \<in> set xs" for y
  proof -
    have "dof y \<noteq> dof x" using x that by (metis image_eqI)
    then show ?thesis by (simp add: s1_def)
  qed
  obtain d where d: "index_loop seed sz s1 (lnext c) (Suc i) = Some (s1\<lparr>datas := d\<rparr>)"
    "\<forall>a. a \<notin> dof ` set xs \<longrightarrow> d a = datas s1 a"
    "\<forall>k<length xs. d (dof (xs ! k)) = map_option (idx_update (\<lambda>_. item_idx seed sz (Suc i + k))) (datas s1 (dof (xs ! k)))"
    using Cons.IH[of s1 "lnext c" "Suc i"] c(3) Cons.prems(2-4) same
    by (auto simp: s1_def info_at_def)
  have "d (dof ((x # xs) ! k)) = map_option (idx_update (\<lambda>_. item_idx seed sz (i + k))) (datas s (dof ((x # xs) ! k)))"
    if "k < length (x # xs)" for k
    using that d(2,3) same x v by (cases k) (auto simp: s1_def)
  moreover have "d a = datas s a" if "a \<notin> dof ` set (x # xs)" for a using that d(2) by (auto simp: s1_def)
  ultimately show ?case using d(1) step by (auto simp: s1_def)
qed

lemma built_list_data_at: "built_list mb db cell m s \<Longrightarrow> j < m \<Longrightarrow> data_at (heads s) (mb + j) = db + j"
  by (auto simp: built_list_def data_at_def)

lemma index_items:
  assumes "built_list mb db (raw_cell seed) (n - 1) s" "block_store s0 mb db n s" "4 \<le> n" "n = unat sz"
  shows "\<exists>p s'. get_next s (Some mb) = Some p \<and> index_loop seed sz s p 1 = Some s' \<and>
    built_list mb db (final_cell seed sz) (n - 1) s' \<and> block_store s0 mb db n s'"
proof -
  let ?xs = "rev [mb + 2..<mb + (n - 1)]" and ?dof = "data_at (heads s)"
  have B: "chain (heads s) (Some mb) (mb # ?xs @ [mb + 1]) None"
    "\<And>j. j < n - 1 \<Longrightarrow> datas s (db + j) = Some (raw_cell seed j)"
    using assms(1) by (auto simp: built_list_def node_order_def)
  then obtain c where c: "heads s mb = Some c" "chain (heads s) (lnext c) (?xs @ [mb + 1]) None" by auto
  have dof: "?dof x = db + (x - mb)" if "mb \<le> x" "x < mb + (n - 1)" for x
    using built_list_data_at[OF assms(1), of "x - mb"] that by simp
  have "info_at (heads s) ?dof (set ?xs)"
    using chain_info_at[OF c(2)] by (rule info_at_mono) auto
  moreover have "inj_on ?dof (set ?xs)" using dof by (auto simp: inj_on_def)
  moreover have "\<forall>x\<in>set ?xs. datas s (?dof x) \<noteq> None"
  proof
    fix x assume "x \<in> set ?xs"
    then have "mb \<le> x" "x < mb + (n - 1)" "x - mb < n - 1" by auto
    then show "datas s (?dof x) \<noteq> None" using B(2)[of "x - mb"] dof[of x] by simp
  qed
  ultimately obtain d where d: "index_loop seed sz s (lnext c) 1 = Some (s\<lparr>datas := d\<rparr>)"
    "\<forall>a. a \<notin> ?dof ` set ?xs \<longrightarrow> d a = datas s a"
    "\<forall>k<length ?xs. d (?dof (?xs ! k)) = map_option (idx_update (\<lambda>_. item_idx seed sz (1 + k))) (datas s (?dof (?xs ! k)))"
    using index_loop_chain[OF c(2), of ?dof seed sz 1] by blast
  have img: "?dof ` set ?xs = {db + 2..<db + (n - 1)}"
  proof -
    have "?dof ` set ?xs = (\<lambda>x. db + (x - mb)) ` {mb + 2..<mb + (n - 1)}" using dof by (intro image_cong) auto
    also have "\<dots> = {db + 2..<db + (n - 1)}"
      by (auto simp: image_iff) (rule_tac x = "mb + (x - db)" in bexI, auto)
    finally show ?thesis .
  qed
  have items: "d (db + j) = Some (final_cell seed sz j)" if j: "2 \<le> j" "j < n - 1" for j
  proof -
    let ?k = "n - 2 - j"
    have k: "?k < length ?xs" "?xs ! ?k = mb + j" using j by (simp_all add: rev_nth)
    then have "d (db + j) = map_option (idx_update (\<lambda>_. item_idx seed sz (1 + ?k))) (datas s (db + j))"
      using d(3) dof[of "mb + j"] j by fastforce
    moreover have "1 + ?k = unat sz - 1 - j" using j assms(4) by simp
    ultimately show ?thesis using B(2)[of j] j by (simp add: final_cell_def raw_cell_def)
  qed
  have "d (db + j) = Some (final_cell seed sz j)" if "j < n - 1" for j
    using items that d(2) img B(2) by (cases "2 \<le> j") (auto simp: final_cell_def)
  then have "built_list mb db (final_cell seed sz) (n - 1) (s\<lparr>datas := d\<rparr>)"
    using assms(1) by (simp add: built_list_def)
  moreover have "block_store s0 mb db n (s\<lparr>datas := d\<rparr>)"
  proof -
    have in_block: "{db + 2..<db + (n - 1)} \<subseteq> {db..<db + n}" by auto
    have S: "{mb..<mb + n} \<subseteq> dom (heads s)" "{db..<db + n} \<subseteq> dom (datas s)" "store.more s = store.more s0"
      "\<And>a. a \<notin> {mb..<mb + n} \<Longrightarrow> heads s a = heads s0 a" "\<And>a. a \<notin> {db..<db + n} \<Longrightarrow> datas s a = datas s0 a"
      using assms(2) unfolding block_store_def by blast+
    have "d a \<noteq> None" if a: "a \<in> {db..<db + n}" for a
    proof (cases "a \<in> {db + 2..<db + (n - 1)}")
      case True
      then have "2 \<le> a - db" "a - db < n - 1" "db + (a - db) = a" by auto
      then show ?thesis using items[of "a - db"] by simp
    next
      case False
      then show ?thesis using d(2) img S(2) a by (metis domIff subsetD)
    qed
    moreover have "d a = datas s0 a" if "a \<notin> {db..<db + n}" for a
      using that d(2) img S(5) in_block by (metis subsetD)
    ultimately show ?thesis using S(1,3,4) unfolding block_store_def by auto
  qed
  ultimately show ?thesis using c(1) d(1) by auto
qed

section \<open>The finished list\<close>

lemma bit_regen: "n < 16 \<Longrightarrow> bit (regen d) n = bit d (if n < 8 then n + 8 else n)"
  unfolding regen_def by (auto simp: bit_simps numeral_eq_Suc less_Suc_eq)

lemma regen_dup: "regen (push_bit 8 x OR x) = push_bit 8 x OR x" if x: "\<And>n. 8 \<le> n \<Longrightarrow> \<not> bit x n" for x :: ee_u16
proof (rule bit_word_eqI)
  have b: "bit (push_bit 8 x OR x) n \<longleftrightarrow> bit x n \<or> 8 \<le> n \<and> bit x (n - 8)" if "n < 16" for n
    using that by (auto simp only: bit_or_iff bit_push_bit_iff possible_bit_word len_num1 len_bit0)
  define y where "y = push_bit 8 x OR x"
  fix n assume "n < LENGTH(16)"
  then have n: "n < 16" by simp
  have "bit (regen y) n = bit y n"
    unfolding bit_regen[OF n] using n b[of n] b[of "n + 8"] x[of "n + 8"] x[of n]
    by (cases "n < 8") (simp_all flip: y_def)
  then show "bit (regen (push_bit 8 x OR x)) n = bit (push_bit 8 x OR x) n" by (simp only: y_def)
qed

lemma regen_item_data: "regen (item_data seed i) = item_data seed i"
proof -
  let ?p = "ucast (scast seed XOR of_nat i :: ee_u32) AND 0xf :: ee_u16"
  let ?x = "push_bit 3 ?p OR (of_nat i AND 0x7)"
  have m: "(0xf :: ee_u16) = mask 4" "(0x7 :: ee_u16) = mask 3" by (simp_all add: mask_eq_exp_minus_1)
  have "\<not> bit ?x n" if "8 \<le> n" for n
    unfolding m using that by (auto simp only: bit_or_iff bit_push_bit_iff bit_and_iff bit_mask_iff)
  then show ?thesis unfolding item_data_def Let_def by (rule regen_dup)
qed

lemma regen_final_cell: "regen_data (final_cell seed sz j) = final_cell seed sz j"
proof -
  have "regen 0x8080 = 0x8080" "regen 0xffff = 0xffff" by code_simp+
  then show ?thesis by (simp add: final_cell_def raw_cell_def regen_data_def regen_item_data)
qed

text \<open>The head, and the tail behind it.\<close>

lemma init_head:
  assumes "block_store s0 mb db n s" "4 \<le> n"
  shows "\<exists>s1 s2 c s3 s'. set_next s (Some mb) None = Some s1 \<and> set_info s1 (Some mb) db = Some s2 \<and>
    datas s2 db = Some c \<and> set_data s2 db (c\<lparr>idx := 0, data16 := 0x8080\<rparr>) = Some s3 \<and>
    core_list_insert_new s3 (Some mb) \<lparr>data16 = 0xffff, idx = 0x7fff\<rparr> (mb + 1) (db + 1) (mb + n) (db + n)
      = Some (Some (mb + 1), mb + 2, db + 2, s') \<and>
    built_list mb db (raw_cell seed) 2 s' \<and> block_store s0 mb db n s'"
proof -
  have dom: "x \<in> dom (heads s)" "y \<in> dom (datas s)" if "x \<in> {mb..<mb + n}" "y \<in> {db..<db + n}" for x y
    using assms(1) that unfolding block_store_def by blast+
  obtain ch ct dh dt where c: "heads s mb = Some ch" "heads s (mb + 1) = Some ct" "datas s db = Some dh"
    "datas s (db + 1) = Some dt"
    using dom[of mb db] dom[of "mb + 1" "db + 1"] assms(2) by auto
  define s1 where "s1 = s\<lparr>heads := (heads s)(mb \<mapsto> ch\<lparr>lnext := None\<rparr>)\<rparr>"
  define s2 where "s2 = s1\<lparr>heads := (heads s1)(mb \<mapsto> \<lparr>lnext = None, info = db\<rparr>)\<rparr>"
  define s3 where "s3 = s2\<lparr>datas := (datas s2)(db \<mapsto> \<lparr>data16 = 0x8080, idx = 0\<rparr>)\<rparr>"
  define s' where "s' = s3\<lparr>heads := (heads s3)(mb + 1 \<mapsto> \<lparr>lnext = None, info = db + 1\<rparr>, mb \<mapsto> \<lparr>lnext = Some (mb + 1), info = db\<rparr>),
        datas := (datas s3)(db + 1 \<mapsto> \<lparr>data16 = 0xffff, idx = 0x7fff\<rparr>)\<rparr>"
  have steps: "set_next s (Some mb) None = Some s1" "set_info s1 (Some mb) db = Some s2" "datas s2 db = Some dh"
    "set_data s2 db (dh\<lparr>idx := 0, data16 := 0x8080\<rparr>) = Some s3"
    using c by (cases ch; cases dh; simp add: set_next_def set_info_def set_data_def s1_def s2_def s3_def)+
  have s3: "heads s3 mb = Some \<lparr>lnext = None, info = db\<rparr>" "heads s3 (mb + 1) = Some ct" "datas s3 (db + 1) = Some dt"
    "datas s3 db = Some \<lparr>data16 = 0x8080, idx = 0\<rparr>"
    using c by (simp_all add: s1_def s2_def s3_def)
  have "core_list_insert_new s3 (Some mb) \<lparr>data16 = 0xffff, idx = 0x7fff\<rparr> (mb + 1) (db + 1) (mb + n) (db + n)
      = Some (Some (mb + 1), mb + 2, db + 2, s')"
    using core_list_insert_new_eq[OF s3(1,2,3)] assms(2) by (simp add: s'_def)
  moreover have "built_list mb db (raw_cell seed) 2 s'"
    using s3 by (auto simp: built_list_def node_order_def s'_def raw_cell_def less_Suc_eq numeral_2_eq_2)
  moreover have "block_store s0 mb db n s'"
    using assms by (auto simp: block_store_def s'_def s3_def s2_def s1_def)
  ultimately show ?thesis using steps by blast
qed

text \<open>All the steps before the final sort.\<close>

lemma core_list_init_unsorted:
  assumes "block_store s mb db n s" "4 \<le> n" "n = unat (list_items blksize)"
  shows "\<exists>s'. core_list_init blksize mb db seed s = core_list_mergesort (Some mb) (cmp_idx True) s' \<and>
    built_list mb db (final_cell seed (list_items blksize)) (n - 1) s' \<and> block_store s mb db n s'"
proof -
  obtain s1 s2 c s3 s4 where h: "set_next s (Some mb) None = Some s1" "set_info s1 (Some mb) db = Some s2"
    "datas s2 db = Some c" "set_data s2 db (c\<lparr>idx := 0, data16 := 0x8080\<rparr>) = Some s3"
    "core_list_insert_new s3 (Some mb) \<lparr>data16 = 0xffff, idx = 0x7fff\<rparr> (mb + 1) (db + 1) (mb + n) (db + n)
      = Some (Some (mb + 1), mb + 2, db + 2, s4)"
    "built_list mb db (raw_cell seed) 2 s4" "block_store s mb db n s4"
    using init_head[OF assms(1,2)] by blast
  obtain s5 where i: "for_loop 0 n (\<lambda>i (m, d, s).
      do { (_, m, d, s) \<leftarrow> core_list_insert_new s (Some mb) \<lparr>data16 = item_data seed i, idx = 0x7fff\<rparr> m d (mb + n) (db + n);
           Some (m, d, s) }) (mb + 2, db + 2, s4) = Some (mb + (n - 1), db + (n - 1), s5)"
    "built_list mb db (raw_cell seed) (n - 1) s5" "block_store s mb db n s5"
    using insert_items[OF h(6,7) assms(2)] by blast
  obtain p s6 where x: "get_next s5 (Some mb) = Some p" "index_loop seed (list_items blksize) s5 p 1 = Some s6"
    "built_list mb db (final_cell seed (list_items blksize)) (n - 1) s6" "block_store s mb db n s6"
    using index_items[OF i(2,3) assms(2,3)] by blast
  have "core_list_init blksize mb db seed s = core_list_mergesort (Some mb) (cmp_idx True) s6"
    using h(1-5) i(1) x(1,2) by (auto simp: core_list_init_def Let_def simp flip: assms(3))
  with x(3,4) show ?thesis by blast
qed

text \<open>The indices: none is negative, and all but the tail's are below \<open>0x4000\<close> in a block of usual size.\<close>

lemma item_idx_bounds:
  assumes "unat sz \<le> 2 ^ 15"
  shows "0 \<le> sint (item_idx seed sz i)" "sint (item_idx seed sz i) < 2 ^ 14"
proof -
  have "uint (item_idx seed sz i) < 2 ^ 14"
  proof (cases "of_nat i < sz div 5")
    case True
    then have "unat (of_nat i :: ee_u32) < 2 ^ 14"
      using assms by (simp add: word_less_nat_alt unat_div)
    moreover have "item_idx seed sz i = ucast (of_nat i :: ee_u32)"
      unfolding item_idx_def if_P[OF True] by (rule bit_word_eqI) (simp add: bit_simps)
    ultimately have "unat (item_idx seed sz i) < 2 ^ 14"
      by (simp only: unsigned_ucast_eq) (rule le_less_trans[OF take_bit_nat_less_eq_self])
    then have "int (unat (item_idx seed sz i)) < int (2 ^ 14)" by (simp only: of_nat_less_iff)
    then show ?thesis by simp
  next
    case False
    have m: "(0x3fff :: ee_s16) = mask 14" by (simp add: mask_eq_exp_minus_1)
    have "uint (0x3fff AND x :: ee_s16) < 2 ^ 14" for x
    proof -
      have "0x3fff AND x = take_bit 14 x" by (simp only: m and.commute[of "mask 14"] take_bit_eq_mask)
      then show ?thesis using take_bit_int_less_exp[of 14 "uint x"] by (simp add: unsigned_take_bit_eq)
    qed
    with False show ?thesis by (simp add: item_idx_def Let_def)
  qed
  moreover from this have "sint (item_idx seed sz i) = uint (item_idx seed sz i)"
    by (intro sint_uint_s16) simp
  ultimately show "0 \<le> sint (item_idx seed sz i)" "sint (item_idx seed sz i) < 2 ^ 14" by simp_all
qed

text \<open>The indices of all nodes differ.\<close>

definition idx_distinct :: "ee_s16 \<Rightarrow> ee_u32 \<Rightarrow> bool" where
  "idx_distinct seed sz \<longleftrightarrow> distinct (0 # map (item_idx seed sz) [1..<unat sz - 2])"

lemma final_cell_idx:
  assumes "unat sz \<le> 2 ^ 15"
  shows "0 \<le> sint (idx (final_cell seed sz j))" "j \<noteq> 1 \<Longrightarrow> sint (idx (final_cell seed sz j)) < 2 ^ 14"
    "sint (idx (final_cell seed sz 0)) = 0" "sint (idx (final_cell seed sz 1)) = 0x7fff"
  using item_idx_bounds[OF assms] by (auto simp: final_cell_def raw_cell_def)

lemma final_cell_inj:
  assumes "unat sz \<le> 2 ^ 15" "idx_distinct seed sz" "4 \<le> unat sz"
  shows "inj_on (\<lambda>j. sint (idx (final_cell seed sz j))) {..<unat sz - 1}"
proof (rule inj_onI)
  let ?f = "item_idx seed sz"
  have D: "0 \<notin> ?f ` {1..<unat sz - 2}" "inj_on ?f {1..<unat sz - 2}"
    using assms(2) by (auto simp: idx_distinct_def distinct_map)
  fix i j assume ij: "i \<in> {..<unat sz - 1}" "j \<in> {..<unat sz - 1}"
    and eq: "sint (idx (final_cell seed sz i)) = sint (idx (final_cell seed sz j))"
  have item: "idx (final_cell seed sz k) = ?f (unat sz - 1 - k)" "unat sz - 1 - k \<in> {1..<unat sz - 2}"
    if "2 \<le> k" "k < unat sz - 1" for k
    using that by (auto simp: final_cell_def)
  have tail: "i = 1 \<longleftrightarrow> j = 1"
    using eq final_cell_idx(2)[OF assms(1), of i seed] final_cell_idx(2)[OF assms(1), of j seed]
      final_cell_idx(4)[OF assms(1), of seed] by (cases "i = 1"; cases "j = 1") auto
  have w: "idx (final_cell seed sz i) = idx (final_cell seed sz j)" using eq by (simp add: signed_word_eqI)
  have head: "k = 0" if "idx (final_cell seed sz k) = 0" "k \<noteq> 1" "k < unat sz - 1" for k
  proof (rule ccontr)
    assume "k \<noteq> 0"
    with that item[of k] D(1) show False by (metis One_nat_def image_eqI less_2_cases not_le)
  qed
  show "i = j"
  proof (cases "i < 2 \<or> j < 2")
    case True
    have z: "idx (final_cell seed sz 0) = 0" by (simp add: final_cell_def raw_cell_def)
    from True have "i = 0 \<or> j = 0 \<or> i = 1 \<or> j = 1" by auto
    then show ?thesis using tail head[of i] head[of j] w z ij by auto
  next
    case False
    with item[of i] item[of j] w ij have "?f (unat sz - 1 - i) = ?f (unat sz - 1 - j)" by auto
    with item[of i] item[of j] D(2) False ij have "unat sz - 1 - i = unat sz - 1 - j"
      by (auto simp: inj_on_def)
    with ij show ?thesis by auto
  qed
qed

lemma sort_key_least_head: "\<forall>x\<in>set xs. f a \<le> f x \<Longrightarrow> sort_key f (a # xs) = a # sort_key f xs"
  by (simp add: insort_is_Cons)

lemma sort_key_greatest_last:
  assumes "z \<in> set xs" "\<forall>x\<in>set xs. x \<noteq> z \<longrightarrow> f x < f z"
  shows "last (sort_key f xs) = z"
proof (rule ccontr)
  let ?s = "sort_key f xs"
  assume ne: "last ?s \<noteq> z"
  have "?s \<noteq> []" using assms(1) by (metis empty_iff list.set(1) set_sort)
  then have "last ?s \<in> set xs" by (metis last_in_set set_sort)
  with ne assms(2) have lt: "f (last ?s) < f z" by blast
  obtain us vs where s: "?s = us @ z # vs" using assms(1) by (metis in_set_conv_decomp set_sort)
  then have "sorted (map f (z # vs))" using sorted_sort_key[of f xs] by (simp add: sorted_append)
  moreover have "last ?s \<in> set vs" using s ne by (cases vs) auto
  ultimately show False using lt by auto
qed

lemma built_list_node:
  assumes "built_list mb db cell m s" "j < m"
  shows "node_data s (mb + j) = Some (cell j)" "node_idx s (mb + j) = sint (idx (cell j))"
    "datas s (data_at (heads s) (mb + j)) = Some (cell j)"
proof -
  note da = built_list_data_at[OF assms]
  show "datas s (data_at (heads s) (mb + j)) = Some (cell j)" using assms by (simp add: da built_list_def)
  then show "node_idx s (mb + j) = sint (idx (cell j))" by (simp add: node_idx_def idx_key_def)
  have "map_option info (heads s (mb + j)) = Some (db + j)" "datas s (db + j) = Some (cell j)"
    using assms by (simp_all add: built_list_def)
  then show "node_data s (mb + j) = Some (cell j)" by (auto simp: node_data_def)
qed

lemma node_order_shift:
  assumes "2 \<le> m" "x \<in> set (node_order mb m)"
  shows "\<exists>j<m. x = mb + j"
  using assms by (intro exI[of _ "x - mb"]) (auto simp: set_node_order)

text \<open>The head stays first, the tail last, and the data are regenerated already.\<close>

lemma final_order:
  assumes B: "built_list mb db (final_cell seed sz) m t" and m: "3 \<le> m" "unat sz \<le> 2 ^ 15"
  defines "xs \<equiv> sort_key (node_idx t) (node_order mb m)"
  shows "xs = mb # sort_key (node_idx t) (tl (node_order mb m))" "last xs = mb + 1"
    "regen_cells (data_addrs t (node_order mb m)) (datas t) = datas t"
proof -
  let ?ys = "node_order mb m"
  note ni = built_list_node(2)[OF B]
  note shift = node_order_shift[of m _ mb]
  note F = final_cell_idx[OF m(2), where seed = seed]
  have "\<forall>x\<in>set (tl ?ys). node_idx t mb \<le> node_idx t x"
  proof
    fix x assume "x \<in> set (tl ?ys)"
    then have "x \<in> set ?ys" by (metis list.sel(2) list.set_sel(2))
    then obtain j where "j < m" "x = mb + j" using shift m(1) by auto
    with ni[of 0] ni[of j] F(1)[of j] F(3) m(1) show "node_idx t mb \<le> node_idx t x" by simp
  qed
  then have "sort_key (node_idx t) (mb # tl ?ys) = mb # sort_key (node_idx t) (tl ?ys)"
    by (rule sort_key_least_head)
  then show "xs = mb # sort_key (node_idx t) (tl ?ys)" by (simp add: node_order_def xs_def)
  show "last xs = mb + 1"
    unfolding xs_def
  proof (rule sort_key_greatest_last)
    show "mb + 1 \<in> set ?ys" by (simp add: node_order_def)
    show "\<forall>x\<in>set ?ys. x \<noteq> mb + 1 \<longrightarrow> node_idx t x < node_idx t (mb + 1)"
    proof (intro ballI impI)
      fix x assume "x \<in> set ?ys" "x \<noteq> mb + 1"
      then obtain j where "j < m" "x = mb + j" "j \<noteq> 1" using shift m(1) by fastforce
      with ni[of j] ni[of 1] F(2)[of j] F(4) m(1) show "node_idx t x < node_idx t (mb + 1)" by simp
    qed
  qed
  have "map_option regen_data (datas t d) = datas t d" if "d \<in> data_addrs t ?ys" for d
  proof -
    from that obtain j where "j < m" "d = data_at (heads t) (mb + j)" using shift m(1) by fastforce
    then show ?thesis using built_list_node(3)[OF B] by (simp add: regen_final_cell)
  qed
  then show "regen_cells (data_addrs t ?ys) (datas t) = datas t" by (auto simp: regen_cells_def)
qed

lemma core_list_init_total:
  assumes "{mb..<mb + n} \<subseteq> dom (heads s)" "{db..<db + n} \<subseteq> dom (datas s)"
    and "n = unat (list_items blksize)" "4 \<le> n" "n \<le> 2 ^ 15"
  shows "\<exists>s' xs. core_list_init blksize mb db seed s = Some (Some mb, s') \<and>
    chain (heads s') (Some mb) xs None \<and> length xs = n - 1 \<and> set xs = {mb..<mb + (n - 1)} \<and>
    hd xs = mb \<and> last xs = mb + 1 \<and> sorted (map (node_idx s') xs) \<and>
    (\<forall>j<n - 1. node_data s' (mb + j) = Some (final_cell seed (list_items blksize) j) \<and>
       node_idx s' (mb + j) = sint (idx (final_cell seed (list_items blksize) j)) \<and>
       regenerated s' (data_at (heads s') (mb + j))) \<and>
    (\<forall>a. a \<notin> {mb..<mb + n} \<longrightarrow> heads s' a = heads s a) \<and> (\<forall>a. a \<notin> {db..<db + n} \<longrightarrow> datas s' a = datas s a) \<and>
    store.more s' = store.more s"
proof -
  let ?cell = "final_cell seed (list_items blksize)" and ?ys = "node_order mb (n - 1)"
  have "block_store s mb db n s" using assms(1,2) by (simp add: block_store_def)
  then obtain t where t: "core_list_init blksize mb db seed s = core_list_mergesort (Some mb) (cmp_idx True) t"
    "built_list mb db ?cell (n - 1) t" "block_store s mb db n t"
    using core_list_init_unsorted[OF _ assms(4,3)] by blast
  have ys: "set ?ys = {mb..<mb + (n - 1)}" "length ?ys = n - 1" "2 \<le> length ?ys" "length ?ys \<le> 2 ^ 30"
    using assms(4,5) by (simp_all add: set_node_order length_node_order)
  note node = built_list_node[OF t(2)]
  have "\<forall>x\<in>set ?ys. node_data t x \<noteq> None"
    using node(1) node_order_shift[of "n - 1" _ mb] assms(4) by fastforce
  then obtain q h where
    q: "core_list_mergesort (Some mb) (cmp_idx True) t
      = Some (q, t\<lparr>heads := h, datas := regen_cells (data_addrs t ?ys) (datas t)\<rparr>)"
    "chain h q (sort_key (node_idx t) ?ys) None" "same_cells (set ?ys) (heads t) h"
    using mergesort_regen[OF _ ys(3,4)] t(2) unfolding built_list_def by blast
  have m: "3 \<le> n - 1" "unat (list_items blksize) \<le> 2 ^ 15" using assms(3-5) by simp_all
  note O = final_order[OF t(2) m]
  let ?s' = "t\<lparr>heads := h\<rparr>" and ?xs = "sort_key (node_idx t) ?ys"
  have same: "node_data ?s' x = node_data t x" "data_at h = data_at (heads t)" "node_idx ?s' x = node_idx t x" for x
    using node_data_same_cells[OF q(3)] data_at_same_cells[OF q(3)] by (simp_all add: node_idx_def idx_key_def)
  have "q = Some mb" using q(2) O(1) by simp
  moreover have "regenerated ?s' (data_at h (mb + j))" if "j < n - 1" for j
    using node(3)[OF that] by (simp add: same(2) regenerated_def regen_final_cell)
  moreover have "heads ?s' a = heads s a" if "a \<notin> {mb..<mb + n}" for a
    using that q(3) ys(1) t(3) by (auto simp: same_cells_def block_store_def)
  moreover have "store.more ?s' = store.more s" using t(3) by (simp add: block_store_def)
  moreover have "datas ?s' a = datas s a" if "a \<notin> {db..<db + n}" for a
    using that t(3) by (auto simp: block_store_def)
  moreover have "node_idx ?s' = node_idx t" using same(3) by (rule ext)
  moreover obtain xs where xs: "xs = ?xs" by simp
  then have "hd xs = mb" "last xs = mb + 1" using O(1,2) by simp_all
  moreover have "set xs = {mb..<mb + (n - 1)}" "length xs = n - 1" "sorted (map (node_idx t) xs)"
    using xs ys(1,2) by simp_all
  ultimately show ?thesis
    using q(1,2) t(1) O(3) node same xs by (intro exI[of _ ?s'] exI[of _ xs]) simp
qed

text \<open>
  A list that was built with distinct indices is what \<open>core_bench_list\<close> needs; its data are those of the nodes, sorted
  by index.
\<close>

definition init_cells :: "ee_s16 \<Rightarrow> ee_u32 \<Rightarrow> list_data list" where
  "init_cells seed sz = sort_key (\<lambda>c. sint (idx c)) (map (final_cell seed sz) [0..<unat sz - 1])"

lemma core_list_init_ready:
  fixes s :: core_results
  assumes "{mb..<mb + n} \<subseteq> dom (heads s)" "{db..<db + n} \<subseteq> dom (datas s)"
    and "n = unat (list_items blksize)" "4 \<le> n" "n \<le> 2 ^ 15" "idx_distinct seed (list_items blksize)"
  shows "\<exists>s' xs. core_list_init blksize mb db seed s = Some (Some mb, s') \<and>
    list_ready (s'\<lparr>rlist := Some mb\<rparr>) xs \<and> map (the \<circ> node_data (s'\<lparr>rlist := Some mb\<rparr>)) xs = init_cells seed (list_items blksize) \<and>
    store.more s' = store.more s"
proof -
  let ?cell = "final_cell seed (list_items blksize)"
  obtain s' xs where s: "core_list_init blksize mb db seed s = Some (Some mb, s')"
    "chain (heads s') (Some mb) xs None" "length xs = n - 1" "set xs = {mb..<mb + (n - 1)}" "sorted (map (node_idx s') xs)"
    "store.more s' = store.more s"
    and node: "\<forall>j<n - 1. node_data s' (mb + j) = Some (?cell j) \<and> node_idx s' (mb + j) = sint (idx (?cell j)) \<and>
       regenerated s' (data_at (heads s') (mb + j))"
    using core_list_init_total[OF assms(1-5), of seed] by blast
  have shift: "\<exists>j<n - 1. x = mb + j" if "x \<in> set xs" for x
    using that s(4) by (intro exI[of _ "x - mb"]) auto
  have "inj_on (\<lambda>j. sint (idx (?cell j))) {..<n - 1}"
    using final_cell_inj[OF _ assms(6)] assms(3-5) by simp
  then have "inj_on (node_idx s') (set xs)"
    using node shift unfolding inj_on_def by (metis lessThan_iff)
  moreover have "distinct xs" using s(3,4) by (simp add: card_distinct)
  ultimately have "distinct (map (node_idx s') xs)" by (simp add: distinct_map)
  with s(5) have lt: "sorted_wrt (<) (map (node_idx s') xs)" by (simp add: strict_sorted_iff)
  have eq: "node_data (s'\<lparr>rlist := q\<rparr>) = node_data s'" "node_idx (s'\<lparr>rlist := q\<rparr>) = node_idx s'"
    "regenerated (s'\<lparr>rlist := q\<rparr>) = regenerated s'" for q
    by (simp_all add: fun_eq_iff node_data_def node_idx_def idx_key_def regenerated_def)
  have "node_data s' x \<noteq> None \<and> regenerated s' (data_at (heads s') x)" if x: "x \<in> set xs" for x
    using shift[OF x] node by auto
  moreover have "3 \<le> length xs" "length xs \<le> 2 ^ 30" using s(3) assms(4,5) by simp_all
  ultimately have "list_ready (s'\<lparr>rlist := Some mb\<rparr>) xs" using s(2) lt by (simp add: list_ready_def eq)
  moreover have "map (the \<circ> node_data s') xs = init_cells seed (list_items blksize)"
  proof -
    let ?val = "the \<circ> node_data s'" and ?key = "\<lambda>c. sint (idx c)"
    have key: "node_idx s' x = ?key (?val x)" if "x \<in> set xs" for x using shift[OF that] node by auto
    have "map (node_idx s') xs = map (\<lambda>x. ?key (?val x)) xs" using key by simp
    then have "sorted_wrt (<) (map (\<lambda>x. ?key (?val x)) xs)" using lt by metis
    moreover have "mset [mb..<mb + (n - 1)] = mset xs" using mset_set_set[OF \<open>distinct xs\<close>] s(4) by simp
    ultimately have "sort_key (\<lambda>x. ?key (?val x)) [mb..<mb + (n - 1)] = xs" by (rule sort_key_restores) simp
    moreover have "map ?val [mb..<mb + (n - 1)] = map ?cell [0..<n - 1]"
      by (rule nth_equalityI) (use node in auto)
    ultimately show ?thesis
      unfolding init_cells_def assms(3)[symmetric] using map_sort_key[of ?val ?key "[mb..<mb + (n - 1)]"] by simp
  qed
  ultimately show ?thesis using s(1,6) by (auto simp: eq)
qed

text \<open>
  C17. \<open>core_list_init\<close> on a memory block with room for four nodes or more: it builds a list of one
  node less than the room allows, without an access outside the block, in the order of the
  indices, from the head with index 0 to the tail with index 0x7fff. Every node carries the data word
  and the index that the seed determines for it, and its data are regenerated already. Nothing outside
  the two areas of the block changes.
\<close>

theorem core_list_init_builds:
  assumes "{mb..<mb + n} \<subseteq> dom (heads s)" "{db..<db + n} \<subseteq> dom (datas s)"
    and "n = unat (list_items blksize)" "4 \<le> n" "n \<le> 2 ^ 15"
  shows "\<exists>s' xs. core_list_init blksize mb db seed s = Some (Some mb, s') \<and>
    chain (heads s') (Some mb) xs None \<and> length xs = n - 1 \<and> set xs = {mb..<mb + (n - 1)} \<and>
    hd xs = mb \<and> last xs = mb + 1 \<and> sorted (map (node_idx s') xs) \<and>
    (\<forall>j<n - 1. node_data s' (mb + j) = Some (final_cell seed (list_items blksize) j) \<and>
       node_idx s' (mb + j) = sint (idx (final_cell seed (list_items blksize) j)) \<and>
       regenerated s' (data_at (heads s') (mb + j))) \<and>
    (\<forall>a. a \<notin> {mb..<mb + n} \<longrightarrow> heads s' a = heads s a) \<and> (\<forall>a. a \<notin> {db..<db + n} \<longrightarrow> datas s' a = datas s a) \<and>
    store.more s' = store.more s"
  by (rule core_list_init_total[OF assms])

definition blank_store :: store where
  "blank_store = \<lparr>heads = \<lambda>a. Some \<lparr>lnext = None, info = 0\<rparr>, datas = \<lambda>a. Some \<lparr>data16 = 0, idx = 0\<rparr>\<rparr>"

theorem core_list_init_builds_witness:
  "\<exists>s' xs. core_list_init 666 0 0 0x3415 blank_store = Some (Some 0, s') \<and>
    chain (heads s') (Some 0) xs None \<and> length xs = 30 \<and> hd xs = 0 \<and> last xs = 1"
proof -
  have n: "31 = unat (list_items 666)" by code_simp
  have "{0..<0 + 31} \<subseteq> dom (heads blank_store)" "{0..<0 + 31} \<subseteq> dom (datas blank_store)"
    by (auto simp: blank_store_def)
  from core_list_init_builds[OF this n, of "0x3415"]
  obtain s' xs where "core_list_init 666 0 0 0x3415 blank_store = Some (Some 0, s')"
    "chain (heads s') (Some 0) xs None" "length xs = 31 - 1" "hd xs = 0" "last xs = 0 + 1" by auto
  then show ?thesis by auto
qed

end
