(* ===== verification/Digits.thy ===== *)
theory Digits
  imports Prelude
begin

text \<open>
  Printing numbers. Every driver and formatter of the repository converts an unsigned number to
  digits with the same loop, \<open>while (v) { buf[n++] = digit of v % base; v /= base; }\<close>, into a local
  array that it then reads backwards. The loop is defined here once, with the digit table as a
  parameter (its elements are characters, or optional characters where the array is not initialised), and shown to write the digits of the number, least significant first.
\<close>

section \<open>The loop\<close>

partial_function (option) digit_loop ::
  "(ee_u32 \<Rightarrow> 'c option) \<Rightarrow> ee_u32 \<Rightarrow> ee_u32 \<Rightarrow> 'c list \<Rightarrow> nat \<Rightarrow> ('c list \<times> nat) option" where
  "digit_loop dig base v buf n =
     (if v \<noteq> 0 then
        do { c \<leftarrow> dig (v mod base);
             buf \<leftarrow> wr buf n c;
             digit_loop dig base (v div base) buf (n + 1) }
      else Some (buf, n))"

declare digit_loop.simps [code]

text \<open>\<open>"0123456789abcdef"[d]\<close>, and \<open>'0' + d\<close>.\<close>

definition table_digit :: "string \<Rightarrow> ee_u32 \<Rightarrow> char option" where
  "table_digit tab d = rd tab (unat d)"

definition zero_plus :: "ee_u32 \<Rightarrow> char option" where
  "zero_plus d = Some (char_of (48 + unat d))"

section \<open>The digits of a number\<close>

function digs :: "nat \<Rightarrow> nat \<Rightarrow> nat list" where
  "digs b n = (if n = 0 \<or> b < 2 then [] else n mod b # digs b (n div b))"
  by pat_completeness auto
termination by (relation "measure snd") auto

declare digs.simps [simp del]

lemma digs_0 [simp]: "digs b 0 = []"
  by (subst digs.simps) simp

lemma digs_step: "2 \<le> b \<Longrightarrow> 0 < n \<Longrightarrow> digs b n = n mod b # digs b (n div b)"
  by (subst digs.simps) simp

lemma digs_eq_Nil [simp]: "2 \<le> b \<Longrightarrow> digs b n = [] \<longleftrightarrow> n = 0"
  by (subst digs.simps) simp

definition digs_val :: "nat \<Rightarrow> nat list \<Rightarrow> nat" where
  "digs_val b ds = foldr (\<lambda>d v. d + b * v) ds 0"

lemma digs_val_simps [simp]: "digs_val b [] = 0" "digs_val b (d # ds) = d + b * digs_val b ds"
  by (simp_all add: digs_val_def)

lemma digs_val_digs:
  assumes "2 \<le> b"
  shows "digs_val b (digs b n) = n"
proof (induction n rule: less_induct)
  case (less n)
  show ?case
  proof (cases "n = 0")
    case False
    then have "n div b < n" using assms by simp
    with less.IH False assms show ?thesis by (simp add: digs_step)
  qed simp
qed

lemma digs_bound:
  assumes "2 \<le> b" "d \<in> set (digs b n)"
  shows "d < b"
  using assms(2)
proof (induction n rule: less_induct)
  case (less n)
  then have "n \<noteq> 0" by (cases "n = 0") simp_all
  moreover have "n mod b < b" "n div b < n" using assms(1) \<open>n \<noteq> 0\<close> by simp_all
  ultimately show ?case using less assms(1) by (auto simp: digs_step)
qed

lemma digs_length:
  assumes "2 \<le> b" "n < b ^ k"
  shows "length (digs b n) \<le> k"
  using assms(2)
proof (induction k arbitrary: n)
  case 0
  then show ?case by simp
next
  case (Suc k)
  show ?case
  proof (cases "n = 0")
    case False
    have "n div b < b ^ k" using Suc.prems assms(1) by (simp add: less_mult_imp_div_less mult.commute)
    with Suc.IH[of "n div b"] False assms(1) show ?thesis by (simp add: digs_step)
  qed simp
qed

lemma digs_length_u32: "2 \<le> b \<Longrightarrow> length (digs b (unat (v :: ee_u32))) \<le> 32"
  using digs_length[of b "unat v" 32] unsigned_less[of v, where ?'a = nat] power_mono[of 2 b 32] by simp

lemma digs_10_length_u32: "length (digs 10 (unat (v :: ee_u32))) \<le> 10"
  using digs_length[of 10 "unat v" 10] unsigned_less[of v, where ?'a = nat] by simp

lemma digs_16_length_u32: "length (digs 16 (unat (v :: ee_u32))) \<le> 8"
  using digs_length[of 16 "unat v" 8] unsigned_less[of v, where ?'a = nat] by simp

section \<open>The text of a number\<close>

text \<open>Most significant digit first, and \<open>0\<close> for the number zero.\<close>

definition num_text :: "(nat \<Rightarrow> char) \<Rightarrow> nat \<Rightarrow> nat \<Rightarrow> string" where
  "num_text c b n = (if n = 0 then [c 0] else map c (rev (digs b n)))"

definition dec_char :: "nat \<Rightarrow> char" where
  "dec_char d = char_of (48 + d)"

definition hex_char :: "nat \<Rightarrow> char" where
  "hex_char d = ''0123456789abcdef'' ! d"

lemma num_text_ne [simp]: "2 \<le> b \<Longrightarrow> num_text c b n \<noteq> []"
  by (simp add: num_text_def)

lemma num_text_chars:
  assumes "2 \<le> b" "x \<in> set (num_text c b n)"
  shows "\<exists>d<b. x = c d"
proof (cases "n = 0")
  case True
  with assms show ?thesis by (intro exI[of _ 0]) (simp add: num_text_def)
next
  case False
  with assms(2) obtain d where "d \<in> set (digs b n)" "x = c d" by (auto simp: num_text_def)
  with digs_bound[OF assms(1)] show ?thesis by blast
qed

lemma digit_val_dec_char: "d < 10 \<Longrightarrow> is_digit (dec_char d) \<and> digit_val (dec_char d) = d"
  by (simp add: dec_char_def is_digit_def digit_val_def char_code_def)

lemma dec_val_rev_digits: "\<forall>d\<in>set ds. d < 10 \<Longrightarrow> dec_val (map dec_char (rev ds)) = digs_val 10 ds"
  by (induction ds) (simp_all add: digit_val_dec_char)

text \<open>The decimal text of a number denotes it.\<close>

lemma dec_num_text: "dec_val (num_text dec_char 10 n) = n" "list_all is_digit (num_text dec_char 10 n)"
proof -
  have b: "\<forall>d\<in>set (digs 10 n). d < 10" using digs_bound[of 10] by simp
  show "dec_val (num_text dec_char 10 n) = n"
    using dec_val_rev_digits[OF b] by (simp add: num_text_def digs_val_digs digit_val_dec_char)
  show "list_all is_digit (num_text dec_char 10 n)"
    using b by (auto simp: num_text_def list_all_iff digit_val_dec_char)
qed

section \<open>What the loop writes\<close>

text \<open>\<open>put_at buf n xs\<close>: the elements \<open>xs\<close> stored from index \<open>n\<close> on.\<close>

definition put_at :: "'a list \<Rightarrow> nat \<Rightarrow> 'a list \<Rightarrow> 'a list" where
  "put_at buf n xs = take n buf @ xs @ drop (n + length xs) buf"

lemma put_at_Nil [simp]: "put_at buf n [] = buf"
  by (simp add: put_at_def)

lemma length_put_at [simp]: "n + length xs \<le> length buf \<Longrightarrow> length (put_at buf n xs) = length buf"
  by (simp add: put_at_def)

lemma put_at_Cons: "n < length buf \<Longrightarrow> put_at (buf[n := x]) (Suc n) xs = put_at buf n (x # xs)"
  by (simp add: put_at_def take_Suc_conv_app_nth)

lemma put_at_put_at:
  "n + length xs + length ys \<le> length buf \<Longrightarrow> put_at (put_at buf n xs) (n + length xs) ys = put_at buf n (xs @ ys)"
  by (simp add: put_at_def ac_simps)

lemma take_put_at: "n + length xs \<le> length buf \<Longrightarrow> take (n + length xs) (put_at buf n xs) = take n buf @ xs"
  by (simp add: put_at_def)

lemma nth_put_at: "i < length xs \<Longrightarrow> n + length xs \<le> length buf \<Longrightarrow> put_at buf n xs ! (n + i) = xs ! i"
  by (simp add: put_at_def nth_append)

lemma digit_loop_writes:
  assumes "2 \<le> unat base" "\<And>d. unat d < unat base \<Longrightarrow> dig d = Some (c (unat d))"
    and "n + length (digs (unat base) (unat v)) \<le> length buf"
  shows "digit_loop dig base v buf n =
    Some (put_at buf n (map c (digs (unat base) (unat v))), n + length (digs (unat base) (unat v)))"
  using assms(3)
proof (induction "unat v" arbitrary: v buf n rule: less_induct)
  case less
  let ?b = "unat base"
  show ?case
  proof (cases "v = 0")
    case True
    then show ?thesis by (subst digit_loop.simps) simp
  next
    case False
    then have v: "0 < unat v" by (simp add: unat_gt_0)
    have step: "digs ?b (unat v) = unat v mod ?b # digs ?b (unat (v div base))"
      using digs_step[OF assms(1) v] by (simp add: unat_div)
    have "unat (v mod base) < ?b" "unat (v div base) < unat v"
      using assms(1) v by (simp_all add: unat_mod unat_div)
    with less.hyps[of "v div base" "n + 1" "buf[n := c (unat v mod ?b)]"] less.prems False assms(2)[of "v mod base"]
    show ?thesis
      by (subst digit_loop.simps) (simp add: step unat_mod put_at_Cons)
  qed
qed

lemma table_digit_in: "unat d < length tab \<Longrightarrow> table_digit tab d = Some (tab ! unat d)"
  by (simp add: table_digit_def)

end
