(* ===== verification/Uart.thy ===== *)
theory Uart
  imports Prelude
begin

text \<open>
  The serial port as the drivers see it: one register that reads as a status word, whose bit 0 is set
  while the transmitter is busy, and that takes the next byte when it is written. CoreMark
  (\<open>uart_send_char\<close>), Dhrystone, Embench and the RTOS board support (\<open>uart_putc\<close>) have a driver each;
  the interface they share is the locale \<open>uart_port\<close>, which every one of them is shown to implement.

  The transmitter is hardware: the status word it shows at the \<open>n\<close>-th read since reset is the
  parameter \<open>st n\<close> of every definition that reads it.
\<close>

section \<open>The device\<close>

type_synonym status = "nat \<Rightarrow> ee_u32"

text \<open>How often the status was read, and the values written to the register, in order.\<close>

record uart =
  ureads :: nat
  usent :: "ee_u32 list"

definition uart_read :: "status \<Rightarrow> uart \<Rightarrow> ee_u32 \<times> uart" where
  "uart_read st u = (st (ureads u), u\<lparr>ureads := ureads u + 1\<rparr>)"

definition uart_write :: "ee_u32 \<Rightarrow> uart \<Rightarrow> uart" where
  "uart_write v u = u\<lparr>usent := usent u @ [v]\<rparr>"

text \<open>\<open>while (*uart & 1);\<close>\<close>

partial_function (option) tx_wait :: "status \<Rightarrow> uart \<Rightarrow> uart option" where
  "tx_wait st u =
     (let (v, u) = uart_read st u
      in if v AND 1 \<noteq> 0 then tx_wait st u else Some u)"

declare tx_wait.simps [code]

text \<open>A transmitter that always comes free again.\<close>

definition ready :: "status \<Rightarrow> bool" where
  "ready st \<longleftrightarrow> (\<forall>n. \<exists>m\<ge>n. st m AND 1 = 0)"

lemma tx_wait_read:
  "tx_wait st u = (if st (ureads u) AND 1 \<noteq> 0 then tx_wait st (u\<lparr>ureads := ureads u + 1\<rparr>)
    else Some (u\<lparr>ureads := ureads u + 1\<rparr>))"
  by (subst tx_wait.simps) (simp add: uart_read_def)

text \<open>The wait ends at the first read that shows the transmitter free.\<close>

lemma tx_wait_first:
  assumes "ureads u \<le> m" "st m AND 1 = 0" "\<And>i. ureads u \<le> i \<Longrightarrow> i < m \<Longrightarrow> st i AND 1 \<noteq> 0"
  shows "tx_wait st u = Some (u\<lparr>ureads := Suc m\<rparr>)"
  using assms
proof (induction "m - ureads u" arbitrary: u)
  case 0
  then show ?case by (subst tx_wait_read) simp
next
  case (Suc k)
  have "tx_wait st (u\<lparr>ureads := ureads u + 1\<rparr>) = Some (u\<lparr>ureads := ureads u + 1, ureads := Suc m\<rparr>)"
    using Suc by (intro Suc.hyps(1)) simp_all
  with Suc show ?case by (subst tx_wait_read) auto
qed

lemma tx_wait_ready:
  assumes "ready st"
  shows "\<exists>n>ureads u. tx_wait st u = Some (u\<lparr>ureads := n\<rparr>)"
proof -
  define P where "P m \<longleftrightarrow> ureads u \<le> m \<and> st m AND 1 = 0" for m
  obtain k where "P k" using assms by (auto simp: ready_def P_def)
  then obtain m where m: "P m" "\<And>i. i < m \<Longrightarrow> \<not> P i"
    by (metis LeastI not_less_Least)
  then have "tx_wait st u = Some (u\<lparr>ureads := Suc m\<rparr>)" by (intro tx_wait_first) (auto simp: P_def)
  with m(1) show ?thesis by (intro exI[of _ "Suc m"]) (simp add: P_def)
qed

text \<open>The wait ends only when a read shows the transmitter free, and writes nothing.\<close>

lemma tx_wait_free:
  assumes "tx_wait st u = Some u'"
  shows "\<exists>m\<ge>ureads u. st m AND 1 = 0 \<and> u' = u\<lparr>ureads := Suc m\<rparr>"
proof (rule tx_wait.raw_induct[OF _ assms])
  fix wait st u u'
  assume IH: "\<And>st u u'. wait st u = Some u' \<Longrightarrow> \<exists>m\<ge>ureads u. st m AND 1 = 0 \<and> u' = u\<lparr>ureads := Suc m\<rparr>"
    and run: "(let (v, u) = uart_read st u in if v AND 1 \<noteq> 0 then wait st u else Some u) = Some u'"
  show "\<exists>m\<ge>ureads u. st m AND 1 = 0 \<and> u' = u\<lparr>ureads := Suc m\<rparr>"
  proof (cases "st (ureads u) AND 1 = 0")
    case True
    with run show ?thesis by (auto simp: uart_read_def)
  next
    case False
    with IH[of st "u\<lparr>ureads := ureads u + 1\<rparr>" u'] run show ?thesis
      by (auto simp: uart_read_def) (metis Suc_leD)
  qed
qed

lemma tx_wait_stuck: "\<forall>m\<ge>ureads u. st m AND 1 \<noteq> 0 \<Longrightarrow> tx_wait st u = None"
  using tx_wait_free[of st u] by (cases "tx_wait st u") auto

text \<open>A transmitter that is never busy, and a port nothing was sent to.\<close>

definition idle_uart :: uart where
  "idle_uart = \<lparr>ureads = 0, usent = []\<rparr>"

lemma ready_idle: "ready (\<lambda>n. 0)"
  by (auto simp: ready_def)

section \<open>Sending strings\<close>

type_synonym putc = "status \<Rightarrow> char \<Rightarrow> uart \<Rightarrow> uart option"

fun send_all :: "putc \<Rightarrow> status \<Rightarrow> string \<Rightarrow> uart \<Rightarrow> uart option" where
  "send_all putc st [] u = Some u"
| "send_all putc st (c # cs) u = Option.bind (putc st c u) (send_all putc st cs)"

text \<open>
  \<open>while (*s) putc(*s++);\<close> where the list holds the memory from \<open>s\<close> on; a string without its NUL is
  read past its end.
\<close>

fun puts_loop :: "putc \<Rightarrow> status \<Rightarrow> string \<Rightarrow> uart \<Rightarrow> uart option" where
  "puts_loop putc st [] u = None"
| "puts_loop putc st (c # s) u =
     (if c \<noteq> CHR 0x00 then do { u \<leftarrow> putc st c u; puts_loop putc st s u } else Some u)"

text \<open>A string literal with its terminator.\<close>

definition c_str :: "string \<Rightarrow> string" where
  "c_str s = s @ [CHR 0x00]"

text \<open>A text and a line feed.\<close>

definition line :: "string \<Rightarrow> string" where
  "line s = s @ [CHR 0x0A]"

lemma send_all_append: "send_all putc st (xs @ ys) u = Option.bind (send_all putc st xs u) (send_all putc st ys)"
  by (induction xs arbitrary: u) (auto simp: Option.bind_assoc intro!: Option.bind_cong)

lemma puts_loop_string: "CHR 0x00 \<notin> set s \<Longrightarrow> puts_loop putc st (s @ CHR 0x00 # r) u = send_all putc st s u"
  by (induction s arbitrary: u) (auto cong: Option.bind_cong)

lemma puts_loop_c_str: "CHR 0x00 \<notin> set s \<Longrightarrow> puts_loop putc st (c_str s) u = send_all putc st s u"
  by (simp add: c_str_def puts_loop_string)

section \<open>The interface of the drivers\<close>

text \<open>
  \<open>putc_free\<close>: a driver returns only after it saw the transmitter free, and its only write is the
  character. \<open>putc_ready\<close>: it returns when the transmitter does come free.
\<close>

locale uart_port =
  fixes putc :: putc
  assumes putc_free: "putc st c u = Some u' \<Longrightarrow>
      \<exists>m\<ge>ureads u. st m AND 1 = 0 \<and> u' = u\<lparr>ureads := Suc m, usent := usent u @ [of_char c]\<rparr>"
    and putc_ready: "ready st \<Longrightarrow> \<exists>u'. putc st c u = Some u'"
begin

lemma putc_sends: "ready st \<Longrightarrow> \<exists>n>ureads u. putc st c u = Some (u\<lparr>ureads := n, usent := usent u @ [of_char c]\<rparr>)"
  using putc_ready[of st c u] putc_free[of st c u] by (metis less_Suc_eq_le)

lemma send_all_sends:
  assumes "ready st"
  shows "\<exists>n\<ge>ureads u. send_all putc st s u = Some (u\<lparr>ureads := n, usent := usent u @ map of_char s\<rparr>)"
proof (induction s arbitrary: u)
  case Nil
  show ?case by (intro exI[of _ "ureads u"]) simp
next
  case (Cons c s)
  obtain n where n: "n > ureads u" "putc st c u = Some (u\<lparr>ureads := n, usent := usent u @ [of_char c]\<rparr>)"
    using putc_sends[OF assms] by blast
  obtain k where "k \<ge> n" "send_all putc st s (u\<lparr>ureads := n, usent := usent u @ [of_char c]\<rparr>)
      = Some (u\<lparr>ureads := k, usent := usent u @ map of_char (c # s)\<rparr>)"
    using Cons.IH[of "u\<lparr>ureads := n, usent := usent u @ [of_char c]\<rparr>"] by auto
  with n show ?case by (intro exI[of _ k]) simp
qed

text \<open>Whatever a driver managed to send is a prefix that grew character by character.\<close>

lemma send_all_sent: "send_all putc st s u = Some u' \<Longrightarrow> usent u' = usent u @ map of_char s"
proof (induction s arbitrary: u)
  case (Cons c s)
  then obtain v where "putc st c u = Some v" "send_all putc st s v = Some u'" by (auto simp: opt_simps)
  with Cons.IH[of v] putc_free[of st c u v] show ?case by auto
qed simp

lemma puts_sends:
  assumes "ready st" "CHR 0x00 \<notin> set s"
  shows "\<exists>n\<ge>ureads u. puts_loop putc st (c_str s) u = Some (u\<lparr>ureads := n, usent := usent u @ map of_char s\<rparr>)"
  using send_all_sends[OF assms(1)] assms(2) by (simp add: puts_loop_c_str)

end

text \<open>The body every driver has: wait, then write the character.\<close>

lemma wait_write_free:
  "Option.bind (tx_wait st u) (\<lambda>u. Some (uart_write v u)) = Some u' \<Longrightarrow>
    \<exists>m\<ge>ureads u. st m AND 1 = 0 \<and> u' = u\<lparr>ureads := Suc m, usent := usent u @ [v]\<rparr>"
  by (auto simp: opt_simps uart_write_def dest!: tx_wait_free)

lemma wait_write_ready: "ready st \<Longrightarrow> \<exists>u'. Option.bind (tx_wait st u) (\<lambda>u. Some (uart_write v u)) = Some u'"
  using tx_wait_ready[of st u] by auto

end
