(* ===== verification/Ee_Printf.thy ===== *)
theory Ee_Printf
  imports Digits Uart
begin

text \<open>
  \<open>coremark/src/barebones/ee_printf.c\<close>: the formatter that all reports of CoreMark go through, as it
  is compiled for this port (\<open>HAS_FLOAT\<close> is 0): \<open>strnlen\<close>, \<open>skip_atoi\<close>, \<open>number\<close>, \<open>eaddr\<close>, \<open>iaddr\<close>,
  \<open>ee_vsprintf\<close> and \<open>ee_printf\<close>. The output buffer is an array and a position, and every \<open>*str++ = c\<close> is
  checked against its end. The formatter is then shown to write exactly the text that a specification
  without buffers, counters and loops gives for a format and its arguments.
\<close>

section \<open>The code\<close>

subsection \<open>Flags, digits and output\<close>

definition ZEROPAD :: ee_s32 where "ZEROPAD = push_bit 0 1"
definition SIGN :: ee_s32 where "SIGN = push_bit 1 1"
definition PLUS :: ee_s32 where "PLUS = push_bit 2 1"
definition SPACE :: ee_s32 where "SPACE = push_bit 3 1"
definition LEFT :: ee_s32 where "LEFT = push_bit 4 1"
definition HEX_PREP :: ee_s32 where "HEX_PREP = push_bit 5 1"
definition UPPERCASE :: ee_s32 where "UPPERCASE = push_bit 6 1"

definition ee_digits :: string where
  "ee_digits = ''0123456789abcdefghijklmnopqrstuvwxyz''"

definition upper_digits :: string where
  "upper_digits = ''0123456789ABCDEFGHIJKLMNOPQRSTUVWXYZ''"

text \<open>An array and the index the next character goes to: \<open>*str++ = c\<close>, \<open>tmp[i++] = c\<close>.\<close>

type_synonym out = "string \<times> nat"

definition emit :: "char \<Rightarrow> out \<Rightarrow> out option" where
  "emit c = (\<lambda>(buf, str). do { buf \<leftarrow> wr buf str c; Some (buf, str + 1) })"

text \<open>\<open>while (lo < n--) *str++ = c;\<close> and \<open>while (--n > 0) *str++ = c;\<close>, with the final value of \<open>n\<close>.\<close>

function pad_to :: "char \<Rightarrow> int \<Rightarrow> int \<Rightarrow> out \<Rightarrow> (int \<times> out) option" where
  "pad_to c lo n out =
     do { n' \<leftarrow> s32 (n - 1);
          if lo < n then do { out \<leftarrow> emit c out; pad_to c lo n' out }
          else Some (n', out) }"
  by pat_completeness auto
termination
  by (relation "measure (\<lambda>(c, lo, n, out). nat (n - lo))") (auto simp: opt_simps)

function pad_below :: "char \<Rightarrow> int \<Rightarrow> out \<Rightarrow> (int \<times> out) option" where
  "pad_below c n out =
     do { n' \<leftarrow> s32 (n - 1);
          if 0 < n' then do { out \<leftarrow> emit c out; pad_below c n' out }
          else Some (n', out) }"
  by pat_completeness auto
termination
  by (relation "measure (\<lambda>(c, n, out). nat n)") (auto simp: opt_simps)

text \<open>\<open>while (i-- > 0) *str++ = tmp[i];\<close> and \<open>for (i = 0; i < len; ++i) *str++ = tmp[i];\<close>\<close>

fun copy_down :: "string \<Rightarrow> nat \<Rightarrow> out \<Rightarrow> out option" where
  "copy_down tmp 0 out = Some out"
| "copy_down tmp (Suc i) out = do { c \<leftarrow> rd tmp i; out \<leftarrow> emit c out; copy_down tmp i out }"

definition copy_up :: "string \<Rightarrow> nat \<Rightarrow> out \<Rightarrow> out option" where
  "copy_up tmp len = for_loop 0 len (\<lambda>i out. do { c \<leftarrow> rd tmp i; emit c out })"

declare pad_to.simps [simp del] pad_below.simps [simp del]

subsection \<open>The helpers\<close>

text \<open>Strings are the memory from the pointer on; reading past its end is undefined.\<close>

fun strnlen :: "string \<Rightarrow> ee_u32 \<Rightarrow> nat option" where
  "strnlen [] count = None"
| "strnlen (c # sc) count =
     (if c \<noteq> CHR 0x00 \<and> count \<noteq> 0 then map_option Suc (strnlen sc (count - 1)) else Some 0)"

fun skip_atoi :: "int \<Rightarrow> string \<Rightarrow> (int \<times> string) option" where
  "skip_atoi i [] = None"
| "skip_atoi i (c # s) =
     (if is_digit c then
        do { i \<leftarrow> s32 (i * 10);
             i \<leftarrow> s32 (i + int (char_code c));
             i \<leftarrow> s32 (i - 48);
             skip_atoi i s }
      else Some (i, c # s))"

text \<open>The sign character (NUL for none), the magnitude and the width that is left (the source calls it \<open>size\<close>).\<close>

definition number_sign :: "ee_s32 \<Rightarrow> ee_s32 \<Rightarrow> int \<Rightarrow> (char \<times> ee_s32 \<times> int) option" where
  "number_sign type num sz =
     (if type AND SIGN \<noteq> 0 then
        if num <s 0 then
          do { num \<leftarrow> neg_s32 num; sz \<leftarrow> s32 (sz - 1); Some (CHR ''-'', num, sz) }
        else if type AND PLUS \<noteq> 0 then
          do { sz \<leftarrow> s32 (sz - 1); Some (CHR ''+'', num, sz) }
        else if type AND SPACE \<noteq> 0 then
          do { sz \<leftarrow> s32 (sz - 1); Some (CHR '' '', num, sz) }
        else Some (CHR 0x00, num, sz)
      else Some (CHR 0x00, num, sz))"

definition number_size :: "ee_s32 \<Rightarrow> int \<Rightarrow> int \<Rightarrow> int option" where
  "number_size type base sz =
     (if type AND HEX_PREP \<noteq> 0 then
        if base = 16 then s32 (sz - 2) else if base = 8 then s32 (sz - 1) else Some sz
      else Some sz)"

definition number_prefix :: "ee_s32 \<Rightarrow> int \<Rightarrow> out \<Rightarrow> out option" where
  "number_prefix type base out =
     (if type AND HEX_PREP \<noteq> 0 then
        if base = 8 then emit (CHR ''0'') out
        else if base = 16 then
          do { out \<leftarrow> emit (CHR ''0'') out; x \<leftarrow> rd ee_digits 33; emit x out }
        else Some out
      else Some out)"

text \<open>
  \<open>number\<close> returns the advanced pointer, NULL (\<open>None\<close> in the second component) for an impossible base.
\<close>

definition number ::
  "out \<Rightarrow> ee_s32 \<Rightarrow> int \<Rightarrow> int \<Rightarrow> int \<Rightarrow> ee_s32 \<Rightarrow> (string \<times> nat option) option" where
  "number out num base sz precision type =
     (let dig = (if type AND UPPERCASE \<noteq> 0 then upper_digits else ee_digits);
          type = (if type AND LEFT \<noteq> 0 then type AND NOT ZEROPAD else type);
          tmp = replicate 66 (CHR 0x00)
      in if base < 2 \<or> 36 < base then Some (fst out, None)
      else do {
        let c = (if type AND ZEROPAD \<noteq> 0 then CHR ''0'' else CHR '' '');
        (sign, num, sz) \<leftarrow> number_sign type num sz;
        sz \<leftarrow> number_size type base sz;
        (tmp, i) \<leftarrow> (if num = 0 then emit (CHR ''0'') (tmp, 0)
                    else digit_loop (table_digit dig) (word_of_int base) num tmp 0);
        let precision = (if precision < int i then int i else precision);
        sz \<leftarrow> s32 (sz - precision);
        (sz, out) \<leftarrow> (if type AND (ZEROPAD OR LEFT) = 0 then pad_to (CHR '' '') 0 sz out else Some (sz, out));
        out \<leftarrow> (if sign \<noteq> CHR 0x00 then emit sign out else Some out);
        out \<leftarrow> number_prefix type base out;
        (sz, out) \<leftarrow> (if type AND LEFT = 0 then pad_to c 0 sz out else Some (sz, out));
        (precision, out) \<leftarrow> pad_to (CHR ''0'') (int i) precision out;
        out \<leftarrow> copy_down tmp i out;
        (sz, out) \<leftarrow> pad_to (CHR '' '') 0 sz out;
        Some (fst out, Some (snd out)) })"

text \<open>The tail that both address formats share: padding around the text in \<open>tmp\<close>.\<close>

definition addr_field :: "string \<Rightarrow> nat \<Rightarrow> int \<Rightarrow> ee_s32 \<Rightarrow> out \<Rightarrow> out option" where
  "addr_field tmp len sz type out =
     do { (sz, out) \<leftarrow> (if type AND LEFT = 0 then pad_to (CHR '' '') (int len) sz out else Some (sz, out));
          out \<leftarrow> copy_up tmp len out;
          (sz, out) \<leftarrow> pad_to (CHR '' '') (int len) sz out;
          Some out }"

definition eaddr :: "out \<Rightarrow> ee_u8 list \<Rightarrow> int \<Rightarrow> int \<Rightarrow> ee_s32 \<Rightarrow> out option" where
  "eaddr out addr sz precision type =
     (let dig = (if type AND UPPERCASE \<noteq> 0 then upper_digits else ee_digits)
      in do {
        (tmp, len) \<leftarrow> for_loop 0 6 (\<lambda>i t.
          do { t \<leftarrow> (if i \<noteq> 0 then emit (CHR '':'') t else Some t);
               a \<leftarrow> rd addr i;
               h \<leftarrow> rd dig (unat (drop_bit 4 a));
               t \<leftarrow> emit h t;
               l \<leftarrow> rd dig (unat (a AND 0x0F));
               emit l t }) (replicate 24 (CHR 0x00), 0);
        addr_field tmp len sz type out })"

definition iaddr_octet :: "nat \<Rightarrow> out \<Rightarrow> out option" where
  "iaddr_octet n t =
     (if n = 0 then do { c \<leftarrow> rd ee_digits 0; emit c t }
      else do {
        (n, t) \<leftarrow> (if 100 \<le> n then
            do { c \<leftarrow> rd ee_digits (n div 100); t \<leftarrow> emit c t;
                 let n = n mod 100;
                 c \<leftarrow> rd ee_digits (n div 10); t \<leftarrow> emit c t;
                 Some (n mod 10, t) }
          else if 10 \<le> n then
            do { c \<leftarrow> rd ee_digits (n div 10); t \<leftarrow> emit c t; Some (n mod 10, t) }
          else Some (n, t));
        c \<leftarrow> rd ee_digits n;
        emit c t })"

definition iaddr :: "out \<Rightarrow> ee_u8 list \<Rightarrow> int \<Rightarrow> int \<Rightarrow> ee_s32 \<Rightarrow> out option" where
  "iaddr out addr sz precision type =
     do { (tmp, len) \<leftarrow> for_loop 0 4 (\<lambda>i t.
            do { t \<leftarrow> (if i \<noteq> 0 then emit (CHR ''.'') t else Some t);
                 n \<leftarrow> rd addr i;
                 iaddr_octet (unat n) t }) (replicate 24 (CHR 0x00), 0);
          addr_field tmp len sz type out }"

subsection \<open>\<open>ee_vsprintf\<close>\<close>

text \<open>
  An argument is a 32-bit word (\<open>int\<close>, \<open>unsigned\<close>, \<open>long\<close> and pointers printed as numbers have that
  width on this target), a string pointer (the memory it points to, or NULL), or a pointer to the bytes of
  an address. Fetching an argument of another kind, or one that is not there, is undefined.
\<close>

datatype va_val = VWord ee_u32 | VStr "string option" | VAddr "ee_u8 list"

fun va_word :: "va_val list \<Rightarrow> (ee_u32 \<times> va_val list) option" where
  "va_word (VWord w # args) = Some (w, args)"
| "va_word _ = None"

fun va_str :: "va_val list \<Rightarrow> (string option \<times> va_val list) option" where
  "va_str (VStr s # args) = Some (s, args)"
| "va_str _ = None"

fun va_addr :: "va_val list \<Rightarrow> (ee_u8 list \<times> va_val list) option" where
  "va_addr (VAddr a # args) = Some (a, args)"
| "va_addr _ = None"

text \<open>
  The format is the memory from \<open>fmt\<close> on. The parts of a conversion, each from the position after the one
  before it: flags (the loop of \<open>goto repeat\<close>), field width, precision, qualifier.
\<close>

fun process_flags :: "ee_s32 \<Rightarrow> string \<Rightarrow> (ee_s32 \<times> string) option" where
  "process_flags flags [] = None"
| "process_flags flags (c # fmt) =
     (if c = CHR ''-'' then process_flags (flags OR LEFT) fmt
      else if c = CHR ''+'' then process_flags (flags OR PLUS) fmt
      else if c = CHR '' '' then process_flags (flags OR SPACE) fmt
      else if c = CHR ''#'' then process_flags (flags OR HEX_PREP) fmt
      else if c = CHR ''0'' then process_flags (flags OR ZEROPAD) fmt
      else Some (flags, c # fmt))"

fun get_field_width ::
  "ee_s32 \<Rightarrow> string \<Rightarrow> va_val list \<Rightarrow> (int \<times> ee_s32 \<times> string \<times> va_val list) option" where
  "get_field_width flags [] args = None"
| "get_field_width flags (c # fmt) args =
     (if is_digit c then do { (w, fmt) \<leftarrow> skip_atoi 0 (c # fmt); Some (w, flags, fmt, args) }
      else if c = CHR ''*'' then
        do { (w, args) \<leftarrow> va_word args;
             if sint w < 0 then do { w \<leftarrow> s32 (- sint w); Some (w, flags OR LEFT, fmt, args) }
             else Some (sint w, flags, fmt, args) }
      else Some (-1, flags, c # fmt, args))"

fun precision_value :: "string \<Rightarrow> va_val list \<Rightarrow> (int \<times> string \<times> va_val list) option" where
  "precision_value [] args = None"
| "precision_value (c # fmt) args =
     (if is_digit c then do { (p, fmt) \<leftarrow> skip_atoi 0 (c # fmt); Some (p, fmt, args) }
      else if c = CHR ''*'' then do { (w, args) \<leftarrow> va_word args; Some (sint w, fmt, args) }
      else Some (-1, c # fmt, args))"

fun get_precision :: "string \<Rightarrow> va_val list \<Rightarrow> (int \<times> string \<times> va_val list) option" where
  "get_precision [] args = None"
| "get_precision (c # fmt) args =
     (if c = CHR ''.'' then
        do { (p, fmt, args) \<leftarrow> precision_value fmt args;
             Some (if p < 0 then 0 else p, fmt, args) }
      else Some (-1, c # fmt, args))"

fun get_qualifier :: "string \<Rightarrow> (int \<times> string) option" where
  "get_qualifier [] = None"
| "get_qualifier (c # fmt) =
     (if c = CHR ''l'' \<or> c = CHR ''L'' then Some (int (char_code c), fmt) else Some (-1, c # fmt))"

text \<open>The conversions: characters, strings, addresses, and the base and flags of the integers.\<close>

definition conv_char :: "ee_s32 \<Rightarrow> int \<Rightarrow> va_val list \<Rightarrow> out \<Rightarrow> (va_val list \<times> out) option" where
  "conv_char flags field_width args out =
     do { (field_width, out) \<leftarrow> (if flags AND LEFT = 0 then pad_below (CHR '' '') field_width out
                                else Some (field_width, out));
          (w, args) \<leftarrow> va_word args;
          out \<leftarrow> emit (char_of (unat w)) out;
          (field_width, out) \<leftarrow> pad_below (CHR '' '') field_width out;
          Some (args, out) }"

definition conv_str :: "ee_s32 \<Rightarrow> int \<Rightarrow> int \<Rightarrow> va_val list \<Rightarrow> out \<Rightarrow> (va_val list \<times> out) option" where
  "conv_str flags field_width precision args out =
     do { (s, args) \<leftarrow> va_str args;
          let s = (case s of None \<Rightarrow> c_str ''<NULL>'' | Some s \<Rightarrow> s);
          n \<leftarrow> strnlen s (word_of_int precision);
          let len = sint (of_nat n :: ee_s32);
          (field_width, out) \<leftarrow> (if flags AND LEFT = 0 then pad_to (CHR '' '') len field_width out
                                else Some (field_width, out));
          out \<leftarrow> copy_up s (nat len) out;
          (field_width, out) \<leftarrow> pad_to (CHR '' '') len field_width out;
          Some (args, out) }"

definition number_at :: "out \<Rightarrow> ee_s32 \<Rightarrow> int \<Rightarrow> int \<Rightarrow> int \<Rightarrow> ee_s32 \<Rightarrow> out option" where
  "number_at out num base field_width precision flags =
     do { (buf, str) \<leftarrow> number out num base field_width precision flags;
          str \<leftarrow> str;
          Some (buf, str) }"

definition conv_ptr :: "ee_s32 \<Rightarrow> int \<Rightarrow> int \<Rightarrow> va_val list \<Rightarrow> out \<Rightarrow> (va_val list \<times> out) option" where
  "conv_ptr flags field_width precision args out =
     (let (field_width, flags) = (if field_width = -1 then (2 * 4, flags OR ZEROPAD) else (field_width, flags))
      in do { (w, args) \<leftarrow> va_word args;
              out \<leftarrow> number_at out w 16 field_width precision flags;
              Some (args, out) })"

definition conv_addr :: "char \<Rightarrow> int \<Rightarrow> ee_s32 \<Rightarrow> int \<Rightarrow> int \<Rightarrow> va_val list \<Rightarrow> out \<Rightarrow> (va_val list \<times> out) option" where
  "conv_addr c qualifier flags field_width precision args out =
     (let flags = (if c = CHR ''A'' then flags OR UPPERCASE else flags)
      in do { (a, args) \<leftarrow> va_addr args;
              out \<leftarrow> (if qualifier = int (char_code (CHR ''l'')) then eaddr out a field_width precision flags
                     else iaddr out a field_width precision flags);
              Some (args, out) })"

definition int_conv :: "char \<Rightarrow> ee_s32 \<Rightarrow> (int \<times> ee_s32) option" where
  "int_conv c flags =
     (if c = CHR ''o'' then Some (8, flags)
      else if c = CHR ''X'' then Some (16, flags OR UPPERCASE)
      else if c = CHR ''x'' then Some (16, flags)
      else if c = CHR ''d'' \<or> c = CHR ''i'' then Some (10, flags OR SIGN)
      else if c = CHR ''u'' then Some (10, flags)
      else None)"

text \<open>
  Any other character: a lone percent sign for \<open>%%\<close>, the character behind a percent sign otherwise; at the end of
  the format \<open>--fmt\<close> makes the loop meet the NUL again.
\<close>

definition conv_other :: "char \<Rightarrow> string \<Rightarrow> out \<Rightarrow> (string \<times> out) option" where
  "conv_other c fmt out =
     do { out \<leftarrow> (if c \<noteq> CHR ''%'' then emit (CHR ''%'') out else Some out);
          if c \<noteq> CHR 0x00 then do { out \<leftarrow> emit c out; Some (fmt, out) }
          else Some (c # fmt, out) }"

definition convert ::
  "int \<Rightarrow> ee_s32 \<Rightarrow> int \<Rightarrow> int \<Rightarrow> string \<Rightarrow> va_val list \<Rightarrow> out \<Rightarrow> (string \<times> va_val list \<times> out) option" where
  "convert qualifier flags field_width precision fmt args out =
     (case fmt of [] \<Rightarrow> None
      | c # fmt \<Rightarrow>
          if c = CHR ''c'' then
            do { (args, out) \<leftarrow> conv_char flags field_width args out; Some (fmt, args, out) }
          else if c = CHR ''s'' then
            do { (args, out) \<leftarrow> conv_str flags field_width precision args out; Some (fmt, args, out) }
          else if c = CHR ''p'' then
            do { (args, out) \<leftarrow> conv_ptr flags field_width precision args out; Some (fmt, args, out) }
          else if c = CHR ''A'' \<or> c = CHR ''a'' then
            do { (args, out) \<leftarrow> conv_addr c qualifier flags field_width precision args out; Some (fmt, args, out) }
          else case int_conv c flags of
            Some (base, flags) \<Rightarrow>
              do { (num, args) \<leftarrow> va_word args;
                   out \<leftarrow> number_at out num base field_width precision flags;
                   Some (fmt, args, out) }
          | None \<Rightarrow> do { (fmt, out) \<leftarrow> conv_other c fmt out; Some (fmt, args, out) })"

definition parse_spec ::
  "string \<Rightarrow> va_val list \<Rightarrow> (int \<times> ee_s32 \<times> int \<times> int \<times> string \<times> va_val list) option" where
  "parse_spec fmt args =
     do { (flags, fmt) \<leftarrow> process_flags 0 fmt;
          (field_width, flags, fmt, args) \<leftarrow> get_field_width flags fmt args;
          (precision, fmt, args) \<leftarrow> get_precision fmt args;
          (qualifier, fmt) \<leftarrow> get_qualifier fmt;
          Some (qualifier, flags, field_width, precision, fmt, args) }"

lemma process_flags_length: "process_flags flags fmt = Some (f, fmt') \<Longrightarrow> length fmt' \<le> length fmt"
  by (induction flags fmt rule: process_flags.induct) (auto simp: le_SucI split: if_split_asm)

lemma skip_atoi_length: "skip_atoi i fmt = Some (j, fmt') \<Longrightarrow> length fmt' \<le> length fmt"
  by (induction i fmt rule: skip_atoi.induct) (fastforce simp: opt_simps split: if_splits)+

lemma parse_spec_length:
  assumes "parse_spec fmt args = Some (q, f, w, p, fmt', args')"
  shows "length fmt' \<le> length fmt"
proof -
  have gw: "length s' \<le> length s" if "get_field_width fl s a = Some (w, fl', s', a')" for fl s a w fl' s' a'
    using that by (cases "(fl, s, a)" rule: get_field_width.cases)
      (auto simp: opt_simps split: if_splits dest: skip_atoi_length)
  have pv: "length s' \<le> length s" if "precision_value s a = Some (w, s', a')" for s a w s' a'
    using that by (cases "(s, a)" rule: precision_value.cases) (auto simp: opt_simps split: if_splits dest: skip_atoi_length)
  have gp: "length s' \<le> length s" if "get_precision s a = Some (w, s', a')" for s a w s' a'
    using that by (cases "(s, a)" rule: get_precision.cases) (auto simp: opt_simps split: if_splits dest: pv)
  have gq: "length s' \<le> length s" if "get_qualifier s = Some (w, s')" for s w s'
    using that by (cases s rule: get_qualifier.cases) (auto split: if_splits)
  from assms show ?thesis
    by (auto simp: parse_spec_def opt_simps dest!: process_flags_length gw gp gq)
qed

lemma convert_length: "convert q f w p fmt args out = Some (fmt', args', out') \<Longrightarrow> length fmt' \<le> length fmt"
proof (cases fmt)
  case (Cons c r)
  assume run: "convert q f w p fmt args out = Some (fmt', args', out')"
  have other: "length s' \<le> Suc (length r)" if "conv_other c r out = Some (s', o')" for s' o'
    using that unfolding conv_other_def by (auto simp: opt_simps split: if_split_asm)
  from run have "fmt' = r \<or> (\<exists>o'. conv_other c r out = Some (fmt', o'))"
    unfolding convert_def Cons by (auto simp: opt_simps split: if_split_asm option.split_asm prod.split_asm)
  with other Cons show ?thesis by auto
qed (simp add: convert_def)

text \<open>The main loop. Every round consumes at least the character it starts with.\<close>

function vsprintf_loop :: "string \<Rightarrow> va_val list \<Rightarrow> out \<Rightarrow> out option" where
  "vsprintf_loop fmt args out =
     (case fmt of [] \<Rightarrow> None
      | c # fmt \<Rightarrow>
          if c = CHR 0x00 then Some out
          else if c \<noteq> CHR ''%'' then do { out \<leftarrow> emit c out; vsprintf_loop fmt args out }
          else do { (qualifier, flags, field_width, precision, fmt, args) \<leftarrow> parse_spec fmt args;
                    (fmt, args, out) \<leftarrow> convert qualifier flags field_width precision fmt args out;
                    vsprintf_loop fmt args out })"
  by pat_completeness auto
termination
  by (relation "measure (\<lambda>(fmt, args, out). length fmt)")
    (auto dest!: parse_spec_length convert_length)

definition ee_vsprintf :: "string \<Rightarrow> string \<Rightarrow> va_val list \<Rightarrow> (nat \<times> string) option" where
  "ee_vsprintf buf fmt args =
     do { (buf, str) \<leftarrow> vsprintf_loop fmt args (buf, 0);
          buf \<leftarrow> wr buf str (CHR 0x00);
          Some (str, buf) }"

text \<open>
  \<open>ee_printf\<close>: a local buffer of 1024 characters, then the loop over it that sends and counts.
\<close>

fun send_loop :: "putc \<Rightarrow> status \<Rightarrow> string \<Rightarrow> nat \<Rightarrow> uart \<Rightarrow> (nat \<times> uart) option" where
  "send_loop putc st [] n u = None"
| "send_loop putc st (c # p) n u =
     (if c \<noteq> CHR 0x00 then do { u \<leftarrow> putc st c u; send_loop putc st p (n + 1) u } else Some (n, u))"

text \<open>\<open>uart_send_char\<close> of \<open>core_portme.c\<close>; \<open>char\<close> is unsigned.\<close>

definition uart_send_char :: putc where
  "uart_send_char st c u = do { u \<leftarrow> tx_wait st u; Some (uart_write (of_char c) u) }"

definition ee_printf :: "status \<Rightarrow> string \<Rightarrow> va_val list \<Rightarrow> uart \<Rightarrow> (nat \<times> uart) option" where
  "ee_printf st fmt args u =
     do { (_, buf) \<leftarrow> ee_vsprintf (replicate 1024 (CHR 0x00)) fmt args;
          send_loop uart_send_char st buf 0 u }"

section \<open>Sequences of output\<close>

text \<open>What the code does character by character is to write a text, if it fits.\<close>

definition put_all :: "string \<Rightarrow> out \<Rightarrow> out option" where
  "put_all t = (\<lambda>(buf, str). if t = [] \<or> str + length t \<le> length buf then Some (put_at buf str t, str + length t) else None)"

named_theorems put_simps \<open>output loops as texts\<close>

lemma put_all_Nil [simp]: "put_all [] out = Some out"
  by (cases out) (simp add: put_all_def)

lemma emit_put [put_simps]: "emit c = put_all [c]"
proof (rule ext)
  fix out :: out
  obtain buf str where out: "out = (buf, str)" by fastforce
  have "put_at buf str [c] = buf[str := c]" if "str < length buf"
    using put_at_Cons[OF that, of c "[]"] by simp
  then show "emit c out = put_all [c] out" by (simp add: out emit_def put_all_def wr_def)
qed

lemma put_all_append: "put_all (xs @ ys) out = Option.bind (put_all xs out) (put_all ys)"
  by (cases out; cases "xs = []"; cases "ys = []") (auto simp: put_all_def put_at_put_at add.assoc)

lemma put_all_then [put_simps]:
  "Option.bind (put_all xs out) (\<lambda>t. Option.bind (put_all ys t) f) = Option.bind (put_all (xs @ ys) out) f"
  by (simp add: put_all_append Option.bind_assoc)

lemma put_all_last [put_simps]: "Option.bind (put_all xs out) (put_all ys) = put_all (xs @ ys) out"
  by (simp add: put_all_append)

lemma put_all_Cons: "put_all (c # cs) out = Option.bind (put_all [c] out) (put_all cs)"
  using put_all_append[of "[c]" cs] by simp

lemma bind_map_option [put_simps]: "Option.bind (map_option g m) f = Option.bind m (\<lambda>x. f (g x))"
  by (cases m) auto

lemma put_all_map [put_simps]:
  "Option.bind (put_all xs out) (\<lambda>t. map_option g (put_all ys t)) = map_option g (put_all (xs @ ys) out)"
  by (cases "put_all xs out") (simp_all add: put_all_append)

lemma bind_Some_map [put_simps]: "Option.bind m (\<lambda>x. Some (g x)) = map_option g m"
  by (cases m) auto

lemma pad_to_put:
  assumes "in_s32 n" "in_s32 (min n lo - 1)"
  shows "pad_to c lo n out = map_option (Pair (min n lo - 1)) (put_all (replicate (nat (n - lo)) c) out)"
  using assms
proof (induction "nat (n - lo)" arbitrary: n out)
  case 0
  then show ?case by (subst pad_to.simps) (simp add: min_def split: if_splits)
next
  case (Suc k)
  have n: "in_s32 (n - 1)" "lo < n" "min (n - 1) lo = lo" "min n lo = lo" "nat (n - lo) = Suc (nat (n - 1 - lo))"
    using Suc by (auto simp: in_s32_def)
  have "pad_to c lo (n - 1) = (\<lambda>out. map_option (Pair (lo - 1)) (put_all (replicate (nat (n - 1 - lo)) c) out))"
    using Suc.hyps(1)[of "n - 1"] Suc.hyps(2) Suc.prems n by (intro ext) simp
  then show ?case
    using n by (subst pad_to.simps) (simp add: put_simps)
qed

lemma pad_below_put:
  assumes "in_s32 n" "in_s32 (n - 1)"
  shows "pad_below c n out = map_option (Pair (min n 1 - 1)) (put_all (replicate (nat (n - 1)) c) out)"
  using assms
proof (induction "nat (n - 1)" arbitrary: n out)
  case 0
  then show ?case by (subst pad_below.simps) (simp add: min_def split: if_splits)
next
  case (Suc k)
  have n: "in_s32 (n - 1 - 1)" "1 < n" "min (n - 1) 1 = 1" "min n 1 = 1" "nat (n - 1) = Suc (nat (n - 2))"
    using Suc by (auto simp: in_s32_def)
  have "pad_below c (n - 1) = (\<lambda>out. map_option (Pair 0) (put_all (replicate (nat (n - 2)) c) out))"
    using Suc.hyps(1)[of "n - 1"] Suc.hyps(2) Suc.prems n by (intro ext) simp
  then show ?case
    using n Suc.prems by (subst pad_below.simps) (simp add: put_simps)
qed

lemma copy_down_put: "i \<le> length tmp \<Longrightarrow> copy_down tmp i out = put_all (rev (take i tmp)) out"
proof (induction i arbitrary: out)
  case (Suc i)
  then have "copy_down tmp i = put_all (rev (take i tmp))" by (intro ext) simp
  with Suc.prems show ?case by (simp add: put_simps take_Suc_conv_app_nth)
qed simp

lemma copy_up_put: "len \<le> length tmp \<Longrightarrow> copy_up tmp len out = put_all (take len tmp) out"
proof (induction len)
  case (Suc n)
  have "copy_up tmp (Suc n) out = Option.bind (copy_up tmp n out) (emit (tmp ! n))"
    using Suc.prems by (simp add: copy_up_def for_loop_Suc del: for_loop.simps)
  with Suc show ?case by (simp add: put_simps take_Suc_conv_app_nth)
qed (simp add: copy_up_def)

section \<open>The specification\<close>

text \<open>
  A field of at least \<open>w\<close> characters, filled with blanks on the right or on the left.
\<close>

definition justify :: "ee_s32 \<Rightarrow> int \<Rightarrow> string \<Rightarrow> string" where
  "justify flags w t =
     (let fill = replicate (nat (w - int (length t))) (CHR '' '')
      in if bit flags 4 then t @ fill else fill @ t)"

text \<open>
  A number: sign, prefix, and the digits of the magnitude, with zeros in front up to the precision; with the zero flag
  and without left alignment the field is filled with zeros behind the prefix.
\<close>

definition sign_text :: "ee_s32 \<Rightarrow> bool \<Rightarrow> string" where
  "sign_text flags neg =
     (if \<not> bit flags 1 then [] else if neg then ''-''
      else if bit flags 2 then ''+'' else if bit flags 3 then '' '' else [])"

definition prefix_text :: "ee_s32 \<Rightarrow> int \<Rightarrow> string" where
  "prefix_text flags base = (if \<not> bit flags 5 then [] else if base = 16 then ''0x'' else if base = 8 then ''0'' else [])"

definition digit_char :: "ee_s32 \<Rightarrow> nat \<Rightarrow> char" where
  "digit_char flags d = (if bit flags 6 then upper_digits else ee_digits) ! d"

definition magnitude :: "ee_s32 \<Rightarrow> ee_s32 \<Rightarrow> nat" where
  "magnitude flags num = (if bit flags 1 then nat \<bar>sint num\<bar> else unat num)"

definition digits_text :: "ee_s32 \<Rightarrow> int \<Rightarrow> int \<Rightarrow> ee_s32 \<Rightarrow> string" where
  "digits_text flags base precision num =
     (let ds = num_text (digit_char flags) (nat base) (magnitude flags num)
      in replicate (nat (precision - int (length ds))) (CHR ''0'') @ ds)"

definition num_field :: "ee_s32 \<Rightarrow> int \<Rightarrow> int \<Rightarrow> int \<Rightarrow> ee_s32 \<Rightarrow> string" where
  "num_field flags base w precision num =
     (let head = sign_text flags (sint num < 0) @ prefix_text flags base;
          ds = digits_text flags base precision num
      in if bit flags 0 \<and> \<not> bit flags 4
         then head @ replicate (nat (w - int (length (head @ ds)))) (CHR ''0'') @ ds
         else justify flags w (head @ ds))"

text \<open>The code tests its flags with masks.\<close>

lemma flag_bits [simp]:
  "type AND ZEROPAD = 0 \<longleftrightarrow> \<not> bit type 0" "type AND SIGN = 0 \<longleftrightarrow> \<not> bit type 1" "type AND PLUS = 0 \<longleftrightarrow> \<not> bit type 2"
  "type AND SPACE = 0 \<longleftrightarrow> \<not> bit type 3" "type AND LEFT = 0 \<longleftrightarrow> \<not> bit type 4" "type AND HEX_PREP = 0 \<longleftrightarrow> \<not> bit type 5"
  "type AND UPPERCASE = 0 \<longleftrightarrow> \<not> bit type 6"
  using and_exp_eq_0_iff_not_bit[of type 0] and_exp_eq_0_iff_not_bit[of type 1] and_exp_eq_0_iff_not_bit[of type 2]
    and_exp_eq_0_iff_not_bit[of type 3] and_exp_eq_0_iff_not_bit[of type 4] and_exp_eq_0_iff_not_bit[of type 5]
    and_exp_eq_0_iff_not_bit[of type 6]
  by (simp_all add: ZEROPAD_def SIGN_def PLUS_def SPACE_def LEFT_def HEX_PREP_def UPPERCASE_def)

lemma pad_flags [simp]: "type AND (ZEROPAD OR LEFT) = 0 \<longleftrightarrow> \<not> bit type 0 \<and> \<not> bit type 4"
proof -
  have "type AND (ZEROPAD OR LEFT) = (type AND ZEROPAD) OR (type AND LEFT)" by (rule bit.conj_disj_distrib)
  then show ?thesis by (metis flag_bits(1,5) or_eq_0_iff)
qed

lemma drop_zeropad [simp]: "bit (type AND NOT ZEROPAD) k \<longleftrightarrow> k \<noteq> 0 \<and> bit type k" if "k < 32" for type :: ee_s32
  using that by (auto simp: ZEROPAD_def bit_simps)

lemma digit_tables: "length ee_digits = 36" "length upper_digits = 36" "ee_digits ! 33 = CHR ''x''"
  by (simp_all add: ee_digits_def upper_digits_def)

text \<open>The magnitude of a negative number, when its negation does not overflow.\<close>

section \<open>Numbers\<close>

lemma number_sign_eq:
  assumes "in_s32 sz" "in_s32 (sz - 1)" "\<not> (bit type 1 \<and> sint num = - (2 ^ 31))"
  defines "st \<equiv> sign_text type (sint num < 0)"
  shows "\<exists>n. number_sign type num sz = Some (if st = [] then CHR 0x00 else hd st, n, sz - int (length st)) \<and>
    unat n = magnitude type num"
  using assms(1-3) unat_neg[of num] unat_nonneg[of num]
  by (auto simp: number_sign_def st_def sign_text_def magnitude_def neg_s32_def word_sless_alt)

lemma digits_written:
  fixes n :: ee_u32
  assumes "2 \<le> base" "base \<le> 36" "length dig = 36" "dig ! 0 = CHR ''0''"
  defines "T \<equiv> num_text ((!) dig) (nat base) (unat n)"
  shows "\<exists>tmp. (if n = 0 then emit (CHR ''0'') (replicate 66 (CHR 0x00), 0)
      else digit_loop (table_digit dig) (word_of_int base) n (replicate 66 (CHR 0x00)) 0) = Some (tmp, length T) \<and>
    rev (take (length T) tmp) = T \<and> length T \<le> length tmp \<and> length T \<le> 32"
proof -
  have b: "unat (word_of_int base :: ee_u32) = nat base" using assms(1,2) by (intro unat_of_int_s32) simp_all
  let ?ds = "digs (nat base) (unat n)" and ?z = "replicate 66 (CHR 0x00)"
  have len: "length ?ds \<le> 32" using digs_length_u32[of "nat base" n] assms(1) by simp
  have "digit_loop (table_digit dig) (word_of_int base) n ?z 0 = Some (put_at ?z 0 (map ((!) dig) ?ds), length ?ds)"
    using assms(1-3) len b by (subst digit_loop_writes[where c = "(!) dig"]) (auto simp: table_digit_in)
  moreover have "take (length ?ds) (put_at ?z 0 (map ((!) dig) ?ds)) = map ((!) dig) ?ds"
    using take_put_at[of 0 "map ((!) dig) ?ds" ?z] len by simp
  moreover have "take (Suc 0) (?z[0 := CHR ''0'']) = ''0''" by (simp add: take_Suc_conv_app_nth)
  ultimately show ?thesis
    using len assms(4) by (auto simp: T_def num_text_def emit_def unat_eq_0 rev_map)
qed

text \<open>
  With a buffer of less than half a gigabyte, every count in \<open>number\<close> stays far inside the range of \<open>int\<close>.
\<close>

lemma number_prefix_put: "number_prefix type base out = put_all (prefix_text type base) out"
  by (simp add: number_prefix_def prefix_text_def put_simps digit_tables)

lemma length_sign_prefix: "length (sign_text type neg) \<le> 1" "length (prefix_text type base) \<le> 2"
  by (simp_all add: sign_text_def prefix_text_def)

lemma number_size_eq: "- 10 \<le> sz \<Longrightarrow> in_s32 sz \<Longrightarrow> number_size type base sz = Some (sz - int (length (prefix_text type base)))"
  by (auto simp: number_size_def prefix_text_def in_s32_def)

text \<open>
  The layout of a number once its parts are known: \<open>S\<close> characters of padding, at one of three places.
\<close>

lemma number_layout:
  assumes "- (2 ^ 31) + 3 \<le> S" "in_s32 S" "in_s32 p" "0 \<le> i" "i \<le> p"
  shows "do { (sz, out) \<leftarrow> (if \<not> z \<and> \<not> l then pad_to (CHR '' '') 0 S out else Some (S, out));
      out \<leftarrow> put_all st out;
      out \<leftarrow> put_all pre out;
      (sz, out) \<leftarrow> (if \<not> l then pad_to (if z then CHR ''0'' else CHR '' '') 0 sz out else Some (sz, out));
      (precision, out) \<leftarrow> pad_to (CHR ''0'') i p out;
      out \<leftarrow> put_all T out;
      (sz, out) \<leftarrow> pad_to (CHR '' '') 0 sz out;
      Some (fst out, Some (snd out)) } =
    map_option (\<lambda>out. (fst out, Some (snd out)))
      (put_all (let ds = replicate (nat (p - i)) (CHR ''0'') @ T; fill = replicate (nat S)
        in if l then st @ pre @ ds @ fill (CHR '' '')
           else if z then st @ pre @ fill (CHR ''0'') @ ds else fill (CHR '' '') @ st @ pre @ ds) out)"
proof -
  have r: "in_s32 (min S 0 - 1)" "in_s32 (min S 0 - 2)" "in_s32 (min S 0 - 3)" "in_s32 (i - 1)" "min p i = i"
    using assms by (auto simp: in_s32_def)
  have P: "pad_to c 0 S = (\<lambda>out. map_option (Pair (min S 0 - 1)) (put_all (replicate (nat S) c) out))"
    "pad_to c 0 (min S 0 - 1) = (\<lambda>out. Some (min S 0 - 2, out))" "pad_to c 0 (min S 0 - 2) = (\<lambda>out. Some (min S 0 - 3, out))"
    "pad_to c i p = (\<lambda>out. map_option (Pair (i - 1)) (put_all (replicate (nat (p - i)) c) out))" for c
    using r assms(2,3) by (auto simp: fun_eq_iff pad_to_put)
  show ?thesis by (cases l; cases z) (simp_all add: P put_simps Let_def)
qed

lemma number_writes:
  assumes "2 \<le> base" "base \<le> 36" "- 1 \<le> w" "in_s32 w" "precision \<le> 2 ^ 30"
    and "\<not> (bit type 1 \<and> sint num = - (2 ^ 31))"
  shows "number out num base w precision type =
    map_option (\<lambda>out. (fst out, Some (snd out))) (put_all (num_field type base w precision num) out)"
proof -
  let ?ty = "if bit type 4 then type AND NOT ZEROPAD else type"
  let ?dig = "if bit type 6 then upper_digits else ee_digits"
  define st where "st = sign_text type (sint num < 0)"
  define pre where "pre = prefix_text type base"
  define T where "T = num_text (digit_char type) (nat base) (magnitude type num)"
  define p where "p = (if precision < int (length T) then int (length T) else precision)"
  define S where "S = w - int (length st) - int (length pre) - p"
  have flags: "bit ?ty k \<longleftrightarrow> bit type k \<and> (k = 0 \<longrightarrow> \<not> bit type 4)" if "k < 32" for k using that by auto
  have ty: "sign_text ?ty (sint num < 0) = st" "prefix_text ?ty base = pre" "magnitude ?ty num = magnitude type num"
    using flags by (simp_all add: sign_text_def prefix_text_def magnitude_def st_def pre_def)
  have l: "length st \<le> 1" "length pre \<le> 2" unfolding st_def pre_def by (rule length_sign_prefix)+
  obtain n where n: "number_sign ?ty num w = Some (if st = [] then CHR 0x00 else hd st, n, w - int (length st))"
    "unat n = magnitude type num"
    using number_sign_eq[of w ?ty num] assms(3,4,6) flags[of 1] ty by (auto simp: in_s32_def)
  have sz: "number_size ?ty base (w - int (length st)) = Some (w - int (length st) - int (length pre))"
    using number_size_eq[of "w - int (length st)" ?ty base] l assms(3,4) ty(2) by (simp add: in_s32_def)
  have dig: "length ?dig = 36" "?dig ! 0 = CHR ''0''" "(!) ?dig = digit_char type"
    by (simp_all add: digit_tables digit_char_def fun_eq_iff ee_digits_def upper_digits_def)
  obtain tmp where tmp: "(if n = 0 then emit (CHR ''0'') (replicate 66 (CHR 0x00), 0)
      else digit_loop (table_digit ?dig) (word_of_int base) n (replicate 66 (CHR 0x00)) 0) = Some (tmp, length T)"
    "rev (take (length T) tmp) = T" "length T \<le> length tmp" "length T \<le> 32"
    using digits_written[OF assms(1,2) dig(1,2), of n, unfolded dig(3) n(2)] unfolding T_def by blast
  have S: "- (2 ^ 31) + 3 \<le> S" "in_s32 S" "in_s32 p" "0 \<le> int (length T)" "int (length T) \<le> p"
    using assms(3-5) l tmp(4) by (auto simp: S_def p_def in_s32_def)
  define sg where "sg = (if st = [] then CHR 0x00 else hd st)"
  have sgn: "(if sg \<noteq> CHR 0x00 then emit sg out else Some out) = put_all st out" for out
    by (simp add: sg_def st_def sign_text_def put_simps)
  have base: "(base < 2 \<or> 36 < base) = False" using assms(1,2) by simp
  have "number out num base w precision type =
      do { (sz, out) \<leftarrow> (if \<not> bit ?ty 0 \<and> \<not> bit ?ty 4 then pad_to (CHR '' '') 0 S out else Some (S, out));
        out \<leftarrow> put_all st out;
        out \<leftarrow> put_all pre out;
        (sz, out) \<leftarrow> (if \<not> bit ?ty 4 then pad_to (if bit ?ty 0 then CHR ''0'' else CHR '' '') 0 sz out else Some (sz, out));
        (precision, out) \<leftarrow> pad_to (CHR ''0'') (int (length T)) p out;
        out \<leftarrow> put_all T out;
        (sz, out) \<leftarrow> pad_to (CHR '' '') 0 sz out;
        Some (fst out, Some (snd out)) }"
    unfolding number_def Let_def flag_bits not_not
    using S(2) by (simp only: base n(1) sz tmp(1) pad_flags flag_bits not_not sg_def[symmetric] sgn number_prefix_put ty
      Option.bind.bind_lunit prod.case p_def[symmetric] S_def[symmetric] s32_in copy_down_put[OF tmp(3)] tmp(2) not_less
      if_False if_True simp_thms not_le)
  moreover have D: "digits_text type base precision num = replicate (nat (p - int (length T))) (CHR ''0'') @ T"
    by (simp add: digits_text_def Let_def T_def p_def)
  moreover have "S = w - int (length ((st @ pre) @ replicate (nat (p - int (length T))) (CHR ''0'') @ T))"
    using S(5) by (simp add: S_def)
  ultimately show ?thesis
    using flags[of 0] flags[of 4] unfolding number_layout[OF S] num_field_def justify_def st_def[symmetric] pre_def[symmetric]
    by (simp add: Let_def)
qed

section \<open>Strings and addresses\<close>

lemma pad_around:
  assumes "in_s32 w" "- 1 \<le> w"
  shows "do { (w, out) \<leftarrow> (if \<not> bit flags 4 then pad_to (CHR '' '') (int (length T)) w out else Some (w, out));
       out \<leftarrow> put_all T out;
       (w, out) \<leftarrow> pad_to (CHR '' '') (int (length T)) w out;
       f out } = Option.bind (put_all (justify flags w T) out) f"
proof -
  let ?n = "int (length T)"
  have P: "pad_to c ?n w = (\<lambda>out. map_option (Pair (min w ?n - 1)) (put_all (replicate (nat (w - ?n)) c) out))"
    "pad_to c ?n (min w ?n - 1) = (\<lambda>out. Some (min w ?n - 2, out))" for c
    using assms by (auto simp: fun_eq_iff pad_to_put in_s32_def min_def)
  show ?thesis by (simp add: P justify_def Let_def put_simps)
qed

lemma addr_field_put:
  assumes "in_s32 w" "- 1 \<le> w" "len \<le> length tmp"
  shows "addr_field tmp len w type out = put_all (justify type w (take len tmp)) out"
  using pad_around[OF assms(1,2), of type "take len tmp" out Some] assms(3)
  by (cases "bit type 4") (simp_all add: addr_field_def copy_up_put)

fun join :: "string \<Rightarrow> string list \<Rightarrow> string" where
  "join sep [] = []"
| "join sep [x] = x"
| "join sep (x # y # xs) = x @ sep @ join sep (y # xs)"

lemma join_snoc: "join sep (xs @ [x]) = join sep xs @ (if xs = [] then [] else sep) @ x"
  by (induction sep xs rule: join.induct) auto

lemma join_loop:
  assumes "\<And>a t. a \<in> set addr \<Longrightarrow> g a t = put_all (f a) t" "k \<le> length addr"
  shows "for_loop 0 k (\<lambda>i t. do { t \<leftarrow> (if i \<noteq> 0 then emit sep t else Some t); a \<leftarrow> rd addr i; g a t }) t
    = put_all (join [sep] (map f (take k addr))) t"
  (is "for_loop 0 k ?F t = _")
  using assms(2)
proof (induction k)
  case (Suc k)
  have "g (addr ! k) = put_all (f (addr ! k))" using Suc.prems by (intro ext assms(1)) simp
  then have F: "?F k = put_all ((if k = 0 then [] else [sep]) @ f (addr ! k))"
    using Suc.prems by (cases "k = 0") (auto simp: put_simps Suc_le_eq intro!: ext)
  have "for_loop 0 (Suc k) ?F t = Option.bind (for_loop 0 k ?F t) (?F k)" using for_loop_Suc[of 0 k ?F t] by simp
  also have "\<dots> = put_all (join [sep] (map f (take k addr)) @ (if k = 0 then [] else [sep]) @ f (addr ! k)) t"
    by (simp only: F Suc.IH[OF Suc_leD[OF Suc.prems]] put_all_last)
  also have "\<dots> = put_all (join [sep] (map f (take (Suc k) addr))) t"
    using Suc.prems by (auto simp: take_Suc_conv_app_nth join_snoc)
  finally show ?case .
qed simp

definition hex_pair :: "ee_s32 \<Rightarrow> ee_u8 \<Rightarrow> string" where
  "hex_pair flags b = [digit_char flags (unat b div 16), digit_char flags (unat b mod 16)]"

definition eaddr_text :: "ee_s32 \<Rightarrow> ee_u8 list \<Rightarrow> string" where
  "eaddr_text flags a = join '':'' (map (hex_pair flags) (take 6 a))"

definition iaddr_text :: "ee_u8 list \<Rightarrow> string" where
  "iaddr_text a = join ''.'' (map (\<lambda>b. num_text dec_char 10 (unat b)) (take 4 a))"

lemma ee_digits_dec: "d < 10 \<Longrightarrow> rd ee_digits d = Some (dec_char d)"
proof -
  have "\<forall>d\<in>set [0..<10]. rd ee_digits d = Some (dec_char d)" by code_simp
  then show "d < 10 \<Longrightarrow> rd ee_digits d = Some (dec_char d)" by simp
qed

lemma iaddr_octet_put:
  assumes "n < 256"
  shows "iaddr_octet n t = put_all (num_text dec_char 10 n) t"
proof -
  have d: "n div 100 < 10" "n mod 100 div 10 < 10" "n mod 100 mod 10 < 10" using assms by auto
  consider "n = 0" | "0 < n" "n < 10" | "10 \<le> n" "n < 100" | "100 \<le> n" by linarith
  then show ?thesis
  proof cases
    case 2
    then show ?thesis by (simp add: iaddr_octet_def num_text_def digs_step ee_digits_dec put_simps)
  next
    case 3
    then have "digs 10 n = [n mod 10, n div 10]" by (simp add: digs_step)
    with 3 show ?thesis by (simp add: iaddr_octet_def num_text_def ee_digits_dec put_simps)
  next
    case 4
    have "n div 10 mod 10 = n mod 100 div 10" "n mod 100 mod 10 = n mod 10"
      by (simp_all add: mod_mult2_eq[of n 10 10, simplified] mod_mod_cancel)
    moreover have "digs 10 n = [n mod 10, n div 10 mod 10, n div 10 div 10]" using 4 d(1) by (simp add: digs_step div_mult2_eq)
    ultimately show ?thesis
      using 4 d by (simp add: iaddr_octet_def num_text_def ee_digits_dec put_simps Let_def div_mult2_eq[of n 10 10, simplified])
  qed (simp add: iaddr_octet_def num_text_def ee_digits_dec put_simps)
qed

lemma hex_pair_put:
  fixes a :: ee_u8 and flags :: ee_s32
  defines "dig \<equiv> (if bit flags 6 then upper_digits else ee_digits)"
  shows "do { h \<leftarrow> rd dig (unat (drop_bit 4 a)); t \<leftarrow> emit h t; l \<leftarrow> rd dig (unat (a AND 0x0F)); emit l t }
    = put_all (hex_pair flags a) t"
proof -
  have "a AND 0x0F = take_bit 4 a" by (simp add: take_bit_eq_mask mask_eq_exp_minus_1)
  then have h: "unat (drop_bit 4 a) = unat a div 16" "unat (a AND 0x0F) = unat a mod 16"
    by (simp_all add: drop_bit_eq_div take_bit_eq_mod unat_div unat_mod)
  have "unat a < 256" using unsigned_less[of a, where ?'a = nat] by simp
  then have "unat a div 16 < 16" "unat a mod 16 < 16" by auto
  moreover have "length dig = 36" by (simp add: dig_def digit_tables)
  ultimately show ?thesis
    by (simp add: h put_simps hex_pair_def digit_char_def flip: dig_def)
qed

lemma put_all_fresh:
  "length t \<le> k \<Longrightarrow> \<exists>tmp. put_all t (replicate k c, 0) = Some (tmp, length t) \<and> take (length t) tmp = t \<and> length tmp = k"
  by (auto simp: put_all_def put_at_def)

lemma length_join: "\<forall>x\<in>set xs. length x \<le> m \<Longrightarrow> length (join [c] xs) \<le> length xs * Suc m"
  by (induction "[c]" xs rule: join.induct) auto

lemma eaddr_put:
  assumes "6 \<le> length a" "in_s32 w" "- 1 \<le> w"
  shows "eaddr out a w precision type = put_all (justify type w (eaddr_text type a)) out"
proof -
  have "for_loop 0 6 (\<lambda>i t. do { t \<leftarrow> (if i \<noteq> 0 then emit (CHR '':'') t else Some t); a \<leftarrow> rd a i;
      h \<leftarrow> rd (if bit type 6 then upper_digits else ee_digits) (unat (drop_bit 4 a)); t \<leftarrow> emit h t;
      l \<leftarrow> rd (if bit type 6 then upper_digits else ee_digits) (unat (a AND 0x0F)); emit l t }) t
    = put_all (eaddr_text type a) t" for t
    unfolding eaddr_text_def by (rule join_loop[OF hex_pair_put assms(1)])
  moreover have "length (eaddr_text type a) \<le> 24"
    using length_join[of "map (hex_pair type) (take 6 a)" 2 "CHR '':''"] assms(1) by (simp add: eaddr_text_def hex_pair_def)
  then obtain tmp where "put_all (eaddr_text type a) (replicate 24 (CHR 0x00), 0) = Some (tmp, length (eaddr_text type a))"
    "take (length (eaddr_text type a)) tmp = eaddr_text type a" "length (eaddr_text type a) \<le> length tmp"
    using put_all_fresh by metis
  ultimately show ?thesis
    using addr_field_put[OF assms(2,3)] by (simp add: eaddr_def Let_def)
qed

lemma iaddr_put:
  assumes "4 \<le> length a" "in_s32 w" "- 1 \<le> w"
  shows "iaddr out a w precision type = put_all (justify type w (iaddr_text a)) out"
proof -
  have u: "unat b < 256" for b :: ee_u8 using unsigned_less[of b, where ?'a = nat] by simp
  have "for_loop 0 4 (\<lambda>i t. do { t \<leftarrow> (if i \<noteq> 0 then emit (CHR ''.'') t else Some t); n \<leftarrow> rd a i;
      iaddr_octet (unat n) t }) t = put_all (iaddr_text a) t" for t
    unfolding iaddr_text_def by (rule join_loop[OF iaddr_octet_put[OF u] assms(1)])
  moreover have "length (num_text dec_char 10 (unat b)) \<le> 3" for b :: ee_u8
    using digs_length[of 10 "unat b" 3] u[of b] by (simp add: num_text_def)
  then have "length (iaddr_text a) \<le> 24"
    using length_join[of "map (\<lambda>b. num_text dec_char 10 (unat b)) (take 4 a)" 3 "CHR ''.''"] assms(1)
    by (simp add: iaddr_text_def)
  then obtain tmp where "put_all (iaddr_text a) (replicate 24 (CHR 0x00), 0) = Some (tmp, length (iaddr_text a))"
    "take (length (iaddr_text a)) tmp = iaddr_text a" "length (iaddr_text a) \<le> length tmp"
    using put_all_fresh by metis
  ultimately show ?thesis
    using addr_field_put[OF assms(2,3)] by (simp add: iaddr_def)
qed

text \<open>
  The part of a string that is printed: up to its NUL, at most \<open>precision\<close> characters when one is given. It
  has to be readable up to the NUL or to the character behind the precision; an object has less than \<open>2 ^ 31\<close> bytes.
\<close>

definition str_text :: "int \<Rightarrow> string \<Rightarrow> string option" where
  "str_text precision m =
     (let t = takeWhile (\<lambda>c. c \<noteq> CHR 0x00) m
      in if length m < 2 ^ 31 \<and> (length t < length m \<or> 0 \<le> precision \<and> nat precision < length m)
         then Some (if precision < 0 then t else take (nat precision) t) else None)"

lemma strnlen_eq:
  "strnlen m count = (let t = takeWhile (\<lambda>c. c \<noteq> CHR 0x00) m
     in if length t < length m \<or> unat count < length m then Some (min (unat count) (length t)) else None)"
proof (induction m arbitrary: count)
  case (Cons c m)
  show ?case
  proof (cases "count = 0")
    case False
    then have "unat count = Suc (unat (count - 1))" by (simp add: unat_minus_one unat_gt_0)
    then show ?thesis using Cons[of "count - 1"] False by (auto simp: Let_def)
  qed simp
qed (simp add: Let_def)

section \<open>The text of a format\<close>

text \<open>The text of one conversion, what is left of the format, and the arguments that are left.\<close>

definition int_text :: "ee_s32 \<Rightarrow> int \<Rightarrow> int \<Rightarrow> int \<Rightarrow> ee_s32 \<Rightarrow> string option" where
  "int_text flags base w precision num =
     (if bit flags 1 \<and> sint num = - (2 ^ 31) then None else Some (num_field flags base w precision num))"

definition addr_text :: "bool \<Rightarrow> ee_s32 \<Rightarrow> ee_u8 list \<Rightarrow> string option" where
  "addr_text ethernet flags a =
     (if ethernet then if 6 \<le> length a then Some (eaddr_text flags a) else None
      else if 4 \<le> length a then Some (iaddr_text a) else None)"

definition conv_text ::
  "int \<Rightarrow> ee_s32 \<Rightarrow> int \<Rightarrow> int \<Rightarrow> string \<Rightarrow> va_val list \<Rightarrow> (string \<times> va_val list \<times> string) option" where
  "conv_text q flags w precision fmt args =
     (case fmt of [] \<Rightarrow> None
      | c # fmt \<Rightarrow>
          if c = CHR ''c'' then
            do { (x, args) \<leftarrow> va_word args; Some (fmt, args, justify flags w [char_of (unat x)]) }
          else if c = CHR ''s'' then
            do { (s, args) \<leftarrow> va_str args;
                 t \<leftarrow> str_text precision (case s of None \<Rightarrow> c_str ''<NULL>'' | Some s \<Rightarrow> s);
                 Some (fmt, args, justify flags w t) }
          else if c = CHR ''p'' then
            do { (x, args) \<leftarrow> va_word args;
                 t \<leftarrow> (if w = -1 then int_text (flags OR ZEROPAD) 16 8 precision x
                      else int_text flags 16 w precision x);
                 Some (fmt, args, t) }
          else if c = CHR ''A'' \<or> c = CHR ''a'' then
            do { (a, args) \<leftarrow> va_addr args;
                 t \<leftarrow> addr_text (q = 108) (if c = CHR ''A'' then flags OR UPPERCASE else flags) a;
                 Some (fmt, args, justify (if c = CHR ''A'' then flags OR UPPERCASE else flags) w t) }
          else case int_conv c flags of
            Some (base, flags) \<Rightarrow>
              do { (x, args) \<leftarrow> va_word args; t \<leftarrow> int_text flags base w precision x; Some (fmt, args, t) }
          | None \<Rightarrow> Some (if c = CHR 0x00 then (c # fmt, args, ''%'')
                          else (fmt, args, if c = CHR ''%'' then ''%'' else [CHR ''%'', c])))"

lemma conv_text_length: "conv_text q f w p fmt args = Some (fmt', args', t) \<Longrightarrow> length fmt' \<le> length fmt"
  by (cases fmt) (auto simp: conv_text_def opt_simps split: if_split_asm option.split_asm prod.split_asm)

function format_text :: "string \<Rightarrow> va_val list \<Rightarrow> string option" where
  "format_text fmt args =
     (case fmt of [] \<Rightarrow> None
      | c # fmt \<Rightarrow>
          if c = CHR 0x00 then Some []
          else if c \<noteq> CHR ''%'' then map_option (Cons c) (format_text fmt args)
          else do { (q, flags, w, precision, fmt, args) \<leftarrow> parse_spec fmt args;
                    (fmt, args, t) \<leftarrow> conv_text q flags w precision fmt args;
                    rest \<leftarrow> format_text fmt args;
                    Some (t @ rest) })"
  by pat_completeness auto
termination
  by (relation "measure (\<lambda>(fmt, args). length fmt)") (auto dest!: parse_spec_length conv_text_length)

declare format_text.simps [simp del] vsprintf_loop.simps [simp del]

text \<open>Widths and precisions are \<open>int\<close> values, and at least -1.\<close>

lemma skip_atoi_bounds: "skip_atoi i fmt = Some (j, fmt') \<Longrightarrow> 0 \<le> i \<Longrightarrow> in_s32 i \<Longrightarrow> 0 \<le> j \<and> in_s32 j"
proof (induction i fmt rule: skip_atoi.induct)
  case (2 i c s)
  show ?case
  proof (cases "is_digit c")
    case True
    then have c: "48 \<le> char_code c" by (simp add: is_digit_def)
    from 2(2) True have run: "skip_atoi (i * 10 + int (char_code c) - 48) s = Some (j, fmt')"
      and b: "in_s32 (i * 10)" "in_s32 (i * 10 + int (char_code c))" "in_s32 (i * 10 + int (char_code c) - 48)"
      by (auto simp: opt_simps)
    have "0 \<le> i * 10 + int (char_code c) - 48" using 2(3) c by simp
    with 2(1)[OF True] run b show ?thesis by (simp add: s32_in)
  next
    case False
    with 2 show ?thesis by simp
  qed
qed simp

lemma parse_spec_bounds:
  assumes "parse_spec fmt args = Some (q, f, w, p, fmt', args')"
  shows "-1 \<le> w" "in_s32 w" "-1 \<le> p" "in_s32 p"
proof -
  have m1: "in_s32 (-1)" "in_s32 0" by (simp_all add: in_s32_def)
  have gw: "-1 \<le> w \<and> in_s32 w" if "get_field_width fl s a = Some (w, fl', s', a')" for fl s a w fl' s' a'
    using that m1 by (cases "(fl, s, a)" rule: get_field_width.cases)
      (auto simp: opt_simps simp del: skip_atoi.simps split: if_split_asm dest!: skip_atoi_bounds)
  have gp: "-1 \<le> w \<and> in_s32 w" if "get_precision s a = Some (w, s', a')" for s a w s' a'
  proof -
    have "in_s32 v" if "precision_value t b = Some (v, t', b')" for t b v t' b'
      using that m1 by (cases "(t, b)" rule: precision_value.cases)
        (auto simp: opt_simps simp del: skip_atoi.simps split: if_split_asm dest!: skip_atoi_bounds)
    with that m1 show ?thesis
      by (cases "(s, a)" rule: get_precision.cases) (auto simp: opt_simps split: if_split_asm)
  qed
  from assms gw gp show "-1 \<le> w" "in_s32 w" "-1 \<le> p" "in_s32 p"
    unfolding parse_spec_def by (fastforce simp: opt_simps)+
qed

text \<open>Each conversion writes its text; texts longer than \<open>2 ^ 30\<close> characters are left aside.\<close>

lemma length_num_field: "nat precision \<le> length (num_field flags base w precision num)"
proof -
  have "nat precision \<le> length (digits_text flags base precision num)" by (simp add: digits_text_def Let_def)
  moreover have "length (digits_text flags base precision num) \<le> length (num_field flags base w precision num)"
    by (simp add: num_field_def justify_def Let_def)
  ultimately show ?thesis by simp
qed

lemma number_at_put:
  assumes "int_text flags base w precision num = Some t" "2 \<le> base" "base \<le> 36" "- 1 \<le> w" "in_s32 w" "length t \<le> 2 ^ 30"
  shows "number_at out num base w precision flags = put_all t out"
proof -
  from assms(1) have t: "t = num_field flags base w precision num" "\<not> (bit flags 1 \<and> sint num = - (2 ^ 31))"
    by (simp_all add: int_text_def split: if_split_asm)
  then have "precision \<le> 2 ^ 30" using length_num_field[of precision flags base w num] assms(6) by simp
  with number_writes[OF assms(2-5) _ t(2), of precision out] t(1) show ?thesis
    by (cases "put_all t out") (simp_all add: number_at_def)
qed

lemma conv_char_put:
  assumes "va_word args = Some (x, args')" "- 1 \<le> w" "in_s32 w"
  shows "conv_char flags w args out = map_option (Pair args') (put_all (justify flags w [char_of (unat x)]) out)"
proof -
  have P: "pad_below c w = (\<lambda>out. map_option (Pair (min w 1 - 1)) (put_all (replicate (nat (w - 1)) c) out))"
    "pad_below c (min w 1 - 1) = (\<lambda>out. Some (min w 1 - 2, out))" for c
    using assms(2,3) by (auto simp: fun_eq_iff pad_below_put in_s32_def min_def)
  show ?thesis using assms(1) by (simp add: conv_char_def P justify_def put_simps)
qed

lemma conv_str_put:
  assumes "va_str args = Some (s, args')" "str_text precision (case s of None \<Rightarrow> c_str ''<NULL>'' | Some s \<Rightarrow> s) = Some t"
    and "- 1 \<le> w" "in_s32 w" "- 1 \<le> precision" "in_s32 precision"
  shows "conv_str flags w precision args out = map_option (Pair args') (put_all (justify flags w t) out)"
proof -
  define m where "m = (case s of None \<Rightarrow> c_str ''<NULL>'' | Some s \<Rightarrow> s)"
  define tw where "tw = takeWhile (\<lambda>c. c \<noteq> CHR 0x00) m"
  have m: "length m < 2 ^ 31" "length tw < length m \<or> 0 \<le> precision \<and> nat precision < length m"
    "t = (if precision < 0 then tw else take (nat precision) tw)"
    using assms(2) unfolding m_def[symmetric] str_text_def tw_def[symmetric] by (simp_all add: Let_def split: if_split_asm)
  define k where "k = (if precision < 0 then length tw else min (nat precision) (length tw))"
  have "take (length tw) m = tw" unfolding tw_def by (rule takeWhile_eq_take[symmetric])
  moreover have "length tw \<le> length m" unfolding tw_def by (rule length_takeWhile_le)
  ultimately have tm: "take k m = t" "length t = k" "k \<le> length m"
    unfolding m(3) k_def by (auto simp: take_take[symmetric] simp del: take_take)
  have len: "sint (of_nat (length t) :: ee_s32) = int (length t)"
    using tm(2,3) m(1) sint_of_int_s32[of "int (length t)"] by (simp add: in_s32_def)
  have "strnlen m (word_of_int precision) = Some (length t)"
  proof (cases "precision < 0")
    case True
    then have "precision = -1" using assms(5) by simp
    then have "unat (word_of_int precision :: ee_u32) = 2 ^ 32 - 1" by (simp add: unsigned_minus_1_eq_mask mask_eq_exp_minus_1)
    with m tm True show ?thesis unfolding strnlen_eq tw_def[symmetric] by (simp add: Let_def k_def)
  next
    case False
    then have "unat (word_of_int precision :: ee_u32) = nat precision"
      using assms(6) by (intro unat_of_int_s32) (simp_all add: in_s32_def)
    with m tm False show ?thesis unfolding strnlen_eq tw_def[symmetric] by (auto simp: Let_def k_def)
  qed
  then show ?thesis
    using pad_around[OF assms(4,3), of flags t out "\<lambda>out. Some (args', out)"] assms(1) tm len
    by (cases "bit flags 4") (simp_all add: conv_str_def Let_def m_def[symmetric] copy_up_put put_simps)
qed

lemma int_conv_base: "int_conv c flags = Some (base, flags') \<Longrightarrow> 2 \<le> base \<and> base \<le> 36"
  by (auto simp: int_conv_def split: if_split_asm)

lemma conv_ptr_put:
  assumes "va_word args = Some (x, args')" "length t \<le> 2 ^ 30" "- 1 \<le> w" "in_s32 w"
    and "(if w = -1 then int_text (flags OR ZEROPAD) 16 8 precision x else int_text flags 16 w precision x) = Some t"
  shows "conv_ptr flags w precision args out = map_option (Pair args') (put_all t out)"
proof -
  have e: "in_s32 8" by (simp add: in_s32_def)
  show ?thesis
    using assms number_at_put[of "flags OR ZEROPAD" 16 8 precision x t out, OF _ _ _ _ e] number_at_put[of flags 16 w precision x t out]
    by (auto simp: conv_ptr_def put_simps split: if_split_asm)
qed

lemma conv_addr_put:
  assumes "va_addr args = Some (a, args')" "- 1 \<le> w" "in_s32 w"
    and "addr_text (q = 108) flags' a = Some t" "flags' = (if c = CHR ''A'' then flags OR UPPERCASE else flags)"
  shows "conv_addr c q flags w precision args out = map_option (Pair args') (put_all (justify flags' w t) out)"
proof -
  have l: "char_code (CHR ''l'') = 108" by (simp add: char_code_def)
  show ?thesis
    using assms eaddr_put[of a w out precision flags'] iaddr_put[of a w out precision flags']
    unfolding conv_addr_def assms(5)[symmetric] l
    by (auto simp: addr_text_def put_simps split: if_split_asm)
qed

lemma conv_other_put:
  "conv_other c fmt out = map_option (Pair (if c = CHR 0x00 then c # fmt else fmt))
     (put_all ((if c = CHR ''%'' then [] else ''%'') @ (if c = CHR 0x00 then [] else [c])) out)"
  by (simp add: conv_other_def put_simps)

lemma convert_put:
  assumes "conv_text q flags w precision fmt args = Some (fmt', args', t)" "length t \<le> 2 ^ 30"
    and "- 1 \<le> w" "in_s32 w" "- 1 \<le> precision" "in_s32 precision"
  shows "convert q flags w precision fmt args out = map_option (\<lambda>out. (fmt', args', out)) (put_all t out)"
proof (cases fmt)
  case Nil
  with assms(1) show ?thesis by (simp add: conv_text_def)
next
  case (Cons c r)
  note T = assms(1)[unfolded conv_text_def Cons list.case]
  consider "c = CHR ''c''" | "c = CHR ''s''" | "c = CHR ''p''" | "c = CHR ''A'' \<or> c = CHR ''a''"
    | b f where "int_conv c flags = Some (b, f)" "c \<notin> {CHR ''c'', CHR ''s'', CHR ''p'', CHR ''A'', CHR ''a''}"
    | "int_conv c flags = None" "c \<notin> {CHR ''c'', CHR ''s'', CHR ''p'', CHR ''A'', CHR ''a''}"
    by (cases "int_conv c flags") auto
  then show ?thesis
  proof cases
    case 1
    with T conv_char_put[OF _ assms(3,4), where out = out] show ?thesis unfolding convert_def Cons by (auto simp: opt_simps put_simps)
  next
    case 2
    with T conv_str_put[OF _ _ assms(3-6), where out = out] show ?thesis unfolding convert_def Cons
      by (auto simp: opt_simps put_simps)
  next
    case 3
    with T conv_ptr_put[OF _ assms(2-4), where out = out] show ?thesis unfolding convert_def Cons
      by (auto simp: opt_simps put_simps)
  next
    case 4
    with T conv_addr_put[OF _ assms(3,4), where out = out] show ?thesis unfolding convert_def Cons
      by (auto simp: opt_simps put_simps)
  next
    case 5
    with T number_at_put[OF _ _ _ assms(3,4,2), where out = out] int_conv_base[OF 5(1)] show ?thesis unfolding convert_def Cons
      by (auto simp: opt_simps put_simps)
  next
    case 6
    with T conv_other_put[of c r out] show ?thesis unfolding convert_def Cons by (auto simp: put_simps split: if_split_asm)
  qed
qed

lemma vsprintf_loop_put:
  "format_text fmt args = Some t \<Longrightarrow> length t \<le> 2 ^ 30 \<Longrightarrow> vsprintf_loop fmt args out = put_all t out"
proof (induction fmt args arbitrary: t out rule: format_text.induct)
  case (1 fmt args)
  show ?case
  proof (cases fmt)
    case Nil
    with 1(3) show ?thesis by (simp add: format_text.simps)
  next
    case (Cons c r)
    consider "c = CHR 0x00" | "c \<noteq> CHR 0x00" "c \<noteq> CHR ''%''" | "c = CHR ''%''" by blast
    then show ?thesis
    proof cases
      case 1
      with Cons "1.prems" show ?thesis
        by (simp add: format_text.simps[of "CHR 0x00 # r"] vsprintf_loop.simps[of "CHR 0x00 # r"])
    next
      case 2
      then obtain t' where t': "format_text r args = Some t'" "t = c # t'"
        using Cons "1.prems"(1) by (auto simp: format_text.simps[of "c # r"])
      have "vsprintf_loop r args = put_all t'" using "1.IH"(1)[OF Cons 2 t'(1)] "1.prems"(2) t'(2) by (intro ext) simp
      with 2 Cons t' show ?thesis by (simp add: vsprintf_loop.simps[of "c # r"] put_simps)
    next
      case 3
      then obtain q f w p fmt1 args1 fmt2 args2 t1 t2 where s: "parse_spec r args = Some (q, f, w, p, fmt1, args1)"
        "conv_text q f w p fmt1 args1 = Some (fmt2, args2, t1)" "format_text fmt2 args2 = Some t2" "t = t1 @ t2"
        using Cons "1.prems"(1) by (auto simp: format_text.simps[of "CHR ''%'' # r"] opt_simps)
      have "vsprintf_loop fmt2 args2 = put_all t2"
        using "1.IH"(2)[OF Cons _ _ s(1) refl refl refl refl refl s(2) refl refl s(3)] 3 "1.prems"(2) s(4) by (intro ext) simp
      with 3 Cons s convert_put[OF s(2) _ parse_spec_bounds[OF s(1)]] "1.prems"(2) show ?thesis
        by (simp add: vsprintf_loop.simps[of "CHR ''%'' # r"] put_simps)
    qed
  qed
qed

lemma ee_vsprintf_put:
  assumes "format_text fmt args = Some t" "length t \<le> 2 ^ 30"
  shows "ee_vsprintf buf fmt args = (if length t < length buf then Some (length t, put_at buf 0 (t @ [CHR 0x00])) else None)"
proof (cases "length t < length buf")
  case True
  have "put_at buf 0 (t @ [CHR 0x00]) = (put_at buf 0 t)[length t := CHR 0x00]"
    using True put_at_put_at[of 0 t "[CHR 0x00]" buf] put_at_Cons[of "length t" "put_at buf 0 t" "CHR 0x00" "[]"] by simp
  then show ?thesis
    using True vsprintf_loop_put[OF assms, of "(buf, 0)"] by (simp add: ee_vsprintf_def put_all_def)
next
  case False
  then show ?thesis
    using vsprintf_loop_put[OF assms, of "(buf, 0)"] by (auto simp: ee_vsprintf_def put_all_def wr_def)
qed

section \<open>Sending\<close>

interpretation coremark_uart: uart_port uart_send_char
proof
  show "\<exists>m\<ge>ureads u. st m AND 1 = 0 \<and> u' = u\<lparr>ureads := Suc m, usent := usent u @ [of_char c]\<rparr>"
    if "uart_send_char st c u = Some u'" for st c u u'
    using that unfolding uart_send_char_def by (rule wait_write_free)
  show "\<exists>u'. uart_send_char st c u = Some u'" if "ready st" for st c u
    unfolding uart_send_char_def using that by (rule wait_write_ready)
qed

lemma send_loop_eq:
  "CHR 0x00 \<in> set p \<Longrightarrow> send_loop putc st p n u =
     map_option (Pair (n + length (takeWhile (\<lambda>c. c \<noteq> CHR 0x00) p))) (send_all putc st (takeWhile (\<lambda>c. c \<noteq> CHR 0x00) p) u)"
proof (induction p arbitrary: n u)
  case (Cons c p)
  show ?case
  proof (cases "c = CHR 0x00")
    case False
    then have "send_loop putc st p (Suc n) = (\<lambda>u. map_option (Pair (Suc (n + length (takeWhile (\<lambda>c. c \<noteq> CHR 0x00) p))))
        (send_all putc st (takeWhile (\<lambda>c. c \<noteq> CHR 0x00) p) u))" using Cons by (intro ext) simp
    with False show ?thesis by (cases "putc st c u") auto
  qed simp
qed simp

lemma ee_printf_put:
  assumes "format_text fmt args = Some t" "length t < 1024" "ready st"
  defines "s \<equiv> takeWhile (\<lambda>c. c \<noteq> CHR 0x00) t"
  shows "\<exists>n\<ge>ureads u. ee_printf st fmt args u = Some (length s, u\<lparr>ureads := n, usent := usent u @ map of_char s\<rparr>)"
proof -
  let ?buf = "put_at (replicate 1024 (CHR 0x00)) 0 (t @ [CHR 0x00])"
  have "ee_vsprintf (replicate 1024 (CHR 0x00)) fmt args = Some (length t, ?buf)"
    using ee_vsprintf_put[OF assms(1), of "replicate 1024 (CHR 0x00)"] assms(2) by simp
  moreover have "CHR 0x00 \<in> set ?buf" "takeWhile (\<lambda>c. c \<noteq> CHR 0x00) ?buf = s"
    by (simp_all add: put_at_def s_def takeWhile_tail)
  ultimately show ?thesis
    using coremark_uart.send_all_sends[OF assms(3), where u = u and s = s] send_loop_eq[of ?buf uart_send_char st 0 u]
    by (auto simp: ee_printf_def)
qed

section \<open>Properties\<close>

text \<open>Text without percent signs is copied.\<close>

lemma format_text_plain:
  "CHR 0x00 \<notin> set s \<Longrightarrow> CHR ''%'' \<notin> set s \<Longrightarrow> format_text (c_str s) args = Some s"
  by (induction s) (subst format_text.simps, auto simp: c_str_def)+

lemma length_num_field_eq:
  "length (num_field flags base w precision num) = max (nat w)
     (length (sign_text flags (sint num < 0) @ prefix_text flags base @ digits_text flags base precision num))"
  unfolding num_field_def justify_def Let_def by (simp add: max_def) arith

text \<open>
  C16. \<open>ee_printf\<close> implements its specification: for every format and arguments that \<open>format_text\<close> gives a
  meaning, of less than 1024 characters, it returns as long as the transmitter keeps coming free; the
  characters written to the transmitter are those of the text (up to a NUL character in it), each after a
  status read that showed it free, and the result is their number.
\<close>

theorem ee_printf_text:
  assumes "format_text fmt args = Some t" "length t < 1024" "ready st"
  shows "\<exists>n\<ge>ureads u. ee_printf st fmt args u =
    Some (length (takeWhile (\<lambda>c. c \<noteq> CHR 0x00) t),
      u\<lparr>ureads := n, usent := usent u @ map of_char (takeWhile (\<lambda>c. c \<noteq> CHR 0x00) t)\<rparr>)"
  by (rule ee_printf_put[OF assms])

theorem ee_printf_text_witness:
  "\<exists>n. ee_printf (\<lambda>n. 0) (c_str ''[%d]crclist : 0x%04x'') [VWord 0, VWord 0xe7] idle_uart =
    Some (19, \<lparr>ureads = n, usent = map of_char ''[0]crclist : 0x00e7''\<rparr>)"
proof -
  have "format_text (c_str ''[%d]crclist : 0x%04x'') [VWord 0, VWord 0xe7] = Some ''[0]crclist : 0x00e7''" by code_simp
  from ee_printf_text[OF this _ ready_idle, of idle_uart] show ?thesis by (auto simp: idle_uart_def)
qed

text \<open>
  C38. The local buffer of \<open>ee_printf\<close> is not protected: a text of 1024 characters or more is written past its
  end.
\<close>

theorem ee_printf_overrun:
  assumes "format_text fmt args = Some t" "1024 \<le> length t" "length t \<le> 2 ^ 30"
  shows "ee_printf st fmt args u = None"
  using ee_vsprintf_put[OF assms(1,3), of "replicate 1024 (CHR 0x00)"] assms(2) by (simp add: ee_printf_def)

theorem ee_printf_overrun_witness: "ee_printf (\<lambda>n. 0) (c_str (replicate 1024 (CHR ''x''))) [] idle_uart = None"
proof -
  have "format_text (c_str (replicate 1024 (CHR ''x''))) [] = Some (replicate 1024 (CHR ''x''))"
    by (rule format_text_plain) simp_all
  then show ?thesis by (rule ee_printf_overrun) simp_all
qed

text \<open>
  \<open>number\<close> writes exactly one field: with a possible base, a number whose negation does not overflow and room
  in the buffer, the pointer advances by the field width or by the length of sign, prefix and digits, whichever is
  larger, and nothing in front of the field or behind it changes.
\<close>

theorem number_field_width:
  assumes "2 \<le> base" "base \<le> 36" "- 1 \<le> w" "in_s32 w" "precision \<le> 2 ^ 30" "\<not> (bit type 1 \<and> sint num = - (2 ^ 31))"
    and "k = max (nat w) (length (sign_text type (sint num < 0) @ prefix_text type base @ digits_text type base precision num))"
    and "str + k \<le> length buf"
  shows "\<exists>buf'. number (buf, str) num base w precision type = Some (buf', Some (str + k)) \<and> length buf' = length buf \<and>
    take str buf' = take str buf \<and> take k (drop str buf') = num_field type base w precision num \<and>
    drop (str + k) buf' = drop (str + k) buf"
proof -
  have k: "k = length (num_field type base w precision num)" unfolding assms(7) by (rule length_num_field_eq[symmetric])
  show ?thesis
    using number_writes[OF assms(1-6), of "(buf, str)"] assms(8) by (auto simp: k put_all_def put_at_def)
qed

theorem number_field_width_witness:
  "\<exists>buf'. number (replicate 8 (CHR ''.''), 1) 0x2a 10 5 (-1) (ZEROPAD OR SIGN) = Some (buf', Some 6) \<and> length buf' = 8"
proof -
  have k: "5 = max (nat 5) (length (sign_text (ZEROPAD OR SIGN) (sint (0x2a :: ee_s32) < 0) @
      prefix_text (ZEROPAD OR SIGN) 10 @ digits_text (ZEROPAD OR SIGN) 10 (-1) 0x2a))" by code_simp
  show ?thesis
    using number_field_width[of 10 5 "-1" "ZEROPAD OR SIGN" "0x2a" 5 1 "replicate 8 (CHR ''.'')", OF _ _ _ _ _ _ k]
    by (auto simp: in_s32_def)
qed

text \<open>
  The most negative number has no decimal output: \<open>%d\<close> with \<open>-2147483648\<close> negates it in the type \<open>long\<close>, which
  overflows.
\<close>

theorem ee_vsprintf_int_min: "ee_vsprintf buf (c_str ''%d'') [VWord 0x80000000] = None"
proof -
  have "parse_spec (c_str ''d'') [VWord 0x80000000] = Some (-1, 0, -1, -1, c_str ''d'', [VWord 0x80000000])" by code_simp
  moreover have "number (buf, 0) 0x80000000 10 (-1) (-1) SIGN = None"
    by (simp add: number_def Let_def number_sign_def neg_s32_def word_sless_alt SIGN_def LEFT_def)
  ultimately show ?thesis
    by (simp add: ee_vsprintf_def vsprintf_loop.simps[of "CHR ''%'' # _"] convert_def int_conv_def number_at_def c_str_def)
qed

text \<open>
  A precision does not bound what \<open>%s\<close> reads: \<open>strnlen\<close> looks at the character behind the last one it counts, so
  three characters without a NUL cannot be printed with \<open>%.3s\<close>.
\<close>

theorem ee_vsprintf_strnlen_overread: "ee_vsprintf buf (c_str ''%.3s'') [VStr (Some ''abc'')] = None"
proof -
  have "parse_spec (c_str ''.3s'') [VStr (Some ''abc'')] = Some (-1, 0, -1, 3, c_str ''s'', [VStr (Some ''abc'')])" by code_simp
  moreover have "strnlen ''abc'' 3 = None" by code_simp
  ultimately show ?thesis
    by (simp add: ee_vsprintf_def vsprintf_loop.simps[of "CHR ''%'' # _"] convert_def conv_str_def c_str_def)
qed

end
