(* ===== verification/Ee_Float.thy ===== *)
theory Ee_Float
  imports Ee_Printf
begin

text \<open>
  The part of \<open>coremark/src/barebones/ee_printf.c\<close> behind \<open>HAS_FLOAT\<close>: \<open>ee_bufcpy\<close>, \<open>parse_float\<close>, \<open>decimal_point\<close>,
  \<open>cropzeros\<close>, \<open>flt\<close> and the case \<open>'f'\<close> of \<open>ee_vsprintf\<close>. The port compiles without it.

  The type \<open>double\<close> and the conversions \<open>ecvtbuf\<close> and \<open>fcvtbuf\<close>, which the file declares and does not define, are
  parameters. What the code relies on is the hypothesis \<open>float_laws\<close>, the documented behaviour of \<open>fcvt\<close>.
\<close>

section \<open>The code\<close>

text \<open>
  A conversion returns the characters from the pointer it returns to the end of its buffer, the position of the decimal
  point and whether the number is negative.
\<close>

record 'd float_ops =
  ecvtbuf :: "'d \<Rightarrow> int \<Rightarrow> (string \<times> int \<times> bool) option"
  fcvtbuf :: "'d \<Rightarrow> int \<Rightarrow> (string \<times> int \<times> bool) option"
  fless0 :: "'d \<Rightarrow> bool"
  feq0 :: "'d \<Rightarrow> bool"
  fneg :: "'d \<Rightarrow> 'd"

subsection \<open>\<open>parse_float\<close>\<close>

text \<open>\<open>while (ps != pe) *pd++ = *ps++\<close>: with a negative count \<open>pe\<close> is never met. The caller's pointer does not move.\<close>

definition ee_bufcpy :: "out \<Rightarrow> string \<Rightarrow> nat \<Rightarrow> int \<Rightarrow> out option" where
  "ee_bufcpy pd src ps count =
     (if count < 0 then None
      else do { (buf, _) \<leftarrow> for_loop 0 (nat count) (\<lambda>i pd. do { c \<leftarrow> rd src (ps + i); emit c pd }) pd;
                Some (buf, snd pd) })"

text \<open>The format \<open>g\<close> becomes \<open>e\<close> or \<open>f\<close>.\<close>

definition choose_g :: "'d float_ops \<Rightarrow> 'd \<Rightarrow> int \<Rightarrow> (char \<times> int) option" where
  "choose_g ops value precision =
     do { (_, decpt, _) \<leftarrow> ecvtbuf ops value precision;
          magnitude \<leftarrow> s32 (decpt - 1);
          m \<leftarrow> s32 (precision - 1);
          if magnitude < - 4 \<or> m < magnitude then Some (CHR ''e'', m)
          else do { p \<leftarrow> s32 (precision - decpt); Some (CHR ''f'', p) } }"

definition dec_digit_char :: "int \<Rightarrow> char" where
  "dec_digit_char n = char_of (nat (n mod 10) + 48)"

text \<open>\<open>while (*digits) *buffer++ = *digits++\<close>, without and with the point before the digit number \<open>decpt\<close>.\<close>

fun copy_digits :: "string \<Rightarrow> out \<Rightarrow> out option" where
  "copy_digits [] out = None"
| "copy_digits (c # digits) out =
     (if c \<noteq> CHR 0x00 then do { out \<leftarrow> emit c out; copy_digits digits out } else Some out)"

fun copy_point :: "int \<Rightarrow> int \<Rightarrow> string \<Rightarrow> out \<Rightarrow> out option" where
  "copy_point decpt pos [] out = None"
| "copy_point decpt pos (c # digits) out =
     (if c \<noteq> CHR 0x00 then
        do { pos' \<leftarrow> s32 (pos + 1);
             out \<leftarrow> (if pos = decpt then emit (CHR ''.'') out else Some out);
             out \<leftarrow> emit c out;
             copy_point decpt pos' digits out }
      else Some out)"

definition zeros :: "int \<Rightarrow> out \<Rightarrow> out option" where
  "zeros n = for_loop 0 (nat n) (\<lambda>_. emit (CHR ''0''))"

definition float_e :: "'d float_ops \<Rightarrow> 'd \<Rightarrow> bool \<Rightarrow> int \<Rightarrow> out \<Rightarrow> out option" where
  "float_e ops value capexp precision out =
     do { n \<leftarrow> s32 (precision + 1);
          (digits, decpt, sign) \<leftarrow> ecvtbuf ops value n;
          out \<leftarrow> (if sign then emit (CHR ''-'') out else Some out);
          c \<leftarrow> rd digits 0;
          out \<leftarrow> emit c out;
          out \<leftarrow> (if 0 < precision then emit (CHR ''.'') out else Some out);
          (buf, str) \<leftarrow> ee_bufcpy out digits 1 precision;
          let out = (buf, str + nat precision);
          out \<leftarrow> emit (if capexp then CHR ''E'' else CHR ''e'') out;
          exp \<leftarrow> (if decpt = 0 then Some (if feq0 ops value then 0 else - 1) else s32 (decpt - 1));
          (exp, out) \<leftarrow> (if exp < 0 then do { out \<leftarrow> emit (CHR ''-'') out; exp \<leftarrow> s32 (- exp); Some (exp, out) }
                        else do { out \<leftarrow> emit (CHR ''+'') out; Some (exp, out) });
          let (buf, str) = out;
          buf \<leftarrow> wr buf (str + 2) (dec_digit_char exp);
          let exp = exp div 10;
          buf \<leftarrow> wr buf (str + 1) (dec_digit_char exp);
          let exp = exp div 10;
          buf \<leftarrow> wr buf str (dec_digit_char exp);
          Some (buf, str + 3) }"

definition float_f :: "'d float_ops \<Rightarrow> 'd \<Rightarrow> int \<Rightarrow> out \<Rightarrow> out option" where
  "float_f ops value precision out =
     do { (digits, decpt, sign) \<leftarrow> fcvtbuf ops value precision;
          out \<leftarrow> (if sign then emit (CHR ''-'') out else Some out);
          c \<leftarrow> rd digits 0;
          if c \<noteq> CHR 0x00 then
            (if decpt \<le> 0 then
               do { out \<leftarrow> emit (CHR ''0'') out;
                    out \<leftarrow> emit (CHR ''.'') out;
                    n \<leftarrow> s32 (- decpt);
                    out \<leftarrow> zeros n out;
                    copy_digits digits out }
             else copy_point decpt 0 digits out)
          else
            do { out \<leftarrow> emit (CHR ''0'') out;
                 if 0 < precision then do { out \<leftarrow> emit (CHR ''.'') out; zeros precision out } else Some out } }"

definition parse_float :: "'d float_ops \<Rightarrow> 'd \<Rightarrow> string \<Rightarrow> char \<Rightarrow> int \<Rightarrow> string option" where
  "parse_float ops value buffer fmt precision =
     do { let capexp = (fmt = CHR ''G'' \<or> fmt = CHR ''E'');
          let fmt = (if capexp then char_of (char_code fmt + (97 - 65)) else fmt);
          (fmt, precision) \<leftarrow> (if fmt = CHR ''g'' then choose_g ops value precision else Some (fmt, precision));
          out \<leftarrow> (if fmt = CHR ''e'' then float_e ops value capexp precision (buffer, 0)
                  else if fmt = CHR ''f'' then float_f ops value precision (buffer, 0)
                  else Some (buffer, 0));
          (buffer, _) \<leftarrow> emit (CHR 0x00) out;
          Some buffer }"

subsection \<open>\<open>decimal_point\<close> and \<open>cropzeros\<close>\<close>

text \<open>The index of the first character, from \<open>i\<close> on, that ends a scan: NUL or one of \<open>stops\<close>.\<close>

function scan_to :: "char list \<Rightarrow> string \<Rightarrow> nat \<Rightarrow> nat option" where
  "scan_to stops buffer i =
     (if i < length buffer then
        (if buffer ! i = CHR 0x00 \<or> buffer ! i \<in> set stops then Some i else scan_to stops buffer (i + 1))
      else None)"
  by pat_completeness auto
termination by (relation "measure (\<lambda>(_, buffer, i). length buffer - i)") auto

declare scan_to.simps [simp del]

text \<open>\<open>while (n > 0) { buffer[n + 1] = buffer[n]; n--; }\<close> with \<open>buffer\<close> at the index \<open>b\<close>.\<close>

fun shift_up :: "nat \<Rightarrow> nat \<Rightarrow> string \<Rightarrow> string option" where
  "shift_up b 0 buffer = Some buffer"
| "shift_up b (Suc n) buffer =
     do { c \<leftarrow> rd buffer (b + Suc n); buffer \<leftarrow> wr buffer (b + Suc n + 1) c; shift_up b n buffer }"

definition decimal_point :: "string \<Rightarrow> string option" where
  "decimal_point buffer =
     do { i \<leftarrow> scan_to ''.eE'' buffer 0;
          c \<leftarrow> rd buffer i;
          if c = CHR ''.'' then Some buffer
          else if c \<noteq> CHR 0x00 then
            do { n \<leftarrow> strnlen (drop i buffer) 256;
                 buffer \<leftarrow> shift_up i n buffer;
                 wr buffer i (CHR ''.'') }
          else
            do { buffer \<leftarrow> wr buffer i (CHR ''.''); wr buffer (i + 1) (CHR 0x00) } }"

text \<open>\<open>while (*buffer == '0') buffer--\<close>, and \<open>while (buffer != stop) *++buffer = 0\<close>.\<close>

fun back_zeros :: "string \<Rightarrow> nat \<Rightarrow> nat option" where
  "back_zeros buffer 0 = do { c \<leftarrow> rd buffer 0; if c = CHR ''0'' then None else Some 0 }"
| "back_zeros buffer (Suc k) = do { c \<leftarrow> rd buffer (Suc k); if c = CHR ''0'' then back_zeros buffer k else Some (Suc k) }"

definition crop_from :: "nat \<Rightarrow> nat \<Rightarrow> string \<Rightarrow> string option" where
  "crop_from k stop = for_loop (k + 1) (stop - k) (\<lambda>i buffer. wr buffer i (CHR 0x00))"

definition cropzeros :: "string \<Rightarrow> string option" where
  "cropzeros buffer =
     do { i \<leftarrow> scan_to ''.'' buffer 0;
          c \<leftarrow> rd buffer i;
          if c \<noteq> CHR 0x00 then
            do { stop \<leftarrow> scan_to ''eE'' buffer (i + 1);
                 k \<leftarrow> back_zeros buffer (stop - 1);
                 c \<leftarrow> rd buffer k;
                 k \<leftarrow> (if c = CHR ''.'' then (if k = 0 then None else Some (k - 1)) else Some k);
                 crop_from k stop buffer }
          else Some buffer }"

subsection \<open>\<open>flt\<close>\<close>

definition flt_sign :: "'d float_ops \<Rightarrow> 'd \<Rightarrow> int \<Rightarrow> ee_s32 \<Rightarrow> (char \<times> 'd \<times> int) option" where
  "flt_sign ops num sz flags =
     (if flags AND SIGN \<noteq> 0 then
        if fless0 ops num then do { sz \<leftarrow> s32 (sz - 1); Some (CHR ''-'', fneg ops num, sz) }
        else if flags AND PLUS \<noteq> 0 then do { sz \<leftarrow> s32 (sz - 1); Some (CHR ''+'', num, sz) }
        else if flags AND SPACE \<noteq> 0 then do { sz \<leftarrow> s32 (sz - 1); Some (CHR '' '', num, sz) }
        else Some (CHR 0x00, num, sz)
      else Some (CHR 0x00, num, sz))"

definition flt :: "'d float_ops \<Rightarrow> out \<Rightarrow> 'd \<Rightarrow> int \<Rightarrow> int \<Rightarrow> char \<Rightarrow> ee_s32 \<Rightarrow> out option" where
  "flt ops out num sz precision fmt flags =
     do { let flags = (if flags AND LEFT \<noteq> 0 then flags AND NOT ZEROPAD else flags);
          let c = (if flags AND ZEROPAD \<noteq> 0 then CHR ''0'' else CHR '' '');
          (sign, num, sz) \<leftarrow> flt_sign ops num sz flags;
          let precision = (if precision < 0 then 6 else precision);
          tmp \<leftarrow> parse_float ops num (replicate 80 (CHR 0x00)) fmt precision;
          tmp \<leftarrow> (if flags AND HEX_PREP \<noteq> 0 \<and> precision = 0 then decimal_point tmp else Some tmp);
          tmp \<leftarrow> (if fmt = CHR ''g'' \<and> flags AND HEX_PREP = 0 then cropzeros tmp else Some tmp);
          n \<leftarrow> strnlen tmp 256;
          sz \<leftarrow> s32 (sz - int n);
          (sz, out) \<leftarrow> (if flags AND (ZEROPAD OR LEFT) = 0 then pad_to (CHR '' '') 0 sz out else Some (sz, out));
          out \<leftarrow> (if sign \<noteq> CHR 0x00 then emit sign out else Some out);
          (sz, out) \<leftarrow> (if flags AND LEFT = 0 then pad_to c 0 sz out else Some (sz, out));
          out \<leftarrow> copy_up tmp n out;
          (sz, out) \<leftarrow> pad_to (CHR '' '') 0 sz out;
          Some out }"

text \<open>\<open>case 'f'\<close> of \<open>ee_vsprintf\<close>.\<close>

definition conv_float :: "'d float_ops \<Rightarrow> ee_s32 \<Rightarrow> int \<Rightarrow> int \<Rightarrow> 'd \<Rightarrow> out \<Rightarrow> out option" where
  "conv_float ops flags field_width precision num out =
     flt ops out num field_width precision (CHR ''f'') (flags OR SIGN)"

section \<open>Fixed-point texts\<close>

text \<open>The \<open>n\<close> digits behind the point of \<open>m / 10 ^ n\<close>, and the whole text.\<close>

fun frac_text :: "nat \<Rightarrow> nat \<Rightarrow> string" where
  "frac_text 0 m = []"
| "frac_text (Suc n) m = frac_text n (m div 10) @ [dec_char (m mod 10)]"

definition fixed_text :: "nat \<Rightarrow> nat \<Rightarrow> string" where
  "fixed_text n m = num_text dec_char 10 (m div 10 ^ n) @ (if n = 0 then [] else CHR ''.'' # frac_text n m)"

definition fixed_digits :: "nat \<Rightarrow> nat \<Rightarrow> nat" where
  "fixed_digits n m = length (num_text dec_char 10 (m div 10 ^ n)) + n"

text \<open>
  What \<open>fcvt\<close> documents: the digits of the number, rounded to \<open>n\<close> places behind the point, without leading zeros, and the
  position of the point. \<open>mag v n\<close> is that rounded number times \<open>10 ^ n\<close>. The digits fit into the buffer of 80 characters.
\<close>

definition fcvt_gives :: "string \<Rightarrow> int \<Rightarrow> nat \<Rightarrow> nat \<Rightarrow> bool" where
  "fcvt_gives ds decpt n m \<longleftrightarrow>
     list_all is_digit ds \<and> length ds = nat (decpt + int n) \<and> dec_val ds = m \<and>
     (0 < decpt \<longrightarrow> ds \<noteq> [] \<and> hd ds \<noteq> CHR ''0'')"

definition float_laws :: "'d float_ops \<Rightarrow> ('d \<Rightarrow> nat \<Rightarrow> nat) \<Rightarrow> bool" where
  "float_laws ops mag \<longleftrightarrow>
     (\<forall>v n. \<not> fless0 ops v \<and> fixed_digits n (mag v n) < 80 \<longrightarrow>
        (\<exists>ds decpt rest. fcvtbuf ops v (int n) = Some (ds @ CHR 0x00 # rest, decpt, False) \<and> fcvt_gives ds decpt n (mag v n))) \<and>
     (\<forall>v. fless0 ops v \<longrightarrow> \<not> fless0 ops (fneg ops v) \<and> (\<forall>n. mag (fneg ops v) n = mag v n))"

lemma length_frac_text [simp]: "length (frac_text n m) = n"
  by (induction n arbitrary: m) simp_all

lemma length_fixed_text: "length (fixed_text n m) = fixed_digits n m + (if n = 0 then 0 else 1)"
  by (simp add: fixed_text_def fixed_digits_def)

lemma dec_char_0 [simp]: "dec_char 0 = CHR ''0''"
  by code_simp

lemma dec_char_digit_val [simp]: "is_digit c \<Longrightarrow> dec_char (digit_val c) = c"
  by (simp add: dec_char_def is_digit_def digit_val_def char_code_def)

lemma num_text_step: "0 < k \<Longrightarrow> d < 10 \<Longrightarrow> num_text c 10 (k * 10 + d) = num_text c 10 k @ [c d]"
  by (simp add: num_text_def digs_step)

lemma num_text_digit: "d < 10 \<Longrightarrow> num_text c 10 d = [c d]"
  by (cases "d = 0") (simp_all add: num_text_def digs_step)

lemma digits_are_num_text:
  "list_all is_digit ds \<Longrightarrow> ds \<noteq> [] \<Longrightarrow> hd ds \<noteq> CHR ''0'' \<Longrightarrow> num_text dec_char 10 (dec_val ds) = ds"
proof (induction ds rule: rev_induct)
  case (snoc d ds)
  then have d: "is_digit d" "digit_val d < 10" using is_digit_val[of d] by simp_all
  show ?case
  proof (cases "ds = []")
    case True
    with d show ?thesis by (simp add: num_text_digit)
  next
    case False
    with snoc have ds: "num_text dec_char 10 (dec_val ds) = ds" "hd ds \<noteq> CHR ''0''" by simp_all
    have "dec_val ds \<noteq> 0"
    proof
      assume "dec_val ds = 0"
      with ds show False by (auto simp: num_text_def)
    qed
    with ds(1) d show ?thesis by (simp add: num_text_step)
  qed
qed simp

lemma frac_text_step: "d < 10 \<Longrightarrow> frac_text (Suc n) (k * 10 + d) = frac_text n k @ [dec_char d]"
  by simp

lemma frac_text_digits: "list_all is_digit ds \<Longrightarrow> frac_text (length ds) (k * 10 ^ length ds + dec_val ds) = ds"
proof (induction ds arbitrary: k rule: rev_induct)
  case (snoc d ds)
  then have d: "is_digit d" "digit_val d < 10" using is_digit_val[of d] by simp_all
  have eq: "k * 10 ^ Suc (length ds) + dec_val (ds @ [d]) = (k * 10 ^ length ds + dec_val ds) * 10 + digit_val d"
    by (simp add: algebra_simps)
  have "frac_text (Suc (length ds)) ((k * 10 ^ length ds + dec_val ds) * 10 + digit_val d) =
      frac_text (length ds) (k * 10 ^ length ds + dec_val ds) @ [dec_char (digit_val d)]" by (rule frac_text_step[OF d(2)])
  also have "\<dots> = ds @ [d]" using snoc d(1) by simp
  finally show ?case unfolding length_append_singleton eq .
qed simp

lemma dec_val_append: "dec_val (xs @ ys) = dec_val xs * 10 ^ length ys + dec_val ys"
  by (induction xs) (simp_all add: algebra_simps power_add)

lemma dec_val_less: "list_all is_digit ds \<Longrightarrow> dec_val ds < 10 ^ length ds"
proof (induction ds rule: rev_induct)
  case (snoc d ds)
  then have "digit_val d < 10" "dec_val ds < 10 ^ length ds" using is_digit_val[of d] by simp_all
  then show ?case by simp
qed simp

lemma dec_val_zeros [simp]: "dec_val (replicate k (CHR ''0'') @ ds) = dec_val ds"
  by (induction k) (simp_all add: digit_val_def char_code_def)

text \<open>The text, from what \<open>fcvt\<close> gives, when the point stands behind the first digit and when it does not.\<close>

lemma fixed_text_behind:
  assumes "fcvt_gives ds decpt n m" "0 < decpt"
  shows "fixed_text n m = take (nat decpt) ds @ (if n = 0 then [] else CHR ''.'' # drop (nat decpt) ds)"
    "fixed_digits n m = nat decpt + n"
proof -
  let ?x = "take (nat decpt) ds" and ?y = "drop (nat decpt) ds"
  have ds: "list_all is_digit ds" "length ds = nat decpt + n" "dec_val ds = m" "hd ds \<noteq> CHR ''0''" "ds \<noteq> []"
    using assms by (auto simp: fcvt_gives_def nat_add_distrib)
  then have xy: "list_all is_digit ?x" "list_all is_digit ?y" "length ?y = n" "length ?x = nat decpt" "hd ?x \<noteq> CHR ''0''" "?x \<noteq> []"
    using assms(2) by (auto simp: list_all_iff hd_take dest: in_set_takeD in_set_dropD)
  have m: "m = dec_val ?x * 10 ^ n + dec_val ?y" using dec_val_append[of ?x ?y] ds(3) xy(3) by simp
  have "dec_val ?y < 10 ^ n" using dec_val_less[OF xy(2)] xy(3) by simp
  then have "m div 10 ^ n = dec_val ?x" by (simp add: m)
  then have "num_text dec_char 10 (m div 10 ^ n) = ?x" using digits_are_num_text[OF xy(1,6,5)] by simp
  moreover have "frac_text n m = ?y" using frac_text_digits[OF xy(2), of "dec_val ?x"] xy(3) m by simp
  ultimately show "fixed_text n m = ?x @ (if n = 0 then [] else CHR ''.'' # ?y)" "fixed_digits n m = nat decpt + n"
    using xy(4) by (simp_all add: fixed_text_def fixed_digits_def)
qed

lemma fixed_text_before:
  assumes "fcvt_gives ds decpt n m" "decpt \<le> 0"
  shows "fixed_text n m = CHR ''0'' # (if n = 0 then [] else CHR ''.'' # (if ds = [] then replicate n (CHR ''0'')
    else replicate (nat (- decpt)) (CHR ''0'') @ ds))" "fixed_digits n m = Suc n"
proof -
  define ys where "ys = replicate (n - length ds) (CHR ''0'') @ ds"
  have ds: "list_all is_digit ds" "length ds = nat (decpt + int n)" "dec_val ds = m" using assms by (auto simp: fcvt_gives_def)
  then have len: "length ds \<le> n" using assms(2) by linarith
  have ys: "list_all is_digit ys" "length ys = n" "dec_val ys = m"
    using ds len by (auto simp: ys_def list_all_iff is_digit_def char_code_def)
  then have "m < 10 ^ n" using dec_val_less[OF ys(1)] by simp
  moreover have "frac_text n m = ys" using frac_text_digits[OF ys(1), of 0] ys(2,3) by simp
  moreover have "ds = [] \<or> n - length ds = nat (- decpt)"
  proof (cases "ds = []")
    case False
    with ds(2) have "0 < decpt + int n" by (metis length_greater_0_conv zero_less_nat_eq)
    with ds(2) assms(2) show ?thesis by linarith
  qed simp
  ultimately show "fixed_text n m = CHR ''0'' # (if n = 0 then [] else CHR ''.'' # (if ds = [] then replicate n (CHR ''0'')
    else replicate (nat (- decpt)) (CHR ''0'') @ ds))" "fixed_digits n m = Suc n"
    by (auto simp: fixed_text_def fixed_digits_def ys_def num_text_digit)
qed

section \<open>What the code writes\<close>

lemma digits_no_NUL: "list_all is_digit ds \<Longrightarrow> CHR 0x00 \<notin> set ds"
  by (auto simp: list_all_iff is_digit_def char_code_def)

lemma copy_digits_put: "CHR 0x00 \<notin> set ds \<Longrightarrow> copy_digits (ds @ CHR 0x00 # rest) = put_all ds"
proof (induction ds)
  case (Cons d ds)
  then have "copy_digits (ds @ CHR 0x00 # rest) = put_all ds" "d \<noteq> CHR 0x00" by auto
  then show ?case by (intro ext) (simp add: put_simps)
qed (simp add: fun_eq_iff)

lemma copy_point_put:
  assumes "CHR 0x00 \<notin> set ds" "0 \<le> pos" "pos + int (length ds) < 2 ^ 31"
  shows "copy_point decpt pos (ds @ CHR 0x00 # rest) out =
    put_all (if pos \<le> decpt \<and> decpt < pos + int (length ds)
      then take (nat (decpt - pos)) ds @ CHR ''.'' # drop (nat (decpt - pos)) ds else ds) out"
  using assms
proof (induction ds arbitrary: pos out)
  case (Cons d ds)
  have "copy_point decpt (pos + 1) (ds @ CHR 0x00 # rest) = put_all (if pos + 1 \<le> decpt \<and> decpt < pos + 1 + int (length ds)
      then take (nat (decpt - pos - 1)) ds @ CHR ''.'' # drop (nat (decpt - pos - 1)) ds else ds)"
    using Cons.IH[of "pos + 1"] Cons.prems by (intro ext) (simp add: algebra_simps)
  moreover have "nat (decpt - pos) = Suc (nat (decpt - pos - 1))" if "pos < decpt" using that by simp
  ultimately show ?case
    using Cons.prems by (cases "pos = decpt") (auto simp: put_simps in_s32_def)
qed auto

lemma zeros_put [put_simps]: "zeros n = put_all (replicate (nat n) (CHR ''0''))"
proof
  fix out
  have "for_loop 0 k (\<lambda>_. emit (CHR ''0'')) out = put_all (replicate k (CHR ''0'')) out" for k
    by (induction k) (simp_all add: for_loop_Suc put_simps replicate_append_same del: for_loop.simps(2))
  then show "zeros n out = put_all (replicate (nat n) (CHR ''0'')) out" by (simp add: zeros_def)
qed

lemma float_f_put:
  assumes "fcvtbuf ops v (int n) = Some (ds @ CHR 0x00 # rest, decpt, False)" "fcvt_gives ds decpt n m" "fixed_digits n m < 80"
  shows "float_f ops v (int n) out = put_all (fixed_text n m) out"
proof -
  have ds: "list_all is_digit ds" "length ds = nat (decpt + int n)" using assms(2) by (auto simp: fcvt_gives_def)
  note nul = digits_no_NUL[OF ds(1)]
  have c: "rd (ds @ CHR 0x00 # rest) 0 = Some (if ds = [] then CHR 0x00 else hd ds)" by (cases ds) simp_all
  have hd: "ds \<noteq> [] \<Longrightarrow> hd ds \<noteq> CHR 0x00" using nul by (metis list.set_sel(1))
  show ?thesis
  proof (cases "0 < decpt")
    case True
    note t = fixed_text_behind[OF assms(2) True]
    have ne: "ds \<noteq> []" and len: "int (length ds) < 2 ^ 31" using True ds(2) t(2) assms(2,3) by (auto simp: fcvt_gives_def)
    have "copy_point decpt 0 (ds @ CHR 0x00 # rest) out = put_all (fixed_text n m) out"
      using copy_point_put[OF nul, of 0 decpt rest out] len True ds(2) by (auto simp: t(1))
    then show ?thesis using True ne hd by (simp add: float_f_def assms(1) c)
  next
    case False
    then have le: "decpt \<le> 0" by simp
    note t = fixed_text_before[OF assms(2) le]
    show ?thesis
    proof (cases "ds = []")
      case True
      then show ?thesis using t(1) by (simp add: float_f_def assms(1) put_simps option.map_ident)
    next
      case ne: False
      then have "0 < decpt + int n" using ds(2) by (metis length_greater_0_conv zero_less_nat_eq)
      then have "0 < n" "in_s32 (- decpt)" using le t(2) assms(3) by (auto simp: in_s32_def)
      then show ?thesis
        using le ne hd t(1) by (simp add: float_f_def assms(1) c copy_digits_put[OF nul] put_simps)
    qed
  qed
qed

text \<open>The NUL goes to \<open>tmp\<close> too: a text of 80 characters overruns it.\<close>

definition tmp_text :: "string \<Rightarrow> string" where
  "tmp_text t = t @ CHR 0x00 # replicate (79 - length t) (CHR 0x00)"

lemma put_all_tmp: "put_all (t @ [CHR 0x00]) (replicate 80 (CHR 0x00), 0) = (if length t < 80 then Some (tmp_text t, Suc (length t)) else None)"
  by (auto simp: put_all_def put_at_def tmp_text_def)

lemma parse_float_f:
  assumes "fcvtbuf ops v (int n) = Some (ds @ CHR 0x00 # rest, decpt, False)" "fcvt_gives ds decpt n m" "fixed_digits n m < 80"
  shows "parse_float ops v (replicate 80 (CHR 0x00)) (CHR ''f'') (int n) =
    (if length (fixed_text n m) < 80 then Some (tmp_text (fixed_text n m)) else None)"
  using put_all_tmp[of "fixed_text n m"] by (auto simp: parse_float_def float_f_put[OF assms] put_simps split: if_splits)

lemma scan_to_behind:
  "\<forall>c\<in>set ys. c \<noteq> CHR 0x00 \<and> c \<notin> set stops \<Longrightarrow> scan_to stops (xs @ ys @ CHR 0x00 # rest) (length xs) = Some (length (xs @ ys))"
proof (induction ys arbitrary: xs)
  case Nil
  show ?case by (subst scan_to.simps) simp
next
  case (Cons c ys)
  then have "scan_to stops ((xs @ [c]) @ ys @ CHR 0x00 # rest) (length (xs @ [c])) = Some (length ((xs @ [c]) @ ys))" by (metis list.set_intros(2))
  with Cons.prems show ?case by (subst scan_to.simps) simp
qed

lemma strnlen_tmp: "CHR 0x00 \<notin> set t \<Longrightarrow> length t < 80 \<Longrightarrow> strnlen (tmp_text t) 256 = Some (length t)"
proof -
  assume t: "CHR 0x00 \<notin> set t" "length t < 80"
  then have "takeWhile (\<lambda>c. c \<noteq> CHR 0x00) (tmp_text t) = t" by (simp add: tmp_text_def takeWhile_append)
  with t(2) show ?thesis by (simp add: strnlen_eq Let_def tmp_text_def)
qed

lemma decimal_point_digits:
  assumes "list_all is_digit t" "length t < 80"
  shows "decimal_point (tmp_text t) = (if length t < 79 then Some (tmp_text (t @ ''.'')) else None)"
proof -
  have "\<forall>c\<in>set t. c \<noteq> CHR 0x00 \<and> c \<notin> set ''.eE''" using assms(1) by (auto simp: list_all_iff is_digit_def char_code_def)
  then have s: "scan_to ''.eE'' (tmp_text t) 0 = Some (length t)"
    using scan_to_behind[of t "''.eE''" "[]"] by (simp add: tmp_text_def)
  have "decimal_point (tmp_text t) = wr (t @ CHR ''.'' # replicate (79 - length t) (CHR 0x00)) (Suc (length t)) (CHR 0x00)"
    by (simp add: decimal_point_def s) (simp add: tmp_text_def nth_append)
  then show ?thesis using assms(2) by (cases "79 - length t") (auto simp: wr_def tmp_text_def nth_append list_update_append)
qed

lemma flt_layout:
  assumes "- (2 ^ 31) + 3 \<le> S" "in_s32 S"
  shows "do { (sz, out) \<leftarrow> (if \<not> z \<and> \<not> l then pad_to (CHR '' '') 0 S out else Some (S, out));
      out \<leftarrow> put_all st out;
      (sz, out) \<leftarrow> (if \<not> l then pad_to (if z then CHR ''0'' else CHR '' '') 0 sz out else Some (sz, out));
      out \<leftarrow> put_all T out;
      (sz, out) \<leftarrow> pad_to (CHR '' '') 0 sz out;
      Some out } =
    put_all (let fill = replicate (nat S)
      in if l then st @ T @ fill (CHR '' '') else if z then st @ fill (CHR ''0'') @ T else fill (CHR '' '') @ st @ T) out"
proof -
  have r: "in_s32 (min S 0 - 1)" "in_s32 (min S 0 - 2)" "in_s32 (min S 0 - 3)" using assms by (auto simp: in_s32_def)
  have P: "pad_to c 0 S = (\<lambda>out. map_option (Pair (min S 0 - 1)) (put_all (replicate (nat S) c) out))"
    "pad_to c 0 (min S 0 - 1) = (\<lambda>out. Some (min S 0 - 2, out))" "pad_to c 0 (min S 0 - 2) = (\<lambda>out. Some (min S 0 - 3, out))" for c
    using r assms(2) by (auto simp: fun_eq_iff pad_to_put)
  show ?thesis by (cases l; cases z) (simp_all add: P put_simps option.map_ident Let_def)
qed

lemma flt_sign_eq:
  fixes ops :: "'d float_ops" and v :: 'd
  assumes "in_s32 sz" "in_s32 (sz - 1)" "bit flags 1"
  defines "st \<equiv> sign_text flags (fless0 ops v)"
  shows "flt_sign ops v sz flags =
    Some (if st = [] then CHR 0x00 else hd st, if fless0 ops v then fneg ops v else v, sz - int (length st))"
  using assms(1-3) by (auto simp: flt_sign_def st_def sign_text_def)

section \<open>The field\<close>

text \<open>
  The number with its sign, at least \<open>w\<close> characters wide. The point is written when digits follow it, or when the flag
  \<open>#\<close> asks for it.
\<close>

definition float_text :: "ee_s32 \<Rightarrow> nat \<Rightarrow> nat \<Rightarrow> string" where
  "float_text flags n m = fixed_text n m @ (if n = 0 \<and> bit flags 5 then ''.'' else [])"

definition float_field :: "ee_s32 \<Rightarrow> int \<Rightarrow> bool \<Rightarrow> string \<Rightarrow> string" where
  "float_field flags w neg t =
     (let head = sign_text (flags OR SIGN) neg
      in if bit flags 0 \<and> \<not> bit flags 4 then head @ replicate (nat (w - int (length (head @ t)))) (CHR ''0'') @ t
         else justify flags w (head @ t))"

definition places :: "int \<Rightarrow> nat" where
  "places precision = (if precision < 0 then 6 else nat precision)"

lemma fixed_text_chars: "CHR 0x00 \<notin> set (fixed_text n m)" "n = 0 \<Longrightarrow> list_all is_digit (fixed_text n m)"
proof -
  have d: "list_all is_digit (frac_text n m)" for n m
    by (induction n arbitrary: m) (simp_all add: digit_val_dec_char)
  then show "CHR 0x00 \<notin> set (fixed_text n m)"
    using digits_no_NUL[OF dec_num_text(2)[of "m div 10 ^ n"]] digits_no_NUL[OF d[of n m]] by (simp add: fixed_text_def)
  show "n = 0 \<Longrightarrow> list_all is_digit (fixed_text n m)" by (simp add: fixed_text_def dec_num_text(2))
qed

lemma sign_flag [simp]: "k < 32 \<Longrightarrow> bit (flags OR SIGN) k \<longleftrightarrow> k = 1 \<or> bit flags k" for flags :: ee_s32
  by (auto simp: SIGN_def bit_simps)

text \<open>\<open>tmp\<close>, as \<open>flt\<close> leaves it.\<close>

lemma tmp_written:
  fixes ops :: "'d float_ops" and v :: 'd and flags :: ee_s32
  assumes "float_laws ops mag" "\<not> fless0 ops v" "fixed_digits n (mag v n) < 80"
  defines "t \<equiv> float_text flags n (mag v n)"
  shows "do { tmp \<leftarrow> parse_float ops v (replicate 80 (CHR 0x00)) (CHR ''f'') (int n);
      if bit flags 5 \<and> n = 0 then decimal_point tmp else Some tmp } = (if length t < 80 then Some (tmp_text t) else None)"
proof -
  obtain ds decpt rest where "fcvtbuf ops v (int n) = Some (ds @ CHR 0x00 # rest, decpt, False)" "fcvt_gives ds decpt n (mag v n)"
    using assms(1-3) unfolding float_laws_def by blast
  note p = parse_float_f[OF this assms(3)]
  have "length (fixed_text 0 (mag v 0)) < 80" if "n = 0" using assms(3) that by (simp add: length_fixed_text)
  then show ?thesis
    using decimal_point_digits[OF fixed_text_chars(2)[of 0 "mag v 0"]] by (auto simp: p t_def float_text_def)
qed

lemma float_text_NUL: "CHR 0x00 \<notin> set (float_text flags n m)"
  using fixed_text_chars(1) by (auto simp: float_text_def)

section \<open>A number format that satisfies the laws\<close>

text \<open>Thousandths, rounded half up. The digits of any such number can be given the way \<open>fcvt\<close> documents.\<close>

definition thousandths :: "int \<Rightarrow> nat \<Rightarrow> nat" where
  "thousandths v n = (nat \<bar>v\<bar> * 10 ^ n + 500) div 1000"

definition thousandths_fcvt :: "int \<Rightarrow> int \<Rightarrow> (string \<times> int \<times> bool) option" where
  "thousandths_fcvt v k =
     (let n = nat k; m = thousandths v n
      in Some (if m < 10 ^ n then (frac_text n m @ [CHR 0x00], 0, v < 0)
               else (num_text dec_char 10 m @ [CHR 0x00], int (length (num_text dec_char 10 (m div 10 ^ n))), v < 0)))"

definition thousandths_ops :: "int float_ops" where
  "thousandths_ops = \<lparr>ecvtbuf = \<lambda>v n. None, fcvtbuf = thousandths_fcvt, fless0 = \<lambda>v. v < 0, feq0 = \<lambda>v. v = 0, fneg = uminus\<rparr>"

lemma frac_text_val: "list_all is_digit (frac_text n m)" "dec_val (frac_text n m) = m mod 10 ^ n"
  by (induction n arbitrary: m) (simp_all add: digit_val_dec_char mod_mult2_eq)

lemma num_text_div: "10 ^ n \<le> m \<Longrightarrow> length (num_text dec_char 10 m) = length (num_text dec_char 10 (m div 10 ^ n)) + n"
proof (induction n arbitrary: m)
  case (Suc n)
  have m: "0 < m div 10" "10 ^ n \<le> m div 10" using Suc.prems by (auto simp: div_greater_zero_iff intro: order.trans[rotated])
  have "length (num_text dec_char 10 m) = Suc (length (num_text dec_char 10 (m div 10)))"
    using num_text_step[OF m(1), of "m mod 10" dec_char] by simp
  with Suc.IH[OF m(2)] show ?case by (simp add: div_mult2_eq)
qed simp

lemma num_text_hd: "0 < m \<Longrightarrow> hd (num_text dec_char 10 m) \<noteq> CHR ''0''"
proof (induction m rule: less_induct)
  case (less m)
  show ?case
  proof (cases "m < 10")
    case True
    have "\<forall>d\<in>set [1..<10]. dec_char d \<noteq> CHR ''0''" by code_simp
    with less.prems True show ?thesis by (simp add: num_text_digit)
  next
    case False
    then have "0 < m div 10" "m div 10 < m" by simp_all
    with less.IH[of "m div 10"] num_text_step[of "m div 10" "m mod 10" dec_char] show ?thesis by simp
  qed
qed

lemma thousandths_laws: "float_laws thousandths_ops thousandths"
proof -
  have "\<exists>ds decpt rest. thousandths_fcvt v (int n) = Some (ds @ CHR 0x00 # rest, decpt, False) \<and> fcvt_gives ds decpt n (thousandths v n)"
    if "\<not> v < 0" for v n
  proof (cases "thousandths v n < 10 ^ n")
    case True
    then have "fcvt_gives (frac_text n (thousandths v n)) 0 n (thousandths v n)" by (simp add: fcvt_gives_def frac_text_val)
    with True that show ?thesis by (auto simp: thousandths_fcvt_def Let_def)
  next
    case False
    then have "0 < thousandths v n" by (cases "thousandths v n = 0") simp_all
    with False have "fcvt_gives (num_text dec_char 10 (thousandths v n)) (int (length (num_text dec_char 10 (thousandths v n div 10 ^ n)))) n (thousandths v n)"
      using num_text_hd[of "thousandths v n"] num_text_div[of n "thousandths v n"] by (auto simp: fcvt_gives_def dec_num_text)
    with False that show ?thesis by (auto simp: thousandths_fcvt_def Let_def)
  qed
  then show ?thesis by (simp add: float_laws_def thousandths_ops_def thousandths_def)
qed

section \<open>The conversion as a whole\<close>

text \<open>What \<open>flt\<close> does once the text of the number is in its local array: the sign text \<open>st\<close>, the flags \<open>f\<close> and the width.\<close>

definition flt_rest :: "string \<Rightarrow> ee_s32 \<Rightarrow> int \<Rightarrow> string \<Rightarrow> string \<times> nat \<Rightarrow> (string \<times> nat) option" where
  "flt_rest st f w tmp out =
     do { n \<leftarrow> strnlen tmp 256;
          sz \<leftarrow> s32 (w - int (length st) - int n);
          (sz, out) \<leftarrow> (if \<not> bit f 0 \<and> \<not> bit f 4 then pad_to (CHR '' '') 0 sz out else Some (sz, out));
          out \<leftarrow> (if (if st = [] then CHR 0x00 else hd st) \<noteq> CHR 0x00 then emit (if st = [] then CHR 0x00 else hd st) out else Some out);
          (sz, out) \<leftarrow> (if \<not> bit f 4 then pad_to (if bit f 0 then CHR ''0'' else CHR '' '') 0 sz out else Some (sz, out));
          out \<leftarrow> copy_up tmp n out;
          (sz, out) \<leftarrow> pad_to (CHR '' '') 0 sz out;
          Some out }"

lemma flt_rest_put:
  assumes "st = [] \<or> (\<exists>c. st = [c] \<and> c \<noteq> CHR 0x00)" "length t < 80" "CHR 0x00 \<notin> set t" "- 1 \<le> w" "in_s32 w"
  shows "flt_rest st f w (tmp_text t) out = put_all (let fill = replicate (nat (w - int (length st) - int (length t)))
    in if bit f 4 then st @ t @ fill (CHR '' '') else if bit f 0 then st @ fill (CHR ''0'') @ t else fill (CHR '' '') @ st @ t) out"
proof -
  define S where "S = w - int (length st) - int (length t)"
  have e: "(if (if st = [] then CHR 0x00 else hd st) \<noteq> CHR 0x00 then emit (if st = [] then CHR 0x00 else hd st) out else Some out) =
      put_all st out" for out
    using assms(1) by (auto simp: put_simps)
  have "length st \<le> 1" using assms(1) by auto
  then have S: "- (2 ^ 31) + 3 \<le> S" "in_s32 S" using assms(2,4,5) by (auto simp: S_def in_s32_def)
  have n: "strnlen (tmp_text t) 256 = Some (length t)" by (rule strnlen_tmp[OF assms(3,2)])
  have c: "copy_up (tmp_text t) (length t) = put_all t" by (intro ext) (simp add: copy_up_put tmp_text_def)
  show ?thesis
    unfolding flt_rest_def n Option.bind.bind_lunit S_def[symmetric] s32_in[OF S(2)] c e by (rule flt_layout[OF S])
qed

lemma conv_float_rest:
  fixes ops :: "'d float_ops" and v :: 'd and flags :: ee_s32
  assumes "float_laws ops mag" "- 1 \<le> w" "in_s32 w" "fixed_digits (places precision) (mag v (places precision)) < 80"
    and "\<And>k. k < 32 \<Longrightarrow> bit f k \<longleftrightarrow> (k = 1 \<or> bit flags k) \<and> (k = 0 \<longrightarrow> \<not> bit flags 4)"
  defines "t \<equiv> float_text flags (places precision) (mag v (places precision))"
  assumes f: "f = (if bit (flags OR SIGN) 4 then (flags OR SIGN) AND NOT ZEROPAD else flags OR SIGN)"
  shows "conv_float ops flags w precision v out =
    (if length t < 80 then flt_rest (sign_text (flags OR SIGN) (fless0 ops v)) f w (tmp_text t) out else None)"
proof -
  let ?n = "places precision"
  define u where "u = (if fless0 ops v then fneg ops v else v)"
  define st where "st = sign_text (flags OR SIGN) (fless0 ops v)"
  have st: "sign_text f (fless0 ops v) = st" using assms(5) by (simp add: st_def sign_text_def)
  have u: "\<not> fless0 ops u" "mag u n = mag v n" for n using assms(1) by (auto simp: u_def float_laws_def)
  have prec: "(if precision < 0 then 6 else precision) = int ?n" by (simp add: places_def)
  have sgn: "flt_sign ops v w f = Some (if st = [] then CHR 0x00 else hd st, u, w - int (length st))"
    using flt_sign_eq[of w f ops v] assms(5)[of 1] assms(2,3) st by (simp add: u_def in_s32_def)
  have tmp: "do { tmp \<leftarrow> parse_float ops u (replicate 80 (CHR 0x00)) (CHR ''f'') (int ?n);
      if bit flags 5 \<and> ?n = 0 then decimal_point tmp else Some tmp } = (if length t < 80 then Some (tmp_text t) else None)"
    using tmp_written[OF assms(1) u(1), of ?n flags] assms(4) by (simp add: u(2) t_def)
  have f5: "bit f 5 \<longleftrightarrow> bit flags 5" using assms(5)[of 5] by simp
  have "flt ops out v w precision (CHR ''f'') (flags OR SIGN) =
      do { tmp \<leftarrow> parse_float ops u (replicate 80 (CHR 0x00)) (CHR ''f'') (int ?n);
           tmp \<leftarrow> (if bit flags 5 \<and> ?n = 0 then decimal_point tmp else Some tmp);
           flt_rest st f w tmp out }"
    unfolding flt_def Let_def flag_bits not_not pad_flags f[symmetric] sgn prec flt_rest_def by (simp add: f5)
  then have "conv_float ops flags w precision v out =
      Option.bind (if length t < 80 then Some (tmp_text t) else None) (\<lambda>tmp. flt_rest st f w tmp out)"
    by (simp add: conv_float_def flip: tmp Option.bind_assoc)
  then show ?thesis by (simp add: st_def)
qed

section \<open>Properties\<close>

text \<open>
  C39. \<open>%f\<close> prints the fixed-point text of the number: sign, digits before the point, and as many places as the precision
  asks for (6 without one), in the field the width and the flags ask for. A text of 80 characters or more overruns the
  local array of \<open>flt\<close>.
\<close>

theorem conv_float_text:
  fixes ops :: "'d float_ops" and v :: 'd and flags :: ee_s32
  assumes "float_laws ops mag" "- 1 \<le> w" "in_s32 w" "fixed_digits (places precision) (mag v (places precision)) < 80"
  defines "t \<equiv> float_text flags (places precision) (mag v (places precision))"
  shows "conv_float ops flags w precision v out =
    (if length t < 80 then put_all (float_field flags w (fless0 ops v) t) out else None)"
proof -
  let ?ty = "flags OR SIGN"
  let ?f = "if bit ?ty 4 then ?ty AND NOT ZEROPAD else ?ty" and ?st = "sign_text (flags OR SIGN) (fless0 ops v)"
  have flags: "bit ?f k \<longleftrightarrow> (k = 1 \<or> bit flags k) \<and> (k = 0 \<longrightarrow> \<not> bit flags 4)" if "k < 32" for k using that by auto
  note rest = conv_float_rest[OF assms(1-4) flags refl, of out, folded t_def]
  show ?thesis
  proof (cases "length t < 80")
    case True
    have "?st = [] \<or> (\<exists>c. ?st = [c] \<and> c \<noteq> CHR 0x00)" by (auto simp: sign_text_def)
    from flt_rest_put[OF this True _ assms(2,3), of ?f out] show ?thesis
      using True rest flags[of 4] flags[of 0] float_text_NUL by (simp add: float_field_def justify_def Let_def t_def algebra_simps)
  qed (simp add: rest)
qed

theorem conv_float_text_witness:
  "conv_float thousandths_ops 0 8 2 (- 3142) (replicate 100 (CHR 0x00), 0) = put_all ''   -3.14'' (replicate 100 (CHR 0x00), 0)"
proof -
  have c: "dec_char 3 = CHR ''3''" "dec_char 1 = CHR ''1''" "dec_char 4 = CHR ''4''" by code_simp+
  have m: "thousandths (- 3142) 2 = 314" by (simp add: thousandths_def)
  have "frac_text 2 k = [dec_char (k div 10 mod 10), dec_char (k mod 10)]" for k by (simp add: numeral_2_eq_2)
  then have t: "float_text 0 2 314 = ''3.14''" "fixed_digits 2 314 = 3"
    by (simp_all add: float_text_def fixed_text_def fixed_digits_def num_text_digit c[unfolded One_nat_def])
  have "bit SIGN (Suc 0)" by (simp add: SIGN_def bit_simps)
  then have "float_field 0 8 True ''3.14'' = ''   -3.14''"
    by (simp add: float_field_def sign_text_def justify_def Let_def numeral_3_eq_3)
  then show ?thesis
    using conv_float_text[OF thousandths_laws, of 8 2 "- 3142" 0] by (simp add: places_def m t in_s32_def thousandths_ops_def)
qed

text \<open>
  With an exponent in the text, \<open>decimal_point\<close> overwrites the \<open>e\<close> and copies the sign twice: \<open>n\<close> stops at 1, so the
  character at the point is not moved. \<open>cropzeros\<close> deletes the exponent. No conversion of \<open>ee_vsprintf\<close> reaches either case.
\<close>

lemma decimal_point_exponent: "decimal_point (tmp_text ''1e+005'') = Some (tmp_text ''1.++005'')"
  by code_simp

lemma cropzeros_exponent: "cropzeros (tmp_text ''1.500e+005'') = Some (put_at (tmp_text ''1.500e+005'') 3 (replicate 3 (CHR 0x00)))"
  by code_simp

lemma cropzeros_plain: "cropzeros (tmp_text ''1.500'') = Some (put_at (tmp_text ''1.500'') 3 (replicate 2 (CHR 0x00)))"
  by code_simp

end
