(* ===== verification/Core_Main.thy ===== *)
theory Core_Main
  imports List_Init Ee_Printf
begin

text \<open>
  \<open>coremark/src/core_main.c\<close> with the timer of \<open>core_portme.c\<close>: \<open>iterate\<close>, and \<open>main\<close> in the order of its steps, seeds,
  division of the memory block, initialisation of the three algorithms, calibration of the iteration
  count, the timed run, the check of the results against the known checksums, and the reports. As configured by
  \<open>core_portme.h\<close>: one context (\<open>MULTITHREAD\<close> 1), the memory block on the stack, seeds from volatile variables, no
  floating point.

  The contents of the memory block before the run are arbitrary: they are the cells, arrays and bytes of the
  results record that the run starts from.
\<close>

section \<open>The code\<close>

subsection \<open>The port: timer\<close>

text \<open>The machine timer is hardware: \<open>mt n\<close> is the value its \<open>n\<close>-th read shows.\<close>

record port =
  portable_id :: ee_u8
  start_time_val :: ee_u32
  stop_time_val :: ee_u32
  mtime_reads :: nat

definition barebones_clock :: "(nat \<Rightarrow> ee_u32) \<Rightarrow> port \<Rightarrow> ee_u32 \<times> port" where
  "barebones_clock mt p = (mt (mtime_reads p), p\<lparr>mtime_reads := mtime_reads p + 1\<rparr>)"

definition start_time :: "(nat \<Rightarrow> ee_u32) \<Rightarrow> port \<Rightarrow> port" where
  "start_time mt p = (let (v, p) = barebones_clock mt p in p\<lparr>start_time_val := v\<rparr>)"

definition stop_time :: "(nat \<Rightarrow> ee_u32) \<Rightarrow> port \<Rightarrow> port" where
  "stop_time mt p = (let (v, p) = barebones_clock mt p in p\<lparr>stop_time_val := v\<rparr>)"

definition get_time :: "port \<Rightarrow> ee_u32" where
  "get_time p = stop_time_val p - start_time_val p"

definition EE_TICKS_PER_SEC :: ee_u32 where
  "EE_TICKS_PER_SEC = 50000000"

definition time_in_secs :: "ee_u32 \<Rightarrow> ee_u32" where
  "time_in_secs ticks = ticks div EE_TICKS_PER_SEC"

definition portable_init :: "port \<Rightarrow> port" where
  "portable_init p = p\<lparr>portable_id := 1\<rparr>"

definition portable_fini :: "port \<Rightarrow> port" where
  "portable_fini p = p\<lparr>portable_id := 0\<rparr>"

subsection \<open>\<open>iterate\<close>\<close>

definition iterate_step :: "nat \<Rightarrow> core_results \<Rightarrow> core_results option" where
  "iterate_step i res =
     do { (crc, res) \<leftarrow> core_bench_list res 1;
          let res = res\<lparr>rcrc := crcu16 crc (rcrc res)\<rparr>;
          (crc, res) \<leftarrow> core_bench_list res (-1);
          let res = res\<lparr>rcrc := crcu16 crc (rcrc res)\<rparr>;
          Some (if i = 0 then res\<lparr>crclist := rcrc res\<rparr> else res) }"

definition iterate :: "core_results \<Rightarrow> core_results option" where
  "iterate res =
     for_loop 0 (unat (iterations res)) iterate_step
       (res\<lparr>rcrc := 0, crclist := 0, crcmatrix := 0, crcstate := 0\<rparr>)"

subsection \<open>Seeds and memory\<close>

definition ID_LIST :: ee_u32 where "ID_LIST = push_bit 0 1"
definition ID_MATRIX :: ee_u32 where "ID_MATRIX = push_bit 1 1"
definition ID_STATE :: ee_u32 where "ID_STATE = push_bit 2 1"
definition ALL_ALGORITHMS_MASK :: ee_u32 where "ALL_ALGORITHMS_MASK = ID_LIST OR ID_MATRIX OR ID_STATE"
definition NUM_ALGORITHMS :: nat where "NUM_ALGORITHMS = 3"
definition TOTAL_DATA_SIZE :: ee_u32 where "TOTAL_DATA_SIZE = 2 * 1000"

definition main_seeds :: "seeds \<Rightarrow> core_results \<Rightarrow> core_results" where
  "main_seeds v res =
     (let res = res\<lparr>seed1 := get_seed v 1, seed2 := get_seed v 2, seed3 := get_seed v 3,
                     iterations := get_seed_32 v 4, execs := get_seed_32 v 5\<rparr>;
          res = (if execs res = 0 then res\<lparr>execs := ALL_ALGORITHMS_MASK\<rparr> else res);
          res = (if seed1 res = 0 \<and> seed2 res = 0 \<and> seed3 res = 0
                 then res\<lparr>seed1 := 0, seed2 := 0, seed3 := 0x66\<rparr> else res);
          res = (if seed1 res = 1 \<and> seed2 res = 0 \<and> seed3 res = 0
                 then res\<lparr>seed1 := 0x3415, seed2 := 0x3415, seed3 := 0x66\<rparr> else res)
      in res\<lparr>rsize := TOTAL_DATA_SIZE, err := 0\<rparr>)"

text \<open>How many algorithms run, and the address of each one's block; unused entries keep no address.\<close>

definition num_algorithms :: "ee_u32 \<Rightarrow> ee_u16" where
  "num_algorithms ex =
     fold (\<lambda>i n. if push_bit i 1 AND ex \<noteq> 0 then n + 1 else n) [0..<NUM_ALGORITHMS] 0"

definition assign_pointers :: "ee_u32 \<Rightarrow> ee_u32 \<Rightarrow> ee_u32 \<Rightarrow> ee_u32 option list" where
  "assign_pointers base sz ex =
     fst (fold (\<lambda>i (ms, j). if push_bit i 1 AND ex \<noteq> 0 then (ms[i := Some (base + sz * j)], j + 1) else (ms, j))
       [0..<NUM_ALGORITHMS] (replicate NUM_ALGORITHMS None, 0))"

text \<open>Division by zero is undefined.\<close>

definition div_u32 :: "ee_u32 \<Rightarrow> ee_u32 \<Rightarrow> ee_u32 option" where
  "div_u32 a b = (if b = 0 then None else Some (a div b))"

definition init_list :: "core_results \<Rightarrow> core_results option" where
  "init_list res =
     (if execs res AND ID_LIST \<noteq> 0 then
        do { (l, res) \<leftarrow> core_list_init (rsize res) 0 0 (seed1 res) res; Some (res\<lparr>rlist := l\<rparr>) }
      else Some res)"

definition init_matrix :: "ee_u32 option \<Rightarrow> core_results \<Rightarrow> core_results option" where
  "init_matrix memblk res =
     (if execs res AND ID_MATRIX \<noteq> 0 then
        do { memblk \<leftarrow> memblk;
             let seed = scast (seed1 res) OR push_bit 16 (scast (seed2 res));
             (_, _, p) \<leftarrow> core_init_matrix (rsize res) memblk seed (mat_A (mat res)) (mat_B (mat res)) (mat_C (mat res));
             Some (res\<lparr>mat := p\<rparr>) }
      else Some res)"

definition init_state :: "core_results \<Rightarrow> core_results option" where
  "init_state res =
     (if execs res AND ID_STATE \<noteq> 0 then
        do { m \<leftarrow> core_init_state (rsize res) (seed1 res) (memblock3 res); Some (res\<lparr>memblock3 := m\<rparr>) }
      else Some res)"

definition main_init :: "ee_u32 \<Rightarrow> seeds \<Rightarrow> core_results \<Rightarrow> core_results option" where
  "main_init base v res =
     do { let res = main_seeds v res;
          sz \<leftarrow> div_u32 (rsize res) (ucast (num_algorithms (execs res)));
          let res = res\<lparr>rsize := sz\<rparr>;
          let blocks = assign_pointers base sz (execs res);
          res \<leftarrow> init_list res;
          res \<leftarrow> init_matrix (blocks ! 1) res;
          init_state res }"

subsection \<open>The timed run\<close>

text \<open>
  The iteration count is determined when the seeds leave it open: ten times more iterations until a run takes a second.
\<close>

partial_function (option) calibrate_loop ::
  "(nat \<Rightarrow> ee_u32) \<Rightarrow> ee_u32 \<Rightarrow> core_results \<Rightarrow> port \<Rightarrow> (ee_u32 \<times> core_results \<times> port) option" where
  "calibrate_loop mt secs_passed res p =
     (if secs_passed < 1 then
        do { let res = res\<lparr>iterations := iterations res * 10\<rparr>;
             let p = start_time mt p;
             res \<leftarrow> iterate res;
             let p = stop_time mt p;
             calibrate_loop mt (time_in_secs (get_time p)) res p }
      else Some (secs_passed, res, p))"

declare calibrate_loop.simps [code]

definition calibrate :: "(nat \<Rightarrow> ee_u32) \<Rightarrow> core_results \<Rightarrow> port \<Rightarrow> (core_results \<times> port) option" where
  "calibrate mt res p =
     (if iterations res = 0 then
        do { (secs_passed, res, p) \<leftarrow> calibrate_loop mt 0 (res\<lparr>iterations := 1\<rparr>) p;
             let divisor = (if secs_passed = 0 then 1 else secs_passed);
             Some (res\<lparr>iterations := iterations res * (1 + 10 div divisor)\<rparr>, p) }
      else Some (res, p))"

definition timed_run :: "(nat \<Rightarrow> ee_u32) \<Rightarrow> core_results \<Rightarrow> port \<Rightarrow> (core_results \<times> port) option" where
  "timed_run mt res p =
     do { let p = start_time mt p;
          res \<leftarrow> iterate res;
          Some (res, stop_time mt p) }"

subsection \<open>The check\<close>

definition list_known_crc :: "ee_u16 list" where
  "list_known_crc = [0xd4b0, 0x3340, 0x6a79, 0xe714, 0xe3c1]"

definition matrix_known_crc :: "ee_u16 list" where
  "matrix_known_crc = [0xbe52, 0x1199, 0x5608, 0x1fd7, 0x0747]"

definition state_known_crc :: "ee_u16 list" where
  "state_known_crc = [0x5e47, 0x39bf, 0xe5a4, 0x8e3a, 0x8d84]"

definition seed_crc :: "core_results \<Rightarrow> ee_u16" where
  "seed_crc res = crc16 (ucast (rsize res)) (crc16 (seed3 res) (crc16 (seed2 res) (crc16 (seed1 res) 0)))"

text \<open>A call of \<open>ee_printf\<close>: the format, without its NUL, and the arguments.\<close>

type_synonym printf_call = "string \<times> va_val list"

text \<open>The index into the tables (\<open>None\<close> for -1) and the message.\<close>

definition known_id :: "ee_u16 \<Rightarrow> (nat \<times> string) option" where
  "known_id seedcrc =
     (if seedcrc = 0x8a02 then Some (0, ''6k performance run parameters for coremark.'')
      else if seedcrc = 0x7b05 then Some (1, ''6k validation run parameters for coremark.'')
      else if seedcrc = 0x4eaf then Some (2, ''Profile generation run parameters for coremark.'')
      else if seedcrc = 0xe9f5 then Some (3, ''2K performance run parameters for coremark.'')
      else if seedcrc = 0x18f2 then Some (4, ''2K validation run parameters for coremark.'')
      else None)"

definition check_crc ::
  "string \<Rightarrow> bool \<Rightarrow> ee_u16 \<Rightarrow> ee_u16 list \<Rightarrow> nat \<Rightarrow> ee_s16 \<times> printf_call list \<Rightarrow> (ee_s16 \<times> printf_call list) option" where
  "check_crc name exec crc table k = (\<lambda>(e, calls).
     do { known \<leftarrow> rd table k;
          Some (if exec \<and> crc \<noteq> known
                then (e + 1, calls @ [(line (''[%u]ERROR! '' @ name @ '' crc 0x%04x - should be 0x%04x''),
                        [VWord 0, VWord (ucast crc), VWord (ucast known)])])
                else (e, calls)) })"

text \<open>The number of errors (-1 when the seeds are unknown) and the messages.\<close>

definition check_results ::
  "type_sizes \<Rightarrow> core_results \<Rightarrow> (ee_s16 \<times> core_results \<times> printf_call list) option" where
  "check_results sizes res =
     (let (type_errors, msgs) = check_data_types sizes in
      case known_id (seed_crc res) of
        None \<Rightarrow> Some (- 1 + ucast type_errors, res, map (\<lambda>m. (line m, [])) msgs)
      | Some (k, msg) \<Rightarrow>
          do { (e, calls) \<leftarrow> check_crc ''list'' (execs res AND ID_LIST \<noteq> 0) (crclist res) list_known_crc k
                 (0, [(line msg, [])]);
               (e, calls) \<leftarrow> check_crc ''matrix'' (execs res AND ID_MATRIX \<noteq> 0) (crcmatrix res) matrix_known_crc k (e, calls);
               (e, calls) \<leftarrow> check_crc ''state'' (execs res AND ID_STATE \<noteq> 0) (crcstate res) state_known_crc k (e, calls);
               Some (0 + e + ucast type_errors, res\<lparr>err := e\<rparr>, calls @ map (\<lambda>m. (line m, [])) msgs) })"

subsection \<open>The reports\<close>

text \<open>\<open>(iterations * c) / total_time\<close> in \<open>unsigned long long\<close>.\<close>

definition rate :: "ee_u32 \<Rightarrow> 64 word \<Rightarrow> ee_u32 \<Rightarrow> 64 word option" where
  "rate iters c total_time =
     (if total_time = 0 then None else Some (ucast iters * c div ucast total_time))"

definition report_times :: "core_results \<Rightarrow> ee_u32 \<Rightarrow> printf_call list option" where
  "report_times res total_time =
     do { cycles \<leftarrow> div_u32 total_time (iterations res);
          mhz \<leftarrow> rate (iterations res) 1000000 total_time;
          mhz100 \<leftarrow> rate (iterations res) 100000000 total_time;
          let secs = time_in_secs total_time;
          per_sec \<leftarrow> (if 0 < secs then map_option (\<lambda>n. [(line ''Iterations/Sec   : %d'', [VWord n])]) (div_u32 (1 * iterations res) secs)
                     else Some []);
          Some ([(line ''CoreMark Size    : %lu'', [VWord (rsize res)]),
                 (line ''Total ticks      : %lu'', [VWord total_time]),
                 (line ''Total cycles     : %lu'', [VWord total_time]),
                 (line ''Cycles/Iteration : %lu'', [VWord cycles]),
                 (line ''CoreMark/MHz     : %lu.%02lu'', [VWord (ucast mhz), VWord (ucast (mhz100 mod 100))]),
                 (line ''Total time (secs): %d'', [VWord secs])] @ per_sec) }"

definition report_crcs :: "string \<Rightarrow> core_results \<Rightarrow> printf_call list" where
  "report_crcs compiler_flags res =
     [(line ''Iterations       : %lu'', [VWord (1 * iterations res)]),
      (line ''Compiler version : %s'', [VStr (Some (c_str ''GCC''))]),
      (line ''Compiler flags   : %s'', [VStr (Some (c_str compiler_flags))]),
      (line ''Memory location  : %s'', [VStr (Some (c_str ''DRAM''))]),
      (line ''seedcrc          : 0x%04x'', [VWord (ucast (seed_crc res))])] @
     (if execs res AND ID_LIST \<noteq> 0 then [(line ''[%d]crclist       : 0x%04x'', [VWord 0, VWord (ucast (crclist res))])] else []) @
     (if execs res AND ID_MATRIX \<noteq> 0 then [(line ''[%d]crcmatrix     : 0x%04x'', [VWord 0, VWord (ucast (crcmatrix res))])] else []) @
     (if execs res AND ID_STATE \<noteq> 0 then [(line ''[%d]crcstate      : 0x%04x'', [VWord 0, VWord (ucast (crcstate res))])] else []) @
     [(line ''[%d]crcfinal      : 0x%04x'', [VWord 0, VWord (ucast (rcrc res))])]"

definition report_verdict :: "ee_s16 \<Rightarrow> printf_call list" where
  "report_verdict total_errors =
     (if total_errors = 0
      then [(line ''Correct operation validated. See README.md for run and reporting rules.'', [])] else []) @
     (if 0 <s total_errors then [(line ''Errors detected'', [])] else []) @
     (if total_errors <s 0
      then [(line ''Cannot validate operation for these seed values, please compare with results on a known platform.'', [])]
      else [])"

subsection \<open>\<open>main\<close>\<close>

text \<open>The calls of \<open>ee_printf\<close>, in order.\<close>

fun print_all :: "status \<Rightarrow> printf_call list \<Rightarrow> uart \<Rightarrow> uart option" where
  "print_all st [] u = Some u"
| "print_all st ((fmt, args) # calls) u =
     do { (_, u) \<leftarrow> ee_printf st (c_str fmt) args u; print_all st calls u }"

definition core_main ::
  "(nat \<Rightarrow> ee_u32) \<Rightarrow> type_sizes \<Rightarrow> string \<Rightarrow> ee_u32 \<Rightarrow> seeds \<Rightarrow> core_results \<Rightarrow> port \<Rightarrow>
   (ee_s16 \<times> core_results \<times> port \<times> printf_call list) option" where
  "core_main mt sizes compiler_flags base v res p =
     do { let p = portable_init p;
          res \<leftarrow> main_init base v res;
          (res, p) \<leftarrow> calibrate mt res p;
          (res, p) \<leftarrow> timed_run mt res p;
          let total_time = get_time p;
          (total_errors, res, calls) \<leftarrow> check_results sizes res;
          times \<leftarrow> report_times res total_time;
          Some (total_errors, res, portable_fini p,
                calls @ times @ report_crcs compiler_flags res @ report_verdict total_errors) }"

definition main_prints ::
  "status \<Rightarrow> (nat \<Rightarrow> ee_u32) \<Rightarrow> type_sizes \<Rightarrow> string \<Rightarrow> ee_u32 \<Rightarrow> seeds \<Rightarrow> core_results \<Rightarrow> port \<Rightarrow> uart \<Rightarrow> (int \<times> uart) option" where
  "main_prints st mt sizes compiler_flags base v res p u =
     do { (_, _, _, calls) \<leftarrow> core_main mt sizes compiler_flags base v res p;
          u \<leftarrow> print_all st calls u;
          Some (0, u) }"

section \<open>Iterations\<close>

text \<open>\<open>iterate\<close> starts from cleared checksums.\<close>

definition clear_crcs :: "core_results \<Rightarrow> core_results" where
  "clear_crcs r = r\<lparr>rcrc := 0, crclist := 0, crcmatrix := 0, crcstate := 0\<rparr>"

text \<open>Everything but the checksums and the contents of the result matrix is as before.\<close>

definition same_input :: "core_results \<Rightarrow> core_results \<Rightarrow> bool" where
  "same_input r t \<longleftrightarrow> heads t = heads r \<and> datas t = datas r \<and> frame (clear_crcs r) (clear_crcs t)"

lemma same_input_refl [simp]: "same_input r r"
  by (simp add: same_input_def)

lemma same_input_trans: "same_input r s \<Longrightarrow> same_input s t \<Longrightarrow> same_input r t"
  by (auto simp: same_input_def intro: frame_trans)

lemma same_input_clear: "same_input r (clear_crcs r)"
  by (simp add: same_input_def clear_crcs_def)

lemma clear_crcs_upd [simp]:
  "clear_crcs (r\<lparr>rcrc := c\<rparr>) = clear_crcs r" "clear_crcs (r\<lparr>crclist := c\<rparr>) = clear_crcs r"
  by (simp_all add: clear_crcs_def)

lemma list_ready_cong:
  assumes "heads t = heads r" "datas t = datas r" "rlist t = rlist r"
  shows "list_ready t xs = list_ready r xs"
proof -
  have "node_data t = node_data r" "node_idx t = node_idx r" "regenerated t = regenerated r"
    using assms by (auto intro!: ext simp: node_data_def node_idx_def idx_key_def regenerated_def)
  with assms show ?thesis by (simp add: list_ready_def)
qed

lemma list_ready_same: "same_input r t \<Longrightarrow> list_ready r xs \<Longrightarrow> list_ready t xs"
  using list_ready_cong[of t r xs] by (simp add: same_input_def frame_def clear_crcs_def)

lemma bench_ok_same:
  assumes "same_input r t" "bench_ok r"
  shows "bench_ok t"
proof -
  have c: "bench_ok (clear_crcs s) = bench_ok s" for s by (simp add: bench_ok_def state_ok_def clear_crcs_def)
  show ?thesis using bench_ok_frame[of "clear_crcs r" "clear_crcs t"] assms by (simp add: c same_input_def)
qed

text \<open>One call of the list benchmark, with the update of the running checksum.\<close>

lemma bench_once:
  assumes "list_ready r xs" "bench_ok r"
  shows "\<exists>crc t. core_bench_list r k = Some (crc, t) \<and> same_input r t \<and> crclist t = crclist r \<and>
    (crcmatrix r \<noteq> 0 \<longrightarrow> crcmatrix t = crcmatrix r) \<and> (crcstate r \<noteq> 0 \<longrightarrow> crcstate t = crcstate r)"
proof -
  obtain crc t where "core_bench_list r k = Some (crc, t)" "heads t = heads r" "datas t = datas r" "frame r t"
    using core_bench_list_total[OF assms] by blast
  then show ?thesis by (intro exI[of _ crc] exI[of _ t]) (auto simp: same_input_def frame_def clear_crcs_def)
qed

lemma iterate_step_total:
  assumes "list_ready r xs" "bench_ok r"
  shows "\<exists>t. iterate_step i r = Some t \<and> same_input r t \<and> (0 < i \<longrightarrow> crclist t = crclist r) \<and>
    (crcmatrix r \<noteq> 0 \<longrightarrow> crcmatrix t = crcmatrix r) \<and> (crcstate r \<noteq> 0 \<longrightarrow> crcstate t = crcstate r)"
proof -
  obtain c1 t1 where t1: "core_bench_list r 1 = Some (c1, t1)" "same_input r t1" "crclist t1 = crclist r"
    "crcmatrix r \<noteq> 0 \<Longrightarrow> crcmatrix t1 = crcmatrix r" "crcstate r \<noteq> 0 \<Longrightarrow> crcstate t1 = crcstate r"
    using bench_once[OF assms] by blast
  let ?r = "t1\<lparr>rcrc := crcu16 c1 (rcrc t1)\<rparr>"
  have in1: "same_input r ?r" using t1(2) by (simp add: same_input_def)
  obtain c2 t2 where t2: "core_bench_list ?r (-1) = Some (c2, t2)" "same_input ?r t2" "crclist t2 = crclist ?r"
    "crcmatrix ?r \<noteq> 0 \<Longrightarrow> crcmatrix t2 = crcmatrix ?r" "crcstate ?r \<noteq> 0 \<Longrightarrow> crcstate t2 = crcstate ?r"
    using bench_once[OF list_ready_same[OF in1 assms(1)] bench_ok_same[OF in1 assms(2)]] by blast
  have "same_input r t2" by (rule same_input_trans[OF in1 t2(2)])
  with t1 t2(1,3-5) show ?thesis by (auto simp: iterate_step_def same_input_def Let_def)
qed

lemma iterate_steps:
  assumes "list_ready r xs" "bench_ok r" "0 < a"
  shows "\<exists>t. for_loop a n iterate_step r = Some t \<and> same_input r t \<and> crclist t = crclist r \<and>
    (crcmatrix r \<noteq> 0 \<longrightarrow> crcmatrix t = crcmatrix r) \<and> (crcstate r \<noteq> 0 \<longrightarrow> crcstate t = crcstate r)"
proof (rule for_loop_rule[where I = "\<lambda>i t. same_input r t \<and> crclist t = crclist r \<and>
    (crcmatrix r \<noteq> 0 \<longrightarrow> crcmatrix t = crcmatrix r) \<and> (crcstate r \<noteq> 0 \<longrightarrow> crcstate t = crcstate r)"])
  fix i t assume i: "a \<le> i" and t: "same_input r t \<and> crclist t = crclist r \<and>
    (crcmatrix r \<noteq> 0 \<longrightarrow> crcmatrix t = crcmatrix r) \<and> (crcstate r \<noteq> 0 \<longrightarrow> crcstate t = crcstate r)"
  obtain t' where "iterate_step i t = Some t'" "same_input t t'" "0 < i \<longrightarrow> crclist t' = crclist t"
    "crcmatrix t \<noteq> 0 \<longrightarrow> crcmatrix t' = crcmatrix t" "crcstate t \<noteq> 0 \<longrightarrow> crcstate t' = crcstate t"
    using iterate_step_total[OF list_ready_same bench_ok_same, of r t xs] assms t by blast
  with t i assms(3) show "\<exists>t'. iterate_step i t = Some t' \<and> same_input r t' \<and> crclist t' = crclist r \<and>
    (crcmatrix r \<noteq> 0 \<longrightarrow> crcmatrix t' = crcmatrix r) \<and> (crcstate r \<noteq> 0 \<longrightarrow> crcstate t' = crcstate r)"
    by (auto intro: same_input_trans)
qed simp

text \<open>The first iteration decides the checksums that are compared; the others leave them as they are.\<close>

lemma iterate_first:
  assumes "list_ready r xs" "bench_ok r" "0 < unat (iterations r)"
  shows "\<exists>t1 t. iterate_step 0 (clear_crcs r) = Some t1 \<and> iterate r = Some t \<and> same_input r t \<and> crclist t = crclist t1 \<and>
    (crcmatrix t1 \<noteq> 0 \<longrightarrow> crcmatrix t = crcmatrix t1) \<and> (crcstate t1 \<noteq> 0 \<longrightarrow> crcstate t = crcstate t1)"
proof -
  obtain n where n: "unat (iterations r) = Suc n" using assms(3) gr0_conv_Suc by auto
  have r: "list_ready (clear_crcs r) xs" "bench_ok (clear_crcs r)"
    using list_ready_same bench_ok_same same_input_clear assms(1,2) by blast+
  obtain t1 where t1: "iterate_step 0 (clear_crcs r) = Some t1" "same_input (clear_crcs r) t1"
    using iterate_step_total[OF r] by blast
  obtain t where t: "for_loop (Suc 0) n iterate_step t1 = Some t" "same_input t1 t" "crclist t = crclist t1"
    "crcmatrix t1 \<noteq> 0 \<longrightarrow> crcmatrix t = crcmatrix t1" "crcstate t1 \<noteq> 0 \<longrightarrow> crcstate t = crcstate t1"
    using iterate_steps[OF list_ready_same[OF t1(2) r(1)] bench_ok_same[OF t1(2) r(2)], of "Suc 0" n] by auto
  have "iterate r = Some t" using n t1(1) t(1) by (simp add: iterate_def clear_crcs_def)
  moreover have "same_input r t" using same_input_trans same_input_clear t1(2) t(2) by blast
  ultimately show ?thesis using t1(1) t(3-5) by blast
qed

lemma iterate_total:
  assumes "list_ready r xs" "bench_ok r"
  shows "\<exists>t. iterate r = Some t \<and> same_input r t \<and> list_ready t xs \<and> bench_ok t"
proof (cases "unat (iterations r)")
  case 0
  then have "iterate r = Some (clear_crcs r)" by (simp add: iterate_def clear_crcs_def)
  then show ?thesis
    using same_input_clear list_ready_same bench_ok_same assms by blast
next
  case (Suc n)
  then show ?thesis using iterate_first[OF assms] list_ready_same bench_ok_same assms by (metis zero_less_Suc)
qed

section \<open>Initialisation\<close>

lemma exec_bits: "num_algorithms 7 = 3" "ALL_ALGORITHMS_MASK = 7" "7 AND ID_LIST \<noteq> 0" "7 AND ID_MATRIX \<noteq> 0" "7 AND ID_STATE \<noteq> 0"
  by code_simp+

text \<open>
  What the memory block has to provide: room for the list, the matrices and the state input in their areas.
\<close>

definition raw_memory :: "core_results \<Rightarrow> bool" where
  "raw_memory r \<longleftrightarrow> {0..<31} \<subseteq> dom (heads r) \<and> {0..<31} \<subseteq> dom (datas r) \<and> length (memblock3 r) = 666 \<and>
     length (mat_A (mat r)) = 81 \<and> length (mat_B (mat r)) = 81 \<and> length (mat_C (mat r)) = 81"

lemma standard_sizes: "unat (list_items 666) = 31" "unat (666 :: ee_u32) = 666"
  by code_simp+

text \<open>The three initialisations of a run of all algorithms, on 666 bytes each.\<close>

lemma more_fields:
  fixes r t :: core_results
  assumes "store.more t = store.more r"
  shows "seed1 t = seed1 r" "seed2 t = seed2 r" "seed3 t = seed3 r" "memblock3 t = memblock3 r" "rsize t = rsize r"
    "iterations t = iterations r" "execs t = execs r" "mat t = mat r"
  using assms by (cases t; cases r; simp)+

lemma list_ready_upd [simp]:
  "list_ready (r\<lparr>mat := p\<rparr>) xs = list_ready r xs" "list_ready (r\<lparr>memblock3 := m\<rparr>) xs = list_ready r xs"
  by (rule list_ready_cong, simp_all)+

definition standard_mat :: "int \<Rightarrow> ee_s32 list \<Rightarrow> mat_params" where
  "standard_mat s C = \<lparr>mat_N = 9, mat_A = map (A_val s) [0..<81], mat_B = map (B_val s) [0..<81], mat_C = C\<rparr>"

lemma standard_matrix:
  assumes "length A = 81" "length B = 81" "length C = 81"
  shows "\<exists>N ptrs. core_init_matrix 666 b seed A B C = Some (N, ptrs, standard_mat (init_seed seed) C) \<and>
    mat_ok (standard_mat (init_seed seed) C)"
proof -
  have n: "8 * 9\<^sup>2 < unat (666 :: ee_u32)" "unat (666 :: ee_u32) \<le> 8 * (Suc 9)\<^sup>2" "8 * (Suc 9)\<^sup>2 < (2 :: nat) ^ 32"
    by (simp_all add: standard_sizes)
  have "mat_ok (standard_mat (init_seed seed) C)"
    using matrix_test_standard[OF _ _ assms(3), of _ "init_seed seed"] assms(3) by (simp add: mat_ok_def standard_mat_def)
  then show ?thesis using core_init_matrix_eq[OF n, of A B b seed C] assms by (auto simp: standard_mat_def)
qed

lemma standard_state:
  assumes "length p = 666" "\<forall>c\<in>insert 0 (set pattern_bytes). c XOR ucast s \<noteq> 44"
  shows "\<exists>m. core_init_state 666 s p = Some m \<and> block_ok 666 m \<and> (\<forall>i<666. m ! i \<noteq> 44 \<longrightarrow> m ! i XOR ucast s \<noteq> 44)"
proof -
  have sz: "2 \<le> unat (666 :: ee_u32)" "unat (666 :: ee_u32) \<le> 2 ^ 31" "unat (666 :: ee_u32) \<le> length p"
    using assms(1) by (simp_all add: standard_sizes)
  obtain m where m: "core_init_state 666 s p = Some m" using core_init_state_eq(1)[OF sz] by blast
  note ok = core_init_state_block_ok[OF sz m]
  have "m ! i XOR ucast s \<noteq> 44" if "i < 666" "m ! i \<noteq> 44" for i
    using ok(3)[of i] that assms(2) by (auto simp: standard_sizes)
  with m ok(1) show ?thesis by blast
qed

text \<open>What the benchmarks work on, for equal seeds.\<close>

definition standard_input :: "ee_s16 \<Rightarrow> core_results \<Rightarrow> nat list \<Rightarrow> bool" where
  "standard_input s t xs \<longleftrightarrow> seed1 t = s \<and> seed2 t = s \<and> rsize t = 666 \<and>
     map (the \<circ> node_data t) xs = init_cells s (list_items 666) \<and>
     (\<exists>C. length C = 81 \<and> mat t = standard_mat (init_seed (scast s OR push_bit 16 (scast s))) C) \<and>
     (\<exists>p. length p = 666 \<and> core_init_state 666 s p = Some (memblock3 t))"

lemma init_algorithms:
  assumes "raw_memory r" "execs r = 7" "rsize r = 666" "seed1 r = s" "seed2 r = s"
    and "idx_distinct s (list_items 666)" "\<forall>c\<in>insert 0 (set pattern_bytes). c XOR ucast s \<noteq> 44"
  shows "\<exists>t xs. do { r \<leftarrow> init_list r; r \<leftarrow> init_matrix (Some b) r; init_state r } = Some t \<and> list_ready t xs \<and> bench_ok t \<and>
    standard_input s t xs \<and> execs t = 7 \<and> seed3 t = seed3 r \<and> iterations t = iterations r"
proof -
  have raw: "{0..<0 + 31} \<subseteq> dom (heads r)" "{0..<0 + 31} \<subseteq> dom (datas r)" "length (memblock3 r) = 666"
    "length (mat_A (mat r)) = 81" "length (mat_B (mat r)) = 81" "length (mat_C (mat r)) = 81"
    using assms(1) by (simp_all add: raw_memory_def)
  obtain s' xs where l: "core_list_init 666 0 0 s r = Some (Some 0, s')" "list_ready (s'\<lparr>rlist := Some 0\<rparr>) xs"
    "map (the \<circ> node_data (s'\<lparr>rlist := Some 0\<rparr>)) xs = init_cells s (list_items 666)" "store.more s' = store.more r"
    using core_list_init_ready[OF raw(1,2) standard_sizes(1)[symmetric] _ _ assms(6)] by auto
  let ?r1 = "s'\<lparr>rlist := Some 0\<rparr>"
  note f = more_fields[OF l(4)]
  obtain N ptrs p where p0: "core_init_matrix 666 b (scast s OR push_bit 16 (scast s)) (mat_A (mat r)) (mat_B (mat r)) (mat_C (mat r))
      = Some (N, ptrs, p)" "mat_ok p" "p = standard_mat (init_seed (scast s OR push_bit 16 (scast s))) (mat_C (mat r))"
    using standard_matrix[OF raw(4-6)] by blast
  note p = p0(1,2)
  obtain m where m: "core_init_state 666 s (memblock3 r) = Some m" "block_ok 666 m"
    "\<forall>i<666. m ! i \<noteq> 44 \<longrightarrow> m ! i XOR ucast s \<noteq> 44"
    using standard_state[OF raw(3) assms(7)] by blast
  let ?t = "?r1\<lparr>mat := p, memblock3 := m\<rparr>"
  have "init_list r = Some ?r1" "init_matrix (Some b) ?r1 = Some (?r1\<lparr>mat := p\<rparr>)" "init_state (?r1\<lparr>mat := p\<rparr>) = Some ?t"
    using l(1) p(1) m(1) assms(2-5) f exec_bits by (simp_all add: init_list_def init_matrix_def init_state_def Let_def)
  moreover have "bench_ok ?t" using p(2) m f assms by (simp add: bench_ok_def state_ok_def standard_sizes)
  moreover have "list_ready ?t xs" using l(2) by simp
  moreover have "node_data ?t = node_data ?r1" by (simp add: fun_eq_iff node_data_def)
  then have "standard_input s ?t xs" using l(3) p0(3) m(1) raw(3,6) f assms(3-5) unfolding standard_input_def by fastforce
  ultimately show ?thesis using f assms(2-5) by (intro exI[of _ ?t] exI[of _ xs]) simp
qed

text \<open>The seeds of the performance run and of the validation run, with their iteration count.\<close>

definition run_seeds :: "bool \<Rightarrow> ee_u32 \<Rightarrow> seeds" where
  "run_seeds validation n =
     (let s = (if validation then 0x3415 else 0)
      in \<lparr>seed1_volatile = s, seed2_volatile = s, seed3_volatile = 0x66, seed4_volatile = n, seed5_volatile = 0\<rparr>)"

definition run_seed :: "bool \<Rightarrow> ee_s16" where
  "run_seed validation = (if validation then 0x3415 else 0)"

text \<open>Their lists have distinct indices, and their state inputs survive the corruption.\<close>

lemma run_seed_ok:
  "idx_distinct (run_seed b) (list_items 666)" "\<forall>c\<in>insert 0 (set pattern_bytes). c XOR ucast (run_seed b) \<noteq> 44"
proof -
  have "idx_distinct 0x3415 (list_items 666)" "idx_distinct 0 (list_items 666)" by code_simp+
  then show "idx_distinct (run_seed b) (list_items 666)" by (simp add: run_seed_def)
  show "\<forall>c\<in>insert 0 (set pattern_bytes). c XOR ucast (run_seed b) \<noteq> 44"
    by (cases b) (simp_all add: run_seed_def pattern_bytes_def)
qed

lemma main_seeds_run:
  "seed1 (main_seeds (run_seeds b n) r) = run_seed b" "seed2 (main_seeds (run_seeds b n) r) = run_seed b"
  "seed3 (main_seeds (run_seeds b n) r) = 0x66" "iterations (main_seeds (run_seeds b n) r) = n"
  "execs (main_seeds (run_seeds b n) r) = 7" "rsize (main_seeds (run_seeds b n) r) = 2000"
  "raw_memory (main_seeds (run_seeds b n) r) = raw_memory r"
  by (cases b; simp add: main_seeds_def run_seeds_def run_seed_def get_seed_def get_seed_32_def Let_def exec_bits
    TOTAL_DATA_SIZE_def raw_memory_def)+

lemma main_init_run:
  assumes "raw_memory r"
  shows "\<exists>t xs. main_init base (run_seeds b n) r = Some t \<and> list_ready t xs \<and> bench_ok t \<and>
    standard_input (run_seed b) t xs \<and> execs t = 7 \<and> seed3 t = 0x66 \<and> iterations t = n"
proof -
  let ?r = "main_seeds (run_seeds b n) r"
  have d: "div_u32 2000 (ucast (num_algorithms 7)) = Some 666" by code_simp
  have "\<exists>a. assign_pointers base 666 7 ! 1 = Some a"
    by (simp add: assign_pointers_def NUM_ALGORITHMS_def upt_rec)
  then obtain a where a: "assign_pointers base 666 7 ! 1 = Some a" ..
  have "raw_memory (?r\<lparr>rsize := 666\<rparr>)" using assms main_seeds_run(7)[of b n r] by (simp add: raw_memory_def)
  from init_algorithms[OF this _ _ _ _ run_seed_ok, of b a] show ?thesis
    using d a by (auto simp: main_init_def main_seeds_run Let_def)
qed

section \<open>The verdict\<close>

definition all_known :: "nat \<Rightarrow> core_results \<Rightarrow> bool" where
  "all_known k r \<longleftrightarrow> crclist r = list_known_crc ! k \<and> crcmatrix r = matrix_known_crc ! k \<and> crcstate r = state_known_crc ! k"

lemma known_tables: "length list_known_crc = 5" "length matrix_known_crc = 5" "length state_known_crc = 5"
  by (simp_all add: list_known_crc_def matrix_known_crc_def state_known_crc_def)

lemma known_id_bound: "known_id c = Some (k, msg) \<Longrightarrow> k < 5"
  by (auto simp: known_id_def split: if_splits)

definition crc_error :: "string \<Rightarrow> ee_u16 \<Rightarrow> ee_u16 \<Rightarrow> printf_call list" where
  "crc_error name crc known =
     (if crc \<noteq> known then [(line (''[%u]ERROR! '' @ name @ '' crc 0x%04x - should be 0x%04x''),
        [VWord 0, VWord (ucast crc), VWord (ucast known)])] else [])"

lemma check_crc_eq:
  assumes "k < length table"
  shows "check_crc name True crc table k (e, calls) =
    Some (e + of_nat (length (crc_error name crc (table ! k))), calls @ crc_error name crc (table ! k))"
  using assms by (simp add: check_crc_def crc_error_def)

lemma check_results_known:
  assumes "known_id (seed_crc r) = Some (k, msg)" "execs r = 7"
  defines "errs \<equiv> crc_error ''list'' (crclist r) (list_known_crc ! k) @ crc_error ''matrix'' (crcmatrix r) (matrix_known_crc ! k) @
    crc_error ''state'' (crcstate r) (state_known_crc ! k)"
  shows "check_results ilp32 r = Some (of_nat (length errs), r\<lparr>err := of_nat (length errs)\<rparr>, (line msg, []) # errs)"
  using assms(1,2) known_id_bound[OF assms(1)] exec_bits
  by (simp add: check_results_def check_crc_eq known_tables check_data_types_ilp32 errs_def)

lemma errors_zero:
  "of_nat (length (crc_error n1 c1 k1 @ crc_error n2 c2 k2 @ crc_error n3 c3 k3)) = (0 :: ee_s16) \<longleftrightarrow> c1 = k1 \<and> c2 = k2 \<and> c3 = k3"
  by (auto simp: crc_error_def)

lemma report_verdict_iff:
  "(line ''Correct operation validated. See README.md for run and reporting rules.'', []) \<in> set (report_verdict e) \<longleftrightarrow> e = 0"
  by (auto simp: report_verdict_def line_def)

lemma seed_crc_run:
  assumes "seed1 t = run_seed b" "seed2 t = run_seed b" "seed3 t = 0x66" "rsize t = 666"
  shows "\<exists>msg. known_id (seed_crc t) = Some (if b then 4 else 3, msg)"
proof -
  have v: "crc16 0x3415 0 = 0x470f" "crc16 0x3415 0x470f = 0x854a" "crc16 0x66 0x854a = 0x63dd" "crc16 666 0x63dd = 0x18f2"
    by code_simp+
  have p: "crc16 0 0 = 0" "crc16 0x66 0 = 0xa02b" "crc16 666 0xa02b = 0xe9f5" by code_simp+
  have "seed_crc t = (if b then 0x18f2 else 0xe9f5)"
    using assms unfolding seed_crc_def by (cases b) (simp_all add: run_seed_def v p)
  then show ?thesis by (simp add: known_id_def)
qed

lemma report_times_total:
  assumes "iterations r \<noteq> 0" "total_time \<noteq> 0"
  shows "\<exists>calls. report_times r total_time = Some calls"
  using assms by (auto simp: report_times_def div_u32_def rate_def Let_def)

lemma last_verdict: "report_verdict e \<noteq> [] \<and> (last (report_verdict e) =
    (line ''Correct operation validated. See README.md for run and reporting rules.'', []) \<longleftrightarrow> e = 0)"
  by (cases "e = 0"; cases "e <s 0") (auto simp: report_verdict_def line_def word_sless_alt signed_eq_0_iff)

lemma core_main_run:
  assumes "raw_memory r" "n \<noteq> 0" "mt (Suc (mtime_reads p)) \<noteq> mt (mtime_reads p)"
  shows "\<exists>e t p' calls. core_main mt ilp32 cflags base (run_seeds b n) r p = Some (e, t, p', calls) \<and>
    (e = 0 \<longleftrightarrow> all_known (if b then 4 else 3) t) \<and>
    (last calls = (line ''Correct operation validated. See README.md for run and reporting rules.'', []) \<longleftrightarrow> e = 0) \<and>
    known_id (seed_crc t) \<noteq> None \<and> execs t = 7 \<and> iterations t = n \<and>
    (\<exists>s u. main_init base (run_seeds b n) r = Some s \<and> iterate s = Some u \<and> t = u\<lparr>err := e\<rparr>)"
proof -
  let ?k = "if b then 4 else 3 :: nat" and ?p = "portable_init p"
  obtain t xs where t: "main_init base (run_seeds b n) r = Some t" "list_ready t xs" "bench_ok t" "execs t = 7" "rsize t = 666"
    "seed1 t = run_seed b" "seed2 t = run_seed b" "seed3 t = 0x66" "iterations t = n"
    using main_init_run[OF assms(1)] unfolding standard_input_def by blast
  obtain u where u: "iterate t = Some u" "same_input t u" using iterate_total[OF t(2,3)] by blast
  then have f: "execs u = 7" "rsize u = 666" "seed1 u = run_seed b" "seed2 u = run_seed b" "seed3 u = 0x66" "iterations u = n"
    using t(4-9) by (simp_all add: same_input_def frame_def clear_crcs_def)
  obtain msg where k: "known_id (seed_crc u) = Some (?k, msg)" using seed_crc_run[OF f(3-5,2)] by blast
  let ?p' = "stop_time mt (start_time mt ?p)"
  have time: "get_time ?p' = mt (Suc (mtime_reads p)) - mt (mtime_reads p)"
    by (simp add: get_time_def stop_time_def start_time_def barebones_clock_def portable_init_def)
  define errs where "errs = crc_error ''list'' (crclist u) (list_known_crc ! ?k) @ crc_error ''matrix'' (crcmatrix u) (matrix_known_crc ! ?k) @
    crc_error ''state'' (crcstate u) (state_known_crc ! ?k)"
  define e :: ee_s16 where "e = of_nat (length errs)"
  have chk: "check_results ilp32 u = Some (e, u\<lparr>err := e\<rparr>, (line msg, []) # errs)"
    unfolding e_def errs_def by (rule check_results_known[OF k f(1)])
  obtain times where times: "report_times (u\<lparr>err := e\<rparr>) (get_time ?p') = Some times"
    using report_times_total[of "u\<lparr>err := e\<rparr>" "get_time ?p'"] f(6) assms(2,3) time by auto
  have "core_main mt ilp32 cflags base (run_seeds b n) r p = Some (e, u\<lparr>err := e\<rparr>, portable_fini ?p',
      ((line msg, []) # errs) @ times @ report_crcs cflags (u\<lparr>err := e\<rparr>) @ report_verdict e)"
    using t(1,9) u(1) assms(2) chk times by (simp add: core_main_def calibrate_def timed_run_def Let_def)
  moreover have "e = 0 \<longleftrightarrow> all_known ?k (u\<lparr>err := e\<rparr>)" unfolding e_def errs_def errors_zero by (simp add: all_known_def)
  moreover have "seed_crc (u\<lparr>err := e\<rparr>) = seed_crc u" by (simp add: seed_crc_def)
  ultimately show ?thesis using last_verdict[of e] k f t(1) u(1) by (simp add: last_append)
qed

section \<open>Printing the reports\<close>

text \<open>A format (without its NUL) and arguments whose text has at most \<open>k\<close> characters.\<close>

definition printable :: "nat \<Rightarrow> string \<Rightarrow> va_val list \<Rightarrow> bool" where
  "printable k f args \<longleftrightarrow> (\<exists>t. format_text (c_str f) args = Some t \<and> length t \<le> k)"

lemma printable_mono: "printable k f args \<Longrightarrow> k \<le> l \<Longrightarrow> printable l f args"
  by (auto simp: printable_def)

lemma printable_end: "printable 0 [] args"
  by (simp add: printable_def c_str_def format_text.simps[of "[CHR 0x00]"])

lemma printable_lit:
  assumes "c \<noteq> CHR ''%''" "c \<noteq> CHR 0x00" "printable k f args"
  shows "printable (Suc k) (c # f) args"
  using assms by (auto simp: printable_def c_str_def format_text.simps[of "c # f @ [CHR 0x00]"])

lemma printable_text:
  "CHR ''%'' \<notin> set s \<Longrightarrow> CHR 0x00 \<notin> set s \<Longrightarrow> printable k f args \<Longrightarrow> printable (length s + k) (s @ f) args"
  by (induction s) (auto intro: printable_lit)

lemma printable_conv:
  assumes "parse_spec (c_str f) args = Some (q, fl, w, p, fmt, args1)"
    "conv_text q fl w p fmt args1 = Some (c_str f2, args2, t)" "printable k f2 args2" "length t \<le> m"
  shows "printable (m + k) (CHR ''%'' # f) args"
proof -
  obtain t2 where t2: "format_text (c_str f2) args2 = Some t2" "length t2 \<le> k" using assms(3) by (auto simp: printable_def)
  have "format_text (c_str (CHR ''%'' # f)) args = Some (t @ t2)"
    unfolding c_str_def by (subst format_text.simps) (use assms(1,2) t2(1) in \<open>simp add: c_str_def\<close>)
  with t2(2) assms(4) show ?thesis by (simp add: printable_def)
qed

lemma length_num_field_le: "w \<le> 35 \<Longrightarrow> 2 \<le> base \<Longrightarrow> p \<le> 32 \<Longrightarrow> length (num_field fl base w p num) \<le> 35"
proof -
  assume w: "w \<le> 35" "2 \<le> base" "p \<le> 32"
  have "magnitude fl num < 2 ^ 32"
    using sint_greater_eq[of num] sint_less[of num] unsigned_less[of num, where ?'a = nat] by (auto simp: magnitude_def)
  moreover have "(2 :: nat) ^ 32 \<le> nat base ^ 32" using w(2) by (intro power_mono) auto
  ultimately have "length (digs (nat base) (magnitude fl num)) \<le> 32"
    using w(2) by (intro digs_length) simp_all
  then have "length (digits_text fl base p num) \<le> 32" using w(3)
    by (simp add: digits_text_def num_text_def Let_def) arith
  then show ?thesis using length_sign_prefix(1)[of fl "sint num < 0"] length_sign_prefix(2)[of fl base] w(1)
    unfolding length_num_field_eq by simp
qed

lemma printable_number:
  assumes "parse_spec (c_str (spec @ f)) (VWord x # args) = Some (q, fl, w, -1, c # c_str f, VWord x # args)"
    and "int_conv c fl = Some (base, fl')" "bit fl' 1 \<longrightarrow> sint x \<noteq> - (2 ^ 31)" "w \<le> 35" "c \<in> {CHR ''d'', CHR ''u'', CHR ''x''}"
    and "printable k f args"
  shows "printable (35 + k) (CHR ''%'' # spec @ f) (VWord x # args)"
proof (rule printable_conv[OF assms(1) _ assms(6)])
  have "base = 10 \<or> base = 16" using assms(2,5) by (auto simp: int_conv_def)
  then show "length (num_field fl' base w (-1) x) \<le> 35" using assms(4) by (intro length_num_field_le) auto
  show "conv_text q fl w (-1) (c # c_str f) (VWord x # args) = Some (c_str f, args, num_field fl' base w (-1) x)"
    using assms(2,3,5) by (auto simp: conv_text_def int_text_def)
qed

lemmas parse_simps = parse_spec_def c_str_def is_digit_def char_code_def s32_def in_s32_def

lemma printable_lu: "printable k f args \<Longrightarrow> printable (35 + k) (''%lu'' @ f) (VWord x # args)"
  using printable_number[of "''lu''" f x args 108 0 "-1" "CHR ''u''" 10 0 k] by (simp add: parse_simps int_conv_def)

lemma printable_02lu: "printable k f args \<Longrightarrow> printable (35 + k) (''%02lu'' @ f) (VWord x # args)"
  using printable_number[of "''02lu''" f x args 108 ZEROPAD 2 "CHR ''u''" 10 ZEROPAD k]
  by (simp add: parse_simps int_conv_def ZEROPAD_def)

lemma printable_u: "printable k f args \<Longrightarrow> printable (35 + k) (''%u'' @ f) (VWord x # args)"
  using printable_number[of "''u''" f x args "-1" 0 "-1" "CHR ''u''" 10 0 k] by (simp add: parse_simps int_conv_def)

lemma printable_04x: "printable k f args \<Longrightarrow> printable (35 + k) (''%04x'' @ f) (VWord x # args)"
  using printable_number[of "''04x''" f x args "-1" ZEROPAD 4 "CHR ''x''" 16 ZEROPAD k]
  by (simp add: parse_simps int_conv_def ZEROPAD_def)

lemma printable_d: "sint x \<noteq> - (2 ^ 31) \<Longrightarrow> printable k f args \<Longrightarrow> printable (35 + k) (''%d'' @ f) (VWord x # args)"
  using printable_number[of "''d''" f x args "-1" 0 "-1" "CHR ''d''" 10 SIGN k] by (simp add: parse_simps int_conv_def)

lemma printable_s:
  assumes "CHR 0x00 \<notin> set s" "length s < 2 ^ 30" "printable k f args"
  shows "printable (length s + k) (''%s'' @ f) (VStr (Some (c_str s)) # args)"
proof -
  have tw: "takeWhile (\<lambda>c. c \<noteq> CHR 0x00) (c_str s) = s"
    using assms(1) by (simp add: c_str_def takeWhile_append)
  have "conv_text (-1) 0 (-1) (-1) (CHR ''s'' # c_str f) (VStr (Some (c_str s)) # args) = Some (c_str f, args, s)"
    using assms(2) by (simp add: conv_text_def str_text_def Let_def tw justify_def) (simp add: c_str_def)
  moreover have "parse_spec (c_str (CHR ''s'' # f)) (VStr (Some (c_str s)) # args)
      = Some (-1, 0, -1, -1, CHR ''s'' # c_str f, VStr (Some (c_str s)) # args)" by (simp add: parse_simps)
  ultimately show ?thesis
    using printable_conv[OF _ _ assms(3) order_refl, of "CHR ''s'' # f"] by simp
qed

text \<open>The characters a call sends, and the run of all calls.\<close>

definition sent_text :: "printf_call \<Rightarrow> string" where
  "sent_text = (\<lambda>(fmt, args). case format_text (c_str fmt) args of None \<Rightarrow> [] | Some t \<Rightarrow> takeWhile (\<lambda>c. c \<noteq> CHR 0x00) t)"

lemma print_all_sends:
  assumes "ready st" "\<forall>(fmt, args)\<in>set calls. printable 1023 fmt args"
  shows "\<exists>n. print_all st calls u = Some (u\<lparr>ureads := n, usent := usent u @ map of_char (concat (map sent_text calls))\<rparr>)"
  using assms(2)
proof (induction calls arbitrary: u)
  case Nil
  show ?case by (intro exI[of _ "ureads u"]) simp
next
  case (Cons call calls)
  obtain fmt args where c: "call = (fmt, args)" by fastforce
  then obtain t where t: "format_text (c_str fmt) args = Some t" "length t < 1024"
    using Cons.prems by (auto simp: printable_def)
  obtain m n where "ee_printf st (c_str fmt) args u =
      Some (m, u\<lparr>ureads := n, usent := usent u @ map of_char (sent_text call)\<rparr>)"
    using ee_printf_put[OF t assms(1), of u] t(1) by (auto simp: c sent_text_def)
  with Cons.IH[of "u\<lparr>ureads := n, usent := usent u @ map of_char (sent_text call)\<rparr>"] Cons.prems c show ?case by auto
qed

text \<open>The same facts as rules that consume a bound, so that simplification runs over a whole format.\<close>

lemma printable_steps:
  "printable k [] args"
  "c \<noteq> CHR ''%'' \<Longrightarrow> c \<noteq> CHR 0x00 \<Longrightarrow> 0 < k \<Longrightarrow> printable (k - 1) f args \<Longrightarrow> printable k (c # f) args"
  "35 \<le> k \<Longrightarrow> printable (k - 35) f args \<Longrightarrow> printable k (CHR ''%'' # CHR ''l'' # CHR ''u'' # f) (VWord x # args)"
  "35 \<le> k \<Longrightarrow> printable (k - 35) f args \<Longrightarrow>
     printable k (CHR ''%'' # CHR ''0'' # CHR ''2'' # CHR ''l'' # CHR ''u'' # f) (VWord x # args)"
  "35 \<le> k \<Longrightarrow> printable (k - 35) f args \<Longrightarrow> printable k (CHR ''%'' # CHR ''u'' # f) (VWord x # args)"
  "35 \<le> k \<Longrightarrow> printable (k - 35) f args \<Longrightarrow>
     printable k (CHR ''%'' # CHR ''0'' # CHR ''4'' # CHR ''x'' # f) (VWord x # args)"
  "35 \<le> k \<Longrightarrow> sint x \<noteq> - (2 ^ 31) \<Longrightarrow> printable (k - 35) f args \<Longrightarrow> printable k (CHR ''%'' # CHR ''d'' # f) (VWord x # args)"
  "CHR 0x00 \<notin> set s \<Longrightarrow> length s < 2 ^ 30 \<Longrightarrow> length s \<le> k \<Longrightarrow> printable (k - length s) f args \<Longrightarrow>
     printable k (CHR ''%'' # CHR ''s'' # f) (VStr (Some (c_str s)) # args)"
  using printable_mono[OF printable_end, of k args] printable_lit[of c "k - 1" f args]
    printable_lu[of "k - 35" f args x] printable_02lu[of "k - 35" f args x] printable_u[of "k - 35" f args x]
    printable_04x[of "k - 35" f args x] printable_d[of x "k - 35" f args] printable_s[of s "k - length s" f args]
  by simp_all

lemma small_not_min:
  fixes x :: ee_s32
  assumes "unat x < 2 ^ 31"
  shows "sint x \<noteq> - (2 ^ 31)"
proof -
  have "uint x < 2 ^ 31" using assms by (metis of_nat_less_iff of_nat_numeral of_nat_power uint_nat)
  then have "sint x = uint x" by (rule sint_uint_s32)
  moreover have "0 \<le> uint x" by (rule unsigned_greater_eq)
  ultimately have "0 \<le> sint x" by simp
  then show ?thesis by (intro notI) simp
qed

lemma printable_times:
  assumes "report_times r total_time = Some calls" "unat (iterations r) < 2 ^ 31"
  shows "\<forall>(fmt, args)\<in>set calls. printable 1023 fmt args"
proof -
  let ?secs = "time_in_secs total_time"
  have "unat ?secs = unat total_time div 50000000"
    by (simp add: time_in_secs_def EE_TICKS_PER_SEC_def unat_div)
  then have s: "sint ?secs \<noteq> - (2 ^ 31)"
    using unsigned_less[of total_time, where ?'a = nat] by (intro small_not_min) simp
  have "unat (iterations r div ?secs) < 2 ^ 31"
    using assms(2) div_le_dividend[of "unat (iterations r)" "unat ?secs"] unfolding unat_div by linarith
  then have d: "sint (iterations r div ?secs) \<noteq> - (2 ^ 31)" by (rule small_not_min)
  from assms(1) show ?thesis
    using s d by (auto simp: report_times_def div_u32_def rate_def Let_def opt_simps line_def printable_steps split: if_split_asm)
qed

lemma printable_crcs:
  assumes "CHR 0x00 \<notin> set cflags" "length cflags \<le> 900"
  shows "\<forall>(fmt, args)\<in>set (report_crcs cflags r). printable 1023 fmt args"
  using assms by (auto simp: report_crcs_def line_def printable_steps)

lemma printable_plain:
  assumes "CHR ''%'' \<notin> set s" "CHR 0x00 \<notin> set s" "length s \<le> k"
  shows "printable k s args"
  using printable_mono[OF printable_text[OF assms(1,2) printable_end, of args]] assms(3) by simp

lemma printable_verdict: "\<forall>(fmt, args)\<in>set (report_verdict e). printable 1023 fmt args"
  by (auto simp: report_verdict_def line_def intro!: printable_plain)

lemma printable_error:
  assumes "CHR ''%'' \<notin> set name" "CHR 0x00 \<notin> set name" "length name \<le> 10"
  shows "\<forall>(fmt, args)\<in>set (crc_error name c k). printable 1023 fmt args"
proof -
  let ?tail = "line '' crc 0x%04x - should be 0x%04x''" and ?args = "[VWord (ucast c), VWord (ucast k)] :: va_val list"
  have "printable 500 ?tail ?args" by (simp add: line_def printable_steps)
  then have "printable 510 (name @ ?tail) ?args"
    using printable_mono[OF printable_text[OF assms(1,2)], of 500 ?tail ?args 510] assms(3) by simp
  then have "printable 900 (name @ ?tail) ?args" by (rule printable_mono) simp
  then have "printable 944 (''[%u]ERROR! '' @ name @ ?tail) (VWord 0 # ?args)" by (simp add: printable_steps)
  then show ?thesis by (auto simp: crc_error_def line_def intro: printable_mono)
qed

lemma printable_known: "known_id c = Some (k, msg) \<Longrightarrow> printable 1023 (line msg) []"
  by (rule printable_plain) (auto simp: known_id_def line_def split: if_split_asm)

text \<open>All calls of a run can be printed.\<close>

lemma core_main_printable:
  assumes "core_main mt ilp32 cflags base v r p = Some (e, t, p', calls)" "known_id (seed_crc t) \<noteq> None" "execs t = 7"
    and "unat (iterations t) < 2 ^ 31" "CHR 0x00 \<notin> set cflags" "length cflags \<le> 900"
  shows "\<forall>(fmt, args)\<in>set calls. printable 1023 fmt args"
proof -
  obtain u p1 chk times where u: "check_results ilp32 u = Some (e, t, chk)" "report_times t (get_time p1) = Some times"
    "calls = chk @ times @ report_crcs cflags t @ report_verdict e"
    using assms(1) by (auto simp: core_main_def Let_def opt_simps split: prod.splits)
  then have "\<exists>c. t = u\<lparr>err := c\<rparr> \<or> t = u" by (auto simp: check_results_def check_data_types_ilp32 opt_simps split: option.splits)
  then have same: "seed_crc t = seed_crc u" "execs t = execs u" by (auto simp: seed_crc_def)
  obtain k msg where k: "known_id (seed_crc u) = Some (k, msg)" using assms(2) same(1) by auto
  have "\<forall>(fmt, args)\<in>set chk. printable 1023 fmt args"
    using check_results_known[OF k] u(1) assms(3) same(2) printable_known[OF k]
      printable_error[of "''list''" "crclist u" "list_known_crc ! k"] printable_error[of "''matrix''" "crcmatrix u" "matrix_known_crc ! k"]
      printable_error[of "''state''" "crcstate u" "state_known_crc ! k"] by auto
  moreover note printable_times[OF u(2) assms(4)] printable_crcs[OF assms(5,6), of t] printable_verdict[of e]
  ultimately show ?thesis unfolding u(3) by auto
qed

section \<open>Calibration\<close>

lemma iterations_upd:
  "list_ready (r\<lparr>iterations := n\<rparr>) xs = list_ready r xs" "bench_ok (r\<lparr>iterations := n\<rparr>) = bench_ok r"
  by (rule list_ready_cong) (simp_all add: bench_ok_def state_ok_def)

text \<open>The seconds the \<open>k\<close>-th trial run takes, and the state of the port after it.\<close>

definition trial_secs :: "(nat \<Rightarrow> ee_u32) \<Rightarrow> nat \<Rightarrow> nat \<Rightarrow> ee_u32" where
  "trial_secs mt m k = time_in_secs (mt (m + 2 * k + 1) - mt (m + 2 * k))"

lemma calibrate_loop_done:
  assumes "1 \<le> s"
  shows "calibrate_loop mt s t p = Some (s, t, p)"
proof -
  have "\<not> s < 1" using assms by (simp only: not_less)
  then show ?thesis by (subst calibrate_loop.simps) (simp only: if_False)
qed

lemma trial_run:
  assumes "list_ready r xs" "bench_ok r"
  shows "\<exists>t p'. list_ready t xs \<and> bench_ok t \<and> mtime_reads p' = mtime_reads p + 2 \<and>
    calibrate_loop mt 0 r p = calibrate_loop mt (trial_secs mt (mtime_reads p) 0) t p'"
proof -
  let ?p' = "stop_time mt (start_time mt p)"
  have p': "mtime_reads ?p' = mtime_reads p + 2" "time_in_secs (get_time ?p') = trial_secs mt (mtime_reads p) 0"
    by (simp_all add: get_time_def stop_time_def start_time_def barebones_clock_def trial_secs_def)
  obtain t where "iterate (r\<lparr>iterations := iterations r * 10\<rparr>) = Some t" "list_ready t xs" "bench_ok t"
    using iterate_total[of "r\<lparr>iterations := iterations r * 10\<rparr>" xs] assms by (auto simp: iterations_upd)
  then show ?thesis
    using p' by (intro exI[of _ t] exI[of _ ?p']) (subst (1) calibrate_loop.simps, simp add: Let_def)
qed

lemma calibrate_loop_ends:
  assumes "list_ready r xs" "bench_ok r" "1 \<le> trial_secs mt (mtime_reads p) k"
  shows "\<exists>s t p'. calibrate_loop mt 0 r p = Some (s, t, p') \<and> list_ready t xs \<and> bench_ok t"
  using assms
proof (induction k arbitrary: r p)
  case 0
  then show ?case using trial_run[OF 0(1,2), of p mt] calibrate_loop_done[OF 0(3)] by auto
next
  case (Suc k)
  obtain t p' where t: "list_ready t xs" "bench_ok t" "mtime_reads p' = mtime_reads p + 2"
    "calibrate_loop mt 0 r p = calibrate_loop mt (trial_secs mt (mtime_reads p) 0) t p'"
    using trial_run[OF Suc.prems(1,2)] by blast
  show ?case
  proof (cases "trial_secs mt (mtime_reads p) 0 = 0")
    case True
    have "1 \<le> trial_secs mt (mtime_reads p') k" using Suc.prems(3) t(3) by (simp add: trial_secs_def)
    with Suc.IH[OF t(1,2)] t(4) True show ?thesis by auto
  next
    case False
    then have "1 \<le> trial_secs mt (mtime_reads p) 0" by (simp add: word_le_nat_alt unat_gt_0 Suc_le_eq)
    with t calibrate_loop_done show ?thesis by metis
  qed
qed

section \<open>Properties\<close>

definition sample_memory :: core_results where
  "sample_memory = sample_results\<lparr>heads := \<lambda>a. Some \<lparr>lnext = None, info = 0\<rparr>, datas := \<lambda>a. Some \<lparr>data16 = 0, idx = 0\<rparr>,
     memblock3 := replicate 666 0, mat := \<lparr>mat_N = 0, mat_A = replicate 81 0, mat_B = replicate 81 0, mat_C = replicate 81 0\<rparr>\<rparr>"

definition sample_port :: port where
  "sample_port = \<lparr>portable_id = 0, start_time_val = 0, stop_time_val = 0, mtime_reads = 0\<rparr>"

lemma sample_memory_raw: "raw_memory sample_memory"
  by (auto simp: raw_memory_def sample_memory_def)

text \<open>
  The performance run and the validation run of the port, complete: from arbitrary contents of the memory block, with
  a positive iteration count below \<open>2 ^ 31\<close>, a timer that advances during the run and a transmitter that keeps coming
  free, \<open>main\<close> terminates without undefined behaviour and returns 0. The seeds are recognised (2K performance
  or 2K validation parameters), the number of errors is zero exactly when the three checksums are those in the
  tables, the last line printed is \<open>Correct operation validated\<close> exactly in that case, and what goes to the
  transmitter are the texts of the calls of \<open>ee_printf\<close>, in order.
\<close>

theorem main_run:
  assumes "raw_memory r" "0 < unat n" "unat n < 2 ^ 31" "mt (Suc (mtime_reads p)) \<noteq> mt (mtime_reads p)" "ready st"
    and "CHR 0x00 \<notin> set cflags" "length cflags \<le> 900"
  shows "\<exists>e t p' calls m. core_main mt ilp32 cflags base (run_seeds b n) r p = Some (e, t, p', calls) \<and>
    (e = 0 \<longleftrightarrow> all_known (if b then 4 else 3) t) \<and>
    (last calls = (line ''Correct operation validated. See README.md for run and reporting rules.'', []) \<longleftrightarrow> e = 0) \<and>
    main_prints st mt ilp32 cflags base (run_seeds b n) r p u =
      Some (0, u\<lparr>ureads := m, usent := usent u @ map of_char (concat (map sent_text calls))\<rparr>)"
proof -
  have n: "n \<noteq> 0" using assms(2) by auto
  obtain e t p' calls where m: "core_main mt ilp32 cflags base (run_seeds b n) r p = Some (e, t, p', calls)"
    "e = 0 \<longleftrightarrow> all_known (if b then 4 else 3) t"
    "last calls = (line ''Correct operation validated. See README.md for run and reporting rules.'', []) \<longleftrightarrow> e = 0"
    "known_id (seed_crc t) \<noteq> None" "execs t = 7" "iterations t = n"
    using core_main_run[OF assms(1) n assms(4), of cflags base b] by (elim exE conjE) (rule that)
  have "\<forall>(fmt, args)\<in>set calls. printable 1023 fmt args"
    using core_main_printable[OF m(1,4,5) _ assms(6,7)] m(6) assms(3) by simp
  then obtain k where "print_all st calls u = Some (u\<lparr>ureads := k, usent := usent u @ map of_char (concat (map sent_text calls))\<rparr>)"
    using print_all_sends[OF assms(5)] by blast
  with m(1) have "main_prints st mt ilp32 cflags base (run_seeds b n) r p u =
      Some (0, u\<lparr>ureads := k, usent := usent u @ map of_char (concat (map sent_text calls))\<rparr>)"
    by (simp add: main_prints_def)
  with m(1-3) show ?thesis by (intro exI conjI)
qed

theorem main_run_witness:
  "\<exists>m out. main_prints (\<lambda>n. 0) of_nat ilp32 ''-O2'' 0x80001000 (run_seeds True 10) sample_memory sample_port idle_uart =
    Some (0, \<lparr>ureads = m, usent = out\<rparr>)"
proof -
  have "0 < unat (10 :: ee_u32)" "unat (10 :: ee_u32) < 2 ^ 31" by simp_all
  moreover have "(of_nat (Suc (mtime_reads sample_port)) :: ee_u32) \<noteq> of_nat (mtime_reads sample_port)" by (simp add: sample_port_def)
  ultimately show ?thesis
    using main_run[OF sample_memory_raw _ _ _ ready_idle, of 10 of_nat sample_port "''-O2''" "0x80001000" True idle_uart]
    by (auto simp: idle_uart_def)
qed

text \<open>
  C2. \<open>iterate\<close> keeps the invariant of the benchmark for any iteration count: it terminates without undefined
  behaviour, list, data, seeds, state input and matrix operands are identical afterwards, and the list is ready for
  the next run.
\<close>

theorem iterate_keeps_ready:
  assumes "list_ready r xs" "bench_ok r"
  shows "\<exists>t. iterate r = Some t \<and> same_input r t \<and> list_ready t xs \<and> bench_ok t"
  by (rule iterate_total[OF assms])

theorem iterate_keeps_ready_witness:
  "\<exists>t. iterate (sample_results\<lparr>iterations := 1000\<rparr>) = Some t \<and> list_ready t [0, 1, 2]"
  using iterate_keeps_ready[of "sample_results\<lparr>iterations := 1000\<rparr>" "[0, 1, 2]"] sample_results_ready
  by (auto simp: iterations_upd)

text \<open>
  C10. The verdict does not depend on how many iterations run: the checksums of list, matrix and state run after any
  positive number of iterations are those after the first one (for matrix and state as soon as that is not zero).
\<close>

theorem iterate_first_decides:
  assumes "list_ready r xs" "bench_ok r" "0 < unat (iterations r)"
  shows "\<exists>t1 t. iterate_step 0 (clear_crcs r) = Some t1 \<and> iterate r = Some t \<and> same_input r t \<and> crclist t = crclist t1 \<and>
    (crcmatrix t1 \<noteq> 0 \<longrightarrow> crcmatrix t = crcmatrix t1) \<and> (crcstate t1 \<noteq> 0 \<longrightarrow> crcstate t = crcstate t1)"
  by (rule iterate_first[OF assms])

theorem iterate_first_decides_witness:
  "\<exists>t1 t. iterate_step 0 (clear_crcs sample_results) = Some t1 \<and> iterate sample_results = Some t \<and> crclist t = crclist t1"
proof -
  have "0 < unat (iterations sample_results)" by (simp add: sample_results_def)
  from iterate_first_decides[OF sample_results_ready this] show ?thesis by blast
qed

text \<open>
  C12. The calibration of the iteration count ends as soon as the timer shows a trial run of a second: \<open>calibrate\<close>
  returns, with a state the timed run can start from.
\<close>

theorem calibrate_ends:
  assumes "list_ready r xs" "bench_ok r" "1 \<le> trial_secs mt (mtime_reads p) k"
  shows "\<exists>t p'. calibrate mt r p = Some (t, p') \<and> list_ready t xs \<and> bench_ok t"
proof (cases "iterations r = 0")
  case True
  obtain s t p' where "calibrate_loop mt 0 (r\<lparr>iterations := 1\<rparr>) p = Some (s, t, p')" "list_ready t xs" "bench_ok t"
    using calibrate_loop_ends[of "r\<lparr>iterations := 1\<rparr>" xs mt p k] assms by (auto simp: iterations_upd)
  with True show ?thesis by (simp add: calibrate_def iterations_upd)
next
  case False
  with assms(1,2) show ?thesis by (simp add: calibrate_def)
qed

theorem calibrate_ends_witness:
  "\<exists>t p'. calibrate (\<lambda>n. of_nat n * of_nat n * 20000000) (sample_results\<lparr>iterations := 0\<rparr>) sample_port = Some (t, p') \<and>
    list_ready t [0, 1, 2]"
proof -
  have "1 \<le> trial_secs (\<lambda>n. of_nat n * of_nat n * 20000000) (mtime_reads sample_port) 1" by code_simp
  from calibrate_ends[OF _ _ this, of "sample_results\<lparr>iterations := 0\<rparr>" "[0, 1, 2]"] sample_results_ready
  show ?thesis by (auto simp: iterations_upd)
qed

text \<open>
  A set of algorithms that selects none of the three is not rejected: with the fifth seed 8, \<open>main\<close> divides the
  memory size by zero algorithms.
\<close>

theorem main_no_algorithm:
  "main_init base \<lparr>seed1_volatile = 0, seed2_volatile = 0, seed3_volatile = 0x66, seed4_volatile = 1, seed5_volatile = 8\<rparr> r = None"
proof -
  have "num_algorithms 8 = 0" by code_simp
  then show ?thesis
    by (simp add: main_init_def main_seeds_def get_seed_def get_seed_32_def Let_def div_u32_def)
qed

lemma exec_test: "push_bit i 1 AND ex = 0 \<longleftrightarrow> \<not> bit ex i" for ex :: ee_u32
  using and_exp_eq_0_iff_not_bit[of ex i] by (simp add: and.commute)

lemma assign_pointers_cases:
  "assign_pointers base sz ex =
     [if bit ex 0 then Some base else None,
      if bit ex 1 then Some (base + sz * (if bit ex 0 then 1 else 0)) else None,
      if bit ex 2 then Some (base + sz * ((if bit ex 0 then 1 else 0) + (if bit ex 1 then 1 else 0))) else None]"
  "num_algorithms ex = (if bit ex 0 then 1 else 0) + (if bit ex 1 then 1 else 0) + (if bit ex 2 then 1 else 0)"
proof -
  have l: "[0..<NUM_ALGORITHMS] = [0, 1, 2]" "replicate NUM_ALGORITHMS None = [None, None, None]"
    by (simp_all add: NUM_ALGORITHMS_def upt_rec numeral_3_eq_3)
  show "assign_pointers base sz ex =
     [if bit ex 0 then Some base else None,
      if bit ex 1 then Some (base + sz * (if bit ex 0 then 1 else 0)) else None,
      if bit ex 2 then Some (base + sz * ((if bit ex 0 then 1 else 0) + (if bit ex 1 then 1 else 0))) else None]"
    unfolding assign_pointers_def l exec_test by simp
  show "num_algorithms ex = (if bit ex 0 then 1 else 0) + (if bit ex 1 then 1 else 0) + (if bit ex 2 then 1 else 0)"
    unfolding num_algorithms_def l exec_test by simp
qed

lemma unat_block:
  fixes base sz :: ee_u32
  assumes "unat sz * k \<le> 2000" "unat base + 2000 < 2 ^ 32" "k \<le> 2"
  shows "unat (base + sz * of_nat k) = unat base + unat sz * k"
proof -
  have "unat (of_nat k :: ee_u32) = k" using assms(3) by (intro unat_of_nat_s32) simp
  then have "unat (sz * of_nat k) = unat sz * k" using assms(1) unfolding unat_word_ariths(2) by simp
  then show ?thesis using assms(1,2) unfolding unat_word_ariths(1) by simp
qed

text \<open>
  C13. The memory block is divided without overlap: each selected algorithm gets a block of the same size inside the
  2000 bytes, one behind the other, and an algorithm that is not selected gets none.
\<close>

theorem main_blocks:
  assumes "div_u32 TOTAL_DATA_SIZE (ucast (num_algorithms ex)) = Some sz" "unat base + 2000 < 2 ^ 32" "i < 3"
  shows "(\<not> bit ex i \<longrightarrow> assign_pointers base sz ex ! i = None) \<and>
    (bit ex i \<longrightarrow> (\<exists>p. assign_pointers base sz ex ! i = Some p \<and> unat base \<le> unat p \<and> unat p + unat sz \<le> unat base + 2000 \<and>
      (\<forall>j<i. \<forall>q. assign_pointers base sz ex ! j = Some q \<longrightarrow> unat q + unat sz \<le> unat p)))"
proof -
  have sz: "sz = 2000 div ucast (num_algorithms ex)" "num_algorithms ex \<noteq> 0"
    using assms(1) by (auto simp: div_u32_def TOTAL_DATA_SIZE_def split: if_splits)
  have d: "(2000 :: ee_u32) div 1 = 2000" "(2000 :: ee_u32) div 2 = 1000" "(2000 :: ee_u32) div 3 = 666" by simp_all
  have b: "unat (base + sz) = unat base + unat sz" if "unat sz \<le> 1000" using unat_block[of sz 1 base] that assms(2) by simp
  have b2: "unat (base + sz * 2) = unat base + unat sz * 2" if "unat sz \<le> 1000" using unat_block[of sz 2 base] that assms(2) by simp
  have i: "i = 0 \<or> i = 1 \<or> i = 2" using assms(3) by auto
  show ?thesis
    using i sz b b2 assms(2) unfolding assign_pointers_cases
    by (cases "bit ex 0"; cases "bit ex 1"; cases "bit ex 2") (auto simp: less_2_cases_iff nth_Cons')
qed

theorem main_blocks_witness:
  "\<exists>p. assign_pointers 0x80001000 666 7 ! 2 = Some p \<and> unat p + 666 \<le> 0x80001000 + 2000"
proof -
  have "div_u32 TOTAL_DATA_SIZE (ucast (num_algorithms 7)) = Some 666" by code_simp
  from main_blocks[OF this, of "0x80001000" 2] show ?thesis by (simp add: bit_numeral_rec) auto
qed

end
