(* ===== verification/Known_State.thy ===== *)
theory Known_State
  imports Core_State
begin

text \<open>
  The scan of \<open>coremark/src/core_state.c\<close> on a list of byte values, with the transitions it counts collected in two lists
  instead of two arrays of counters: \<open>scan\<close> is what the two loops of \<open>core_bench_state\<close> do to a block, and evaluates on a
  concrete block. The generated blocks as lists of byte values.
\<close>

section \<open>The scan on byte values\<close>

text \<open>The successor state, and the states whose transition counter is incremented.\<close>

definition digit_val :: "int \<Rightarrow> bool" where
  "digit_val c \<longleftrightarrow> 48 \<le> c \<and> c \<le> 57"

fun byte_switch :: "core_state \<Rightarrow> int \<Rightarrow> core_state \<times> core_state list" where
  "byte_switch CORE_START c =
     (if digit_val c then (CORE_INT, [CORE_START]) else if c = 43 \<or> c = 45 then (CORE_S1, [CORE_START])
      else if c = 46 then (CORE_FLOAT, [CORE_START]) else (CORE_INVALID, [CORE_START, CORE_INVALID]))"
| "byte_switch CORE_S1 c =
     (if digit_val c then CORE_INT else if c = 46 then CORE_FLOAT else CORE_INVALID, [CORE_S1])"
| "byte_switch CORE_INT c =
     (if c = 46 then (CORE_FLOAT, [CORE_INT]) else if digit_val c then (CORE_INT, []) else (CORE_INVALID, [CORE_INT]))"
| "byte_switch CORE_FLOAT c =
     (if c = 69 \<or> c = 101 then (CORE_S2, [CORE_FLOAT]) else if digit_val c then (CORE_FLOAT, []) else (CORE_INVALID, [CORE_FLOAT]))"
| "byte_switch CORE_S2 c = (if c = 43 \<or> c = 45 then CORE_EXPONENT else CORE_INVALID, [CORE_S2])"
| "byte_switch CORE_EXPONENT c = (if digit_val c then CORE_SCIENTIFIC else CORE_INVALID, [CORE_EXPONENT])"
| "byte_switch CORE_SCIENTIFIC c = (if digit_val c then (CORE_SCIENTIFIC, []) else (CORE_INVALID, [CORE_INVALID]))"
| "byte_switch CORE_INVALID c = (CORE_INVALID, [])"

text \<open>
  The text from a position on, in a state; \<open>CORE_START\<close> means that a new token begins here. The results are the states
  counted in \<open>track_counts\<close> and in \<open>final_counts\<close>, the last first.
\<close>

fun scan :: "int list \<Rightarrow> core_state \<Rightarrow> core_state list \<Rightarrow> core_state list \<Rightarrow> (core_state list \<times> core_state list) option" where
  "scan [] st T F = None"
| "scan (c # cs) st T F =
     (let (st, F) = (if st = CORE_INVALID then (CORE_START, CORE_INVALID # F) else (st, F))
      in if c = 0 then Some (T, if st = CORE_START then F else st # F)
         else if c = 44 then scan cs CORE_START T (st # F)
         else let (st', ev) = byte_switch st c in scan cs st' (ev @ T) F)"

text \<open>The same without local bindings, for the evaluation on a long text.\<close>

definition scan_byte ::
  "int \<Rightarrow> int list \<Rightarrow> core_state \<Rightarrow> core_state list \<Rightarrow> core_state list \<Rightarrow> (core_state list \<times> core_state list) option" where
  "scan_byte c cs st T F =
     (if c = 0 then Some (T, if st = CORE_START then F else st # F)
      else if c = 44 then scan cs CORE_START T (st # F)
      else scan cs (fst (byte_switch st c)) (snd (byte_switch st c) @ T) F)"

lemma scan_code [code]:
  "scan [] st T F = None"
  "scan (c # cs) st T F =
     (if st = CORE_INVALID then scan_byte c cs CORE_START T (CORE_INVALID # F) else scan_byte c cs st T F)"
  by (simp_all add: scan_byte_def case_prod_unfold Let_def)

definition counted :: "core_state list \<Rightarrow> counts \<Rightarrow> counts" where
  "counted ev tc = foldr incr ev tc"

lemma counted_simps [simp]:
  "counted [] tc = tc" "counted (s # ev) tc = incr s (counted ev tc)" "counted (ev @ ev') tc = counted ev (counted ev' tc)"
  by (simp_all add: counted_def)

lemma digit_val_byte: "digit_val (uint c) \<longleftrightarrow> digit_byte c"
  by (simp add: digit_val_def digit_byte_def word_le_def)

lemma uint_eq_num [simp]:
  "uint c = 0 \<longleftrightarrow> c = 0" "uint c = 43 \<longleftrightarrow> c = 43" "uint c = 44 \<longleftrightarrow> c = 44" "uint c = 45 \<longleftrightarrow> c = 45" "uint c = 46 \<longleftrightarrow> c = 46"
  "uint c = 69 \<longleftrightarrow> c = 69" "uint c = 101 \<longleftrightarrow> c = 101" for c :: ee_u8
  by (auto simp: word_uint_eq_iff)

lemma state_switch_bytes:
  "state_switch st c tc = (case byte_switch st (uint c) of (st', ev) \<Rightarrow> (st', counted ev tc))"
  by (cases st) (auto simp: digit_val_byte)

lemma scan_start_swap:
  "scan cs CORE_INVALID T F = scan cs CORE_START T (CORE_INVALID # F)"
  by (cases cs) simp_all

lemma scan_loop:
  assumes "st \<noteq> CORE_INVALID" "st \<noteq> CORE_START \<or> str < length mem \<and> mem ! str \<noteq> 0" "scan (map uint (drop str mem)) st T F = Some (T', F')"
    and "str \<le> length mem"
  shows "\<exists>st' str' T1. core_state_loop mem str st (counted T tc) = Some (st', str', counted T1 tc) \<and> str' \<le> length mem \<and>
    scan (map uint (drop str' mem)) CORE_START T1 (st' # F) = Some (T', F') \<and> (st = CORE_START \<longrightarrow> str < str')"
  using assms
proof (induction "length mem - str" arbitrary: str st T)
  case 0
  then show ?case by simp
next
  case (Suc n)
  then have l: "str < length mem" by simp
  then have d: "drop str mem = mem ! str # drop (Suc str) mem" by (simp add: Cons_nth_drop_Suc)
  let ?c = "mem ! str"
  consider "?c = 0" | "?c = 44" | "?c \<noteq> 0" "?c \<noteq> 44" by blast
  then show ?case
  proof cases
    case 1
    with Suc.prems d l show ?thesis
      by (intro exI[of _ st] exI[of _ str] exI[of _ T]) (auto simp: core_state_loop.simps)
  next
    case 2
    with Suc.prems d l show ?thesis
      by (intro exI[of _ st] exI[of _ "Suc str"] exI[of _ T]) (simp add: core_state_loop.simps)
  next
    case 3
    obtain st1 ev where sw: "byte_switch st (uint ?c) = (st1, ev)" by (cases "byte_switch st (uint ?c)")
    have go: "core_state_loop mem str st (counted T tc) = core_state_loop mem (Suc str) st1 (counted (ev @ T) tc)"
      using 3 l Suc.prems(1) sw by (subst core_state_loop.simps) (simp add: state_switch_bytes)
    have s: "scan (map uint (drop (Suc str) mem)) st1 (ev @ T) F = Some (T', F')"
      using Suc.prems(1,3) 3 sw unfolding d by simp
    have st1: "st1 \<noteq> CORE_START" using sw by (cases st) (auto split: if_splits)
    show ?thesis
    proof (cases "st1 = CORE_INVALID")
      case True
      have l2: "Suc str < length mem" using s by (cases "Suc str < length mem") auto
      then show ?thesis using go s True scan_start_swap
        by (intro exI[of _ CORE_INVALID] exI[of _ "Suc str"] exI[of _ "ev @ T"]) (simp add: core_state_loop_INVALID)
    next
      case False
      have m: "n = length mem - Suc str" "Suc str \<le> length mem" using Suc.hyps(2) l by simp_all
      obtain st' str' T1 where "core_state_loop mem (Suc str) st1 (counted (ev @ T) tc) = Some (st', str', counted T1 tc)"
        "str' \<le> length mem" "scan (map uint (drop str' mem)) CORE_START T1 (st' # F) = Some (T', F')"
        using Suc.hyps(1)[OF m(1) False _ s m(2)] st1 by blast
      moreover from this(1) have "Suc str \<le> str'" by (rule core_state_loop_mono)
      ultimately show ?thesis using go by (intro exI[of _ st'] exI[of _ str'] exI[of _ T1]) simp
    qed
  qed
qed

lemma run_loop_scan:
  assumes "scan (map uint (drop p mem)) CORE_START T F = Some (T', F')" "p \<le> length mem"
  shows "run_loop mem p (counted T tc) (counted F fc) = Some (counted T' tc, counted F' fc)"
  using assms
proof (induction "length mem - p" arbitrary: p T F rule: less_induct)
  case less
  have l: "p < length mem" using less.prems by (cases "p < length mem") auto
  then have d: "drop p mem = mem ! p # drop (Suc p) mem" by (simp add: Cons_nth_drop_Suc)
  show ?case
  proof (cases "mem ! p = 0")
    case True
    with less.prems l show ?thesis unfolding d by (subst run_loop.simps) simp
  next
    case False
    obtain st' str' T1 where s: "core_state_loop mem p CORE_START (counted T tc) = Some (st', str', counted T1 tc)"
      "str' \<le> length mem" "scan (map uint (drop str' mem)) CORE_START T1 (st' # F) = Some (T', F')" "p < str'"
      using scan_loop[of CORE_START p mem T F T' F' tc] less.prems l False by auto
    have "run_loop mem str' (counted T1 tc) (counted (st' # F) fc) = Some (counted T' tc, counted F' fc)"
      by (rule less.hyps) (use s l in auto)
    with s(1) False l show ?thesis by (subst run_loop.simps) (simp add: core_state_transition_def)
  qed
qed

section \<open>The counters\<close>

fun count_int :: "core_state list \<Rightarrow> core_state \<Rightarrow> int" where
  "count_int [] s = 0"
| "count_int (e # ev) s = (if e = s then count_int ev s + 1 else count_int ev s)"

definition tally :: "core_state list \<Rightarrow> int list" where
  "tally ev = map (count_int ev) core_states"

definition tallies :: "int list \<Rightarrow> (int list \<times> int list) option" where
  "tallies cs = map_option (\<lambda>(T, F). (tally T, tally F)) (scan cs CORE_START [] [])"

definition crc_tallies :: "int list \<Rightarrow> int list \<Rightarrow> ee_u16 \<Rightarrow> ee_u16" where
  "crc_tallies ts fs crc = fold (\<lambda>(t, f) crc. crcu32 (word_of_int t) (crcu32 (word_of_int f) crc)) (zip ts fs) crc"

lemma count_int_append [simp]: "count_int (ev @ ev') s = count_int ev s + count_int ev' s"
  by (induction ev) auto

lemma counted_count: "counted ev zero_counts s = word_of_int (count_int ev s)"
  by (induction ev) (auto simp: zero_counts_def incr_def)

lemma crc_counted:
  "fold (\<lambda>i crc. crcu32 (counted T zero_counts i) (crcu32 (counted F zero_counts i) crc)) core_states crc
     = crc_tallies (tally T) (tally F) crc"
proof -
  have "fold (\<lambda>i crc. crcu32 (counted T zero_counts i) (crcu32 (counted F zero_counts i) crc)) is crc
      = fold (\<lambda>(t, f) crc. crcu32 (word_of_int t) (crcu32 (word_of_int f) crc)) (zip (map (count_int T) is) (map (count_int F) is)) crc" for "is"
    by (induction "is" arbitrary: crc) (simp_all add: counted_count)
  then show ?thesis by (simp add: crc_tallies_def tally_def)
qed

lemma tally_append: "tally (ev @ ev') = map2 (+) (tally ev) (tally ev')"
  by (simp add: tally_def core_states_def)

section \<open>The corruption\<close>

text \<open>Every \<open>k\<close>-th byte that is not a comma, the next one after \<open>j\<close> others.\<close>

fun corrupt_vals :: "int \<Rightarrow> int \<Rightarrow> int \<Rightarrow> int list \<Rightarrow> int list" where
  "corrupt_vals j k s [] = []"
| "corrupt_vals j k s (c # cs) =
     (if j = 0 then (if c = 44 then c else c XOR s) # corrupt_vals (k - 1) k s cs else c # corrupt_vals (j - 1) k s cs)"

lemma length_corrupt_vals [simp]: "length (corrupt_vals j k s cs) = length cs"
  by (induction j k s cs rule: corrupt_vals.induct) simp_all

lemma nth_corrupt_vals:
  "i < length cs \<Longrightarrow> 0 \<le> j \<Longrightarrow> j < k \<Longrightarrow>
   corrupt_vals j k s cs ! i = (if k dvd int i - j \<and> cs ! i \<noteq> 44 then cs ! i XOR s else cs ! i)"
proof (induction cs arbitrary: i j)
  case (Cons c cs)
  show ?case
  proof (cases i)
    case 0
    have "k dvd - j \<longleftrightarrow> j = 0" using Cons.prems by (cases "j = 0") (auto dest: zdvd_imp_le)
    then show ?thesis using 0 by simp
  next
    case (Suc n)
    have e: "int n - (k - 1) = int (Suc n) - k" "int (Suc n) - j = int n - (j - 1)" by simp_all
    have "k dvd int n - (k - 1) \<longleftrightarrow> k dvd int (Suc n)" unfolding e(1) by (rule dvd_diff_left_iff) simp
    moreover have "k dvd int (Suc n) - j \<longleftrightarrow> k dvd int n - (j - 1)" unfolding e(2) ..
    ultimately show ?thesis using Suc Cons.prems Cons.IH[of n "k - 1"] Cons.IH[of n "j - 1"] by (cases "j = 0") (auto simp: add.commute)
  qed
qed simp

lemma corrupt_from_vals:
  assumes "length mem = n" "0 < k"
  shows "map uint (corrupt_from 0 k s n mem) = corrupt_vals 0 (int k) (uint s) (map uint mem)"
proof (rule nth_equalityI)
  fix i assume "i < length (map uint (corrupt_from 0 k s n mem))"
  then have "i < n" using assms(1) by simp
  then show "map uint (corrupt_from 0 k s n mem) ! i = corrupt_vals 0 (int k) (uint s) (map uint mem) ! i"
    using assms by (simp add: nth_corrupt_from nth_corrupt_vals unsigned_xor_eq)
qed simp

text \<open>The benchmark on a block: two scans.\<close>

lemma core_bench_state_tallies:
  assumes "tallies (map uint mem) = Some (t1, f1)" "tallies (corrupt_vals 0 (sint step) (uint (ucast s1 :: ee_u8)) (map uint mem)) = Some (t2, f2)"
    and "length mem = unat blksize" "2 \<le> sint step"
  shows "\<exists>m. core_bench_state blksize mem s1 s2 step crc = Some (crc_tallies (map2 (+) t2 t1) (map2 (+) f2 f1) crc, m)"
proof -
  let ?k = "nat (sint step)"
  have k: "sint step = int ?k" "0 < ?k" using assms(4) by simp_all
  obtain T1 F1 where s1: "scan (map uint mem) CORE_START [] [] = Some (T1, F1)" "t1 = tally T1" "f1 = tally F1"
    using assms(1) by (auto simp: tallies_def)
  let ?m = "corrupt_from 0 ?k (ucast s1) (unat blksize) mem"
  have c: "corrupt_loop mem 0 blksize s1 step = Some ?m"
    using corrupt_loop_eq[OF k, of blksize mem 0 s1] assms(3) by simp
  have v: "map uint ?m = corrupt_vals 0 (sint step) (uint (ucast s1 :: ee_u8)) (map uint mem)"
    using corrupt_from_vals[OF assms(3) k(2)] k(1) by simp
  obtain T2 F2 where s2: "scan (map uint ?m) CORE_START [] [] = Some (T2, F2)" "t2 = tally T2" "f2 = tally F2"
    using assms(2) unfolding v by (auto simp: tallies_def)
  have r1: "run_loop mem 0 zero_counts zero_counts = Some (counted T1 zero_counts, counted F1 zero_counts)"
    using run_loop_scan[of 0 mem "[]" "[]" T1 F1 zero_counts zero_counts] s1(1) by simp
  have r2: "run_loop ?m 0 (counted T1 zero_counts) (counted F1 zero_counts) = Some (counted (T2 @ T1) zero_counts, counted (F2 @ F1) zero_counts)"
    using run_loop_scan[of 0 ?m "[]" "[]" T2 F2 "counted T1 zero_counts" "counted F1 zero_counts"] s2(1) by simp
  obtain m where "corrupt_loop ?m 0 blksize s2 step = Some m"
    using corrupt_loop_eq[OF k, of blksize ?m 0 s2] assms(3) by simp
  then show ?thesis
    using r1 c r2 crc_counted[of "T2 @ T1" "F2 @ F1" crc] s1(2,3) s2(2,3) by (simp add: core_bench_state_def tally_append)
qed

section \<open>The generated block\<close>

definition pattern_vals :: "int \<Rightarrow> int list" where
  "pattern_vals s =
     (let k = s mod 8;
          row = (if k \<le> 2 then [[53, 48, 49, 50], [49, 50, 51, 52], [45, 56, 55, 52], [43, 49, 50, 50]]
            else if k \<le> 4 then [[51, 53, 46, 53, 52, 52, 48, 48], [46, 49, 50, 51, 52, 53, 48, 48], [45, 49, 49, 48, 46, 55, 48, 48], [43, 48, 46, 54, 52, 52, 48, 48]]
            else if k \<le> 6 then [[53, 46, 53, 48, 48, 101, 43, 51], [45, 46, 49, 50, 51, 101, 45, 50], [45, 56, 55, 101, 43, 56, 51, 50], [43, 48, 46, 54, 101, 45, 49, 50]]
            else [[84, 48, 46, 51, 101, 45, 49, 70], [45, 84, 46, 84, 43, 43, 84, 113], [49, 84, 51, 46, 52, 101, 52, 122], [51, 52, 46, 48, 101, 45, 84, 94]])
      in row ! nat (s div 8 mod 4))"

lemma low_bits_scast:
  fixes x :: ee_s16
  shows "uint ((scast x :: ee_s32) AND 0x7) = uint x mod 8"
    and "unat (signed_drop_bit 3 (scast x :: ee_s32) AND 0x3) = nat (uint x div 8 mod 4)"
proof -
  have m: "(0x7 :: ee_s32) = mask 3" "(0x3 :: ee_s32) = mask 2" by (simp_all add: mask_eq_exp_minus_1)
  have b: "uint y mod 65536 = uint y" for y :: ee_s16 using unsigned_less[of y, where ?'a = int] by simp
  have u: "uint (ucast y :: ee_s32) = uint y" for y :: ee_s16
    using unsigned_less[of y, where ?'a = int] by (simp add: unsigned_ucast_eq take_bit_int_eq_self)
  have "(scast x :: ee_s32) AND mask 3 = ucast (take_bit 3 x)" by (rule bit_word_eqI) (auto simp: bit_simps)
  then show "uint ((scast x :: ee_s32) AND 0x7) = uint x mod 8"
    unfolding m by (simp only: u unsigned_take_bit_eq) (simp add: take_bit_eq_mod)
  have "signed_drop_bit 3 (scast x :: ee_s32) AND mask 2 = ucast (take_bit 2 (drop_bit 3 x))"
    by (rule bit_word_eqI) (auto simp: bit_simps)
  then have "uint (signed_drop_bit 3 (scast x :: ee_s32) AND 0x3) = uint x div 8 mod 4"
    unfolding m by (simp only: u unsigned_take_bit_eq unsigned_drop_bit_eq) (simp add: take_bit_eq_mod drop_bit_eq_div b)
  then show "unat (signed_drop_bit 3 (scast x :: ee_s32) AND 0x3) = nat (uint x div 8 mod 4)"
    by (simp only: flip: nat_uint_eq)
qed

lemma pattern_vals: "map uint (fst (pick_pattern seed)) = pattern_vals (uint seed)"
proof -
  let ?j = "uint seed div 8 mod 4"
  have "0 \<le> ?j" "?j < 4" by simp_all
  then have j: "?j \<in> {0, 1, 2, 3}" by auto
  have k: "(scast seed :: ee_s32) AND 0x7 \<le> numeral n \<longleftrightarrow> uint seed mod 8 \<le> uint (numeral n :: ee_s32)" for n
    by (simp only: word_le_def low_bits_scast(1))
  have u: "uint (2 :: ee_s32) = 2" "uint (4 :: ee_s32) = 4" "uint (6 :: ee_s32) = 6" by simp_all
  show ?thesis
    using j unfolding pick_pattern_def pattern_vals_def Let_def low_bits_scast(2) k u
    by (auto simp: intpat_def floatpat_def scipat_def errpat_def bytes_def ch_def char_code_def)
qed

function text_vals :: "int \<Rightarrow> int \<Rightarrow> int list" where
  "text_vals room s =
     (let t = pattern_vals s; n = int (length t) + 1
      in if n < room then t @ 44 # text_vals (room - n) ((s + 1) mod 65536) else replicate (nat room + 1) 0)"
  by pat_completeness auto
termination
  by (relation "measure (\<lambda>(room, s). nat room)") auto

declare text_vals.simps [simp del]
declare text_vals.simps [code]

lemma text_vals:
  assumes "0 < room"
  shows "map uint (join_tokens (state_tokens room seed)) @ replicate (room + 1 - length (join_tokens (state_tokens room seed))) 0
    = text_vals (int room) (uint seed)"
  using assms
proof (induction room seed rule: state_tokens.induct)
  case (1 room seed)
  let ?t = "fst (pick_pattern seed)"
  have t: "pattern_vals (uint seed) = map uint ?t" by (simp add: pattern_vals)
  have s: "uint (seed + 1) = (uint seed + 1) mod 65536" by (simp add: uint_word_ariths)
  show ?case
  proof (cases "length ?t + 1 < room")
    case True
    let ?r = "room - (length ?t + 1)"
    have r: "int room - (int (length ?t) + 1) = int ?r" "0 < ?r" using True by simp_all
    have "text_vals (int room) (uint seed) = map uint ?t @ 44 # text_vals (int room - (int (length ?t) + 1)) (uint (seed + 1))"
      by (subst text_vals.simps) (use True in \<open>simp add: t s Let_def\<close>)
    also have "\<dots> = map uint ?t @ 44 # text_vals (int ?r) (uint (seed + 1))" unfolding r(1) ..
    also have "text_vals (int ?r) (uint (seed + 1)) = map uint (join_tokens (state_tokens ?r (seed + 1))) @
        replicate (?r + 1 - length (join_tokens (state_tokens ?r (seed + 1)))) 0"
      using "1.IH"[OF refl True r(2)] by simp
    finally show ?thesis using True state_tokens.simps[of room seed] by (simp add: Let_def)
  next
    case False
    then have "text_vals (int room) (uint seed) = replicate (room + 1) 0"
      by (subst text_vals.simps) (simp add: t Let_def)
    with False show ?thesis using state_tokens.simps[of room seed] by (simp add: Let_def)
  qed
qed

lemma init_state_vals:
  assumes "core_init_state 666 s p = Some m" "length p = 666"
  shows "map uint m = text_vals 665 ((uint s + 1) mod 65536)" "length m = 666"
proof -
  have u: "unat (666 :: ee_u32) = 666" by simp
  let ?b = "join_tokens (state_tokens 665 (s + 1))"
  have m: "m = ?b @ replicate (666 - length ?b) 0" "length ?b + 2 \<le> 666"
    using core_init_state_eq[of 666 p s] assms unfolding u by simp_all
  have "map uint m = text_vals (int 665) (uint (s + 1))"
    using text_vals[of 665 "s + 1"] m(1) by simp
  then show "map uint m = text_vals 665 ((uint s + 1) mod 65536)" by (simp add: uint_word_ariths)
  show "length m = 666" using m by simp
qed

end
