(* ===== verification/Known_Matrix.thy ===== *)
theory Known_Matrix
  imports Core_Matrix
begin

text \<open>
  The result of \<open>matrix_test\<close> of \<open>coremark/src/core_matrix.c\<close> on the matrices of the standard block, as a function on
  integers: the two products are inner products of integer lists, and the checksum of a matrix is a fold over its
  elements. The first and the last matrix have no negative elements, so their checksums are constant.
\<close>

section \<open>The checksum of a matrix of integers\<close>

fun sum_vals :: "int \<Rightarrow> int list \<Rightarrow> int \<Rightarrow> int \<Rightarrow> int \<Rightarrow> int" where
  "sum_vals clip [] tmp prev ret = ret"
| "sum_vals clip (c # cs) tmp prev ret =
     (if clip < tmp + c then sum_vals clip cs 0 c (ret + 10)
      else sum_vals clip cs (tmp + c) c (if prev < c then ret + 1 else ret))"

lemma sum_step_vals:
  assumes "sum_step clip cur (tmp, prev, word_of_int ret) = Some v"
  shows "v = (if sint clip < sint tmp + sint cur then (0, cur, word_of_int (ret + 10))
    else (word_of_int (sint tmp + sint cur), cur, word_of_int (if sint prev < sint cur then ret + 1 else ret)))"
    and "\<not> sint clip < sint tmp + sint cur \<Longrightarrow> in_s32 (sint tmp + sint cur)"
proof -
  obtain x where x: "add_s32 tmp cur = Some x" using assms by (auto simp: sum_step_def opt_simps)
  then have a: "add_s32 tmp cur = Some (word_of_int (sint tmp + sint cur))" "sint (tmp + cur) = sint tmp + sint cur"
    by (auto simp: add_s32_def s32_def split: if_splits)
  have "in_s32 (sint (tmp + cur))" using sint_greater_eq[of "tmp + cur"] sint_less[of "tmp + cur"] by (simp add: in_s32_def)
  then have a: "add_s32 tmp cur = Some (word_of_int (sint tmp + sint cur))" "in_s32 (sint tmp + sint cur)"
    using a by simp_all
  have "sint (scast clip :: ee_s32) = sint clip" by simp
  then have "scast clip <s (word_of_int (sint tmp + sint cur) :: ee_s32) \<longleftrightarrow> sint clip < sint tmp + sint cur"
    using sint_of_int_s32[OF a(2)] by (simp add: word_sless_alt del: of_int_add)
  then show "v = (if sint clip < sint tmp + sint cur then (0, cur, word_of_int (ret + 10))
    else (word_of_int (sint tmp + sint cur), cur, word_of_int (if sint prev < sint cur then ret + 1 else ret)))"
    using assms a(1) by (auto simp: sum_step_def word_sless_alt split: if_splits)
  show "in_s32 (sint tmp + sint cur)" by (rule a(2))
qed

lemma sum_loop_vals:
  assumes "for_loop a (length cs) (\<lambda>k. sum_step clip (C ! k)) (tmp, prev, word_of_int ret) = Some (t, p, r)"
    and "\<forall>i<length cs. C ! (a + i) = cs ! i"
  shows "r = word_of_int (sum_vals (sint clip) (map sint cs) (sint tmp) (sint prev) ret)"
  using assms
proof (induction cs arbitrary: a tmp prev ret)
  case (Cons c cs)
  have c: "C ! a = c" using Cons.prems(2) by force
  have cs: "\<forall>i<length cs. C ! (Suc a + i) = cs ! i" using Cons.prems(2) by force
  obtain v where v: "sum_step clip c (tmp, prev, word_of_int ret) = Some v"
    "for_loop (Suc a) (length cs) (\<lambda>k. sum_step clip (C ! k)) v = Some (t, p, r)"
    using Cons.prems(1) c by (cases "sum_step clip c (tmp, prev, word_of_int ret)") auto
  show ?case
  proof (cases "sint clip < sint tmp + sint c")
    case True
    then show ?thesis using sum_step_vals(1)[OF v(1)] v(2) Cons.IH[OF _ cs, of 0 c "ret + 10"] by (simp del: of_int_add)
  next
    case False
    then have "sint (word_of_int (sint tmp + sint c) :: ee_s32) = sint tmp + sint c"
      using sum_step_vals(2)[OF v(1)] sint_of_int_s32 by blast
    then show ?thesis
      using False sum_step_vals(1)[OF v(1)] v(2) Cons.IH[OF _ cs, of "word_of_int (sint tmp + sint c)" c "if sint prev < sint c then ret + 1 else ret"]
      by (simp del: of_int_add)
  qed
qed simp

lemma matrix_sum_vals:
  assumes "matrix_sum N C clip = Some r" "length C = N * N"
  shows "r = word_of_int (sum_vals (sint clip) (map sint C) 0 0 0)"
proof -
  obtain t p where "for_loop 0 (length C) (\<lambda>k. sum_step clip (C ! k)) (0, 0, word_of_int 0) = Some (t, p, r)"
    using assms(1) unfolding matrix_sum_eq[OF assms(2)] by (auto simp: assms(2))
  from sum_loop_vals[OF this] show ?thesis by simp
qed

text \<open>Without negative elements every element exceeds a negative clip value.\<close>

lemma sum_vals_nonneg: "clip < 0 \<Longrightarrow> \<forall>c\<in>set cs. 0 \<le> c \<Longrightarrow> sum_vals clip cs 0 prev ret = ret + 10 * int (length cs)"
  by (induction cs arbitrary: prev ret) auto

section \<open>The test on the standard matrices\<close>

definition A_list :: "int \<Rightarrow> int list" where
  "A_list s = map (alpha s) [0..<81]"

definition B_list :: "int \<Rightarrow> int list" where
  "B_list s = map (\<lambda>k. sint (B_val s k)) [0..<81]"

text \<open>Both lists from one run of the seed.\<close>

fun seed_vals :: "nat \<Rightarrow> int \<Rightarrow> int \<Rightarrow> int list" where
  "seed_vals 0 k x = []"
| "seed_vals (Suc n) k x = (let y = sgn x * (k * \<bar>x\<bar> mod 65536) in y # seed_vals n (k + 1) y)"

lemma seed_vals: "seed_vals n (int (Suc j)) (seed_at s j) = map (\<lambda>i. seed_at s (Suc (j + i))) [0..<n]"
proof (induction n arbitrary: j)
  case (Suc n)
  have "seed_vals (Suc n) (int (Suc j)) (seed_at s j) = seed_at s (Suc j) # seed_vals n (int (Suc (Suc j))) (seed_at s (Suc j))"
    by (simp add: Let_def add.commute)
  also have "\<dots> = map (\<lambda>i. seed_at s (Suc (j + i))) (0 # map Suc [0..<n])"
    by (simp only: Suc list.map map_map comp_def add_Suc_right add_Suc add_0_right)
  also have "0 # map Suc [0..<n] = [0..<Suc n]" by (simp only: upt_conv_Cons map_Suc_upt zero_less_Suc)
  finally show ?case .
qed simp

lemma seed_vals_81: "seed_vals 81 1 s = map (\<lambda>i. seed_at s (Suc i)) [0..<81]" "[1..81] = map (\<lambda>k. int (Suc k)) [0..<81]"
proof -
  show "seed_vals 81 1 s = map (\<lambda>i. seed_at s (Suc i)) [0..<81]" using seed_vals[of 81 0 s] by simp
  show "[1..81] = map (\<lambda>k. int (Suc k)) [0..<81]" by (rule nth_equalityI) (simp_all add: nth_upto)
qed

lemma A_list_vals [code]: "A_list s = map2 (\<lambda>k y. (y + 2 * k) mod 256) [1..81] (seed_vals 81 1 s)"
proof -
  have "alpha s k = (seed_at s (Suc k) + 2 * int (Suc k)) mod 256" for k
  proof -
    have "B_val s k + of_nat (Suc k) = word_of_int (seed_at s (Suc k) + 2 * int (Suc k))"
      by (simp add: B_val_def del: seed_at.simps)
    then have "alpha s k = (seed_at s (Suc k) + 2 * int (Suc k)) mod 65536 mod 256"
      unfolding alpha_eq by (simp only: uint_word_of_int_eq take_bit_eq_mod) simp
    then show ?thesis by (simp only: mod_mod_cancel[of 256 "65536 :: int"] dvd_numeral_simp) (simp add: mod_mod_cancel)
  qed
  then show ?thesis unfolding A_list_def seed_vals_81 by (simp add: zip_map_map zip_same_conv_map del: seed_at.simps)
qed

lemma B_list_vals [code]: "B_list s = map2 (\<lambda>k y. (y + k + 32768) mod 65536 - 32768) [1..81] (seed_vals 81 1 s)"
proof -
  have "sint (word_of_int x :: ee_s16) = (x + 32768) mod 65536 - 32768" for x
    by (simp add: sint_sbintrunc' signed_take_bit_eq_take_bit_shift take_bit_eq_mod)
  then show ?thesis unfolding B_list_def B_val_def seed_vals_81 by (simp add: zip_map_map zip_same_conv_map del: seed_at.simps of_int_add)
qed

text \<open>Rows and columns, and inner products of integer lists.\<close>

fun inner :: "int list \<Rightarrow> int list \<Rightarrow> int" where
  "inner (a # as) (b # bs) = a * b + inner as bs"
| "inner _ _ = 0"

definition row :: "int list \<Rightarrow> nat \<Rightarrow> int list" where
  "row xs i = map (\<lambda>k. xs ! (i * 9 + k)) [0..<9]"

definition column :: "int list \<Rightarrow> nat \<Rightarrow> int list" where
  "column xs j = map (\<lambda>k. xs ! (k * 9 + j)) [0..<9]"

definition vect_vals :: "int list \<Rightarrow> int list \<Rightarrow> int \<Rightarrow> int list" where
  "vect_vals A B v = map (\<lambda>i. inner (row A i) (take 9 B)) [0..<9] @ map (\<lambda>a. a * v) (drop 9 A)"

definition product_vals :: "int list \<Rightarrow> int list \<Rightarrow> int list" where
  "product_vals A B = concat (map (\<lambda>i. map (\<lambda>j. inner (row A i) (column B j)) [0..<9]) [0..<9])"

lemma inner_sum: "inner (map f [0..<n]) (map g [0..<n]) = (\<Sum>k<n. f k * g k)"
proof -
  have "inner (xs @ [x]) (ys @ [y]) = inner xs ys + x * y" if "length xs = length ys" for xs ys x y
    using that by (induction xs ys rule: list_induct2) simp_all
  then show ?thesis by (induction n) simp_all
qed

definition matrix_vals :: "int \<Rightarrow> int list \<Rightarrow> int list \<Rightarrow> int \<Rightarrow> ee_s16" where
  "matrix_vals clip A B v =
     (let A = map (\<lambda>a. a + v) A
      in crc16 810 (crc16 (word_of_int (sum_vals clip (product_vals A B) 0 0 0))
           (crc16 (word_of_int (sum_vals clip (vect_vals A B v) 0 0 0)) (crc16 810 0))))"

lemma concat_square: "concat (map (\<lambda>i. map (f i) [0..<n]) [0..<m]) = map (\<lambda>k. f (k div n) (k mod n)) [0..<m * n]" if "0 < n"
proof (induction m)
  case (Suc m)
  have "map (\<lambda>k. f (k div n) (k mod n)) [m * n..<m * n + n] = map (f m) [0..<n]"
    by (rule nth_equalityI) (simp_all add: that)
  moreover have "[0..<Suc m * n] = [0..<m * n] @ [m * n..<m * n + n]"
    using upt_add_eq_append[of 0 "m * n" n] by (simp add: add.commute[of n])
  ultimately show ?case using Suc by simp
qed simp

lemma matrix_test_vals:
  assumes "0 \<le> sint val" "sint val \<le> 255" "length C = 81"
  shows "\<exists>C'. matrix_test 9 C (map (A_val s) [0..<81]) (map (B_val s) [0..<81]) val =
    Some (matrix_vals (sint (matrix_big val)) (A_list s) (B_list s) (sint val), C', map (A_val s) [0..<81])"
proof -
  let ?A = "map (A_val s) [0..<81]" and ?B = "map (B_val s) [0..<81]" and ?clip = "sint (matrix_big val)"
  define A' where A': "A' = map (\<lambda>k. A_val s k + val) [0..<81]"
  have fits: "fits 9 510 32768 A' ?B" unfolding A' by (rule std_fits[OF assms(1,2)])
  have len: "length (after_mul_const A' val) = 9 * 9" "length (after_mul_vect 9 A' ?B val) = 9 * 9"
    "length (after_mul_matrix 9 A' ?B) = 9 * 9" "length (after_bitextract 9 A' ?B) = 9 * 9"
    by (simp_all add: A' after_mul_const_def after_mul_vect_def after_mul_matrix_def after_bitextract_def)
  note sums = std_sums[OF assms(1,2) A' refl]
  obtain r1 r2 r3 r4 where r: "matrix_sum 9 (after_mul_const A' val) (matrix_big val) = Some r1"
    "matrix_sum 9 (after_mul_vect 9 A' ?B val) (matrix_big val) = Some r2"
    "matrix_sum 9 (after_mul_matrix 9 A' ?B) (matrix_big val) = Some r3"
    "matrix_sum 9 (after_bitextract 9 A' ?B) (matrix_big val) = Some r4"
    using matrix_sum_defined[OF len(1) sint_matrix_big sums(1)] matrix_sum_defined[OF len(2) sint_matrix_big sums(2)]
      matrix_sum_defined[OF len(3) sint_matrix_big sums(3)] matrix_sum_defined[OF len(4) sint_matrix_big sums(4)]
    by blast
  have test: "matrix_test 9 C ?A ?B val = Some (crc16 r4 (crc16 r3 (crc16 r2 (crc16 r1 0))), after_bitextract 9 A' ?B, ?A)"
    using matrix_test_eq[OF fits _ _ r, of C] assms(3) by (simp add: A' comp_def)
  note r = matrix_sum_vals[OF r(1) len(1)] matrix_sum_vals[OF r(2) len(2)] matrix_sum_vals[OF r(3) len(3)]
    matrix_sum_vals[OF r(4) len(4)]
  define A where "A = map (\<lambda>a. a + sint val) (A_list s)"
  have sA: "sint (A' ! k) = A ! k" if "k < 81" for k
    using that shifted_alpha[OF assms(1,2), of s k] by (simp add: A' A_def A_list_def)
  have lA: "length A' = 81" "length A = 81" by (simp_all add: A' A_def A_list_def)
  have c1: "map sint (after_mul_const A' val) = map (\<lambda>a. a * sint val) A"
    by (rule nth_equalityI) (simp_all add: after_mul_const_def lA sint_scast_mult sA)
  have "\<forall>a\<in>set A. 0 \<le> a" using alpha_bounds(1) assms(1) by (auto simp: A_def A_list_def)
  then have r1: "r1 = 810" using sum_vals_nonneg[OF sint_matrix_big, of "map (\<lambda>a. a * sint val) A" val] assms(1) lA
    unfolding r(1) c1 by simp
  have "\<forall>c\<in>set (map sint (after_bitextract 9 A' ?B)). 0 \<le> c" by (auto simp: after_bitextract_def sint_bit_dot)
  then have r4: "r4 = 810" using sum_vals_nonneg[OF sint_matrix_big, of "map sint (after_bitextract 9 A' ?B)" val] len(4)
    unfolding r(4) by simp
  have dot: "dot 9 A' ?B i j = inner (row A i) (column (B_list s) j)" if "i < 9" "j < 9" for i j
    using that unfolding row_def column_def inner_sum dot_def by (intro sum.cong refl) (simp add: sA B_list_def)
  have "map sint (after_mul_matrix 9 A' ?B) = map (\<lambda>k. dot 9 A' ?B (k div 9) (k mod 9)) [0..<9 * 9]"
    using acc_loop_dot(2)[OF fits] by (simp add: after_mul_matrix_def sint_of_int_s32)
  also have "\<dots> = product_vals A (B_list s)"
    unfolding product_vals_def concat_square[of 9 _ 9, simplified] by (simp add: dot)
  finally have r3: "r3 = word_of_int (sum_vals ?clip (product_vals A (B_list s)) 0 0 0)" unfolding r(3) by simp
  have "dotv 9 A' ?B i = inner (row A i) (take 9 (B_list s))" if "i < 9" for i
  proof -
    have "take 9 (B_list s) = map (\<lambda>k. B_list s ! k) [0..<9]" by (rule nth_equalityI) (simp_all add: B_list_def)
    then show ?thesis
      using that unfolding row_def inner_sum dotv_def by (simp only: inner_sum) (intro sum.cong refl, simp add: sA B_list_def)
  qed
  then have "map sint (after_mul_vect 9 A' ?B val) = vect_vals A (B_list s) (sint val)"
    using acc_loop_dotv(2)[OF fits] c1 by (simp add: after_mul_vect_def vect_vals_def sint_of_int_s32 drop_map[symmetric])
  then have r2: "r2 = word_of_int (sum_vals ?clip (vect_vals A (B_list s) (sint val)) 0 0 0)" unfolding r(2) by simp
  show ?thesis using test unfolding r1 r2 r3 r4 by (simp add: matrix_vals_def A_def Let_def)
qed

end
