(* ===== verification/Known_Run.thy ===== *)
theory Known_Run
  imports Known_State Known_Matrix Core_Main List_Value
begin

text \<open>
  The performance run and the validation run of \<open>coremark/src/core_main.c\<close>, evaluated: the checksums that the model of the
  code computes are those in the tables of \<open>core_main.c\<close>. The list benchmark is replaced by the function \<open>bench_list_value\<close>
  that it refines, a state run by a scan of the generated bytes, a matrix run by integer products; what is left is
  evaluated.
\<close>

section \<open>The values of the data\<close>

text \<open>Two ways to compute state and matrix results that agree on the data of a cell.\<close>

definition agree_on ::
  "(ee_s16 \<Rightarrow> ee_u16 \<Rightarrow> ee_u16) \<Rightarrow> (ee_s16 \<Rightarrow> ee_s16) \<Rightarrow> (ee_s16 \<Rightarrow> ee_u16 \<Rightarrow> ee_u16) \<Rightarrow> (ee_s16 \<Rightarrow> ee_s16) \<Rightarrow> list_data \<Rightarrow> bool"
  where
  "agree_on st mx st' mx' c \<longleftrightarrow> bit (data16 c) 7 \<or>
     (data16 c AND 0x7 = 0 \<longrightarrow> st (data_step (data16 c)) = st' (data_step (data16 c))) \<and>
     (data16 c AND 0x7 = 1 \<longrightarrow> mx (data_dtype (data16 c)) = mx' (data_dtype (data16 c)))"

lemma cell_value_cong: "agree_on st mx st' mx' c \<Longrightarrow> cell_value st mx c q = cell_value st' mx' c q"
  by (cases q) (auto simp: agree_on_def cell_value_def data_value_def)

lemma all_values_cong: "\<forall>c\<in>set cs. agree_on st mx st' mx' c \<Longrightarrow> all_values st mx cs q = all_values st' mx' cs q"
proof (induction cs arbitrary: q)
  case (Cons c cs)
  then have "cell_value st mx c q = cell_value st' mx' c q" by (intro cell_value_cong) simp
  with Cons show ?case by (simp add: case_prod_unfold)
qed simp

lemma mset_search_once: "mset (fst (search_once val i q)) = mset (fst q)"
proof -
  obtain xs rv fo mi k where q: "q = (xs, rv, fo, mi, k)" by (metis prod_cases5)
  show ?thesis
    by (cases "first_such (\<lambda>x. wanted (of_nat i AND 0xff) k (val x)) xs")
      (auto simp: q search_once_def Let_def dest!: mset_found_order)
qed

lemma mset_searches: "mset (fst (fold (search_once val) is q)) = mset (fst q)"
  by (induction "is" arbitrary: q) (simp_all add: mset_search_once)

lemma bench_list_value_cong:
  assumes "\<forall>c\<in>set cs. agree_on st mx st' mx' c"
  shows "bench_list_value st mx n cs q k = bench_list_value st' mx' n cs q k"
proof -
  obtain ds rv fo mi k' where s: "fold (search_once (\<lambda>c. c)) [0..<nat (sint n)] (cs, 0, 0, 0, k) = (ds, rv, fo, mi, k')"
    by (metis prod_cases5)
  then have "set ds = set cs" using mset_searches[of "\<lambda>c. c" "[0..<nat (sint n)]" "(cs, 0, 0, 0, k)"] by (auto dest: mset_eq_setD)
  then have "all_values st mx ds q = all_values st' mx' ds q" using all_values_cong assms by simp
  then show ?thesis by (simp only: bench_list_value_def Let_def s prod.case)
qed

section \<open>The results of the two runs\<close>

text \<open>The data of the list, and the results of the state and matrix runs that they ask for.\<close>

definition known_cells :: "bool \<Rightarrow> list_data list" where
  "known_cells validation = map (\<lambda>(d, i). \<lparr>data16 = d, idx = i\<rparr>)
     (if validation then
        [(0x8080, 0x0000), (0x7373, 0x0001), (0x7a7a, 0x0002), (0x6161, 0x0003), (0x6868, 0x0004), (0x1717, 0x0005),
         (0x0505, 0x3402), (0x6161, 0x3406), (0x2121, 0x340e), (0x0505, 0x3412), (0x4545, 0x341a), (0x2121, 0x341e),
         (0x6868, 0x3501), (0x4c4c, 0x3505), (0x2828, 0x3509), (0x0c0c, 0x350d), (0x2828, 0x3519), (0x0c0c, 0x351d),
         (0x1717, 0x3600), (0x7373, 0x3604), (0x3333, 0x360c), (0x5757, 0x3618), (0x3333, 0x361c), (0x1e1e, 0x3703),
         (0x7a7a, 0x3707), (0x3a3a, 0x370f), (0x1e1e, 0x3713), (0x5e5e, 0x371b), (0x3a3a, 0x371f), (0xffff, 0x7fff)]
      else
        [(0x8080, 0x0000), (0x5b5b, 0x0001), (0x5252, 0x0002), (0x4949, 0x0003), (0x4040, 0x0004), (0x3f3f, 0x0005),
         (0x2d2d, 0x0007), (0x6d6d, 0x000f), (0x2d2d, 0x0017), (0x2424, 0x0108), (0x6464, 0x0110), (0x2424, 0x0118),
         (0x1b1b, 0x0209), (0x5b5b, 0x0211), (0x1b1b, 0x0219), (0x1212, 0x030a), (0x5252, 0x0312), (0x1212, 0x031a),
         (0x0909, 0x040b), (0x4949, 0x0413), (0x0909, 0x041b), (0x0000, 0x050c), (0x4040, 0x0514), (0x0000, 0x051c),
         (0x7f7f, 0x060d), (0x3f3f, 0x0615), (0x3636, 0x0706), (0x7676, 0x070e), (0x3636, 0x0716), (0xffff, 0x7fff)])"

definition known_state :: "bool \<Rightarrow> ee_s16 \<Rightarrow> ee_u16 \<Rightarrow> ee_u16" where
  "known_state validation step =
     (if validation then
        if step = 0x55 then crc_tallies [231, 33, 101, 50, 92, 57, 44, 0] [23, 78, 0, 0, 78, 43, 0, 32]
        else crc_tallies [226, 32, 99, 52, 90, 56, 46, 0] [22, 72, 0, 0, 76, 44, 0, 34]
      else crc_tallies [234, 34, 108, 48, 86, 54, 42, 0] [22, 80, 0, 0, 78, 44, 0, 32])"

definition known_matrix :: "bool \<Rightarrow> ee_s16 \<Rightarrow> ee_s16" where
  "known_matrix validation d = (if validation then 30853 else if d = 0x11 then 7153 else 40949)"

text \<open>The steps and the values that occur.\<close>

definition known_steps :: "bool \<Rightarrow> ee_s16 set" where
  "known_steps validation = (if validation then {0x55, 0xdd} else {0x22, 0x88})"

definition known_dtypes :: "bool \<Rightarrow> ee_s16 set" where
  "known_dtypes validation = (if validation then {0x44, 0xcc} else {0x11, 0x99})"

lemma known_cells_init: "init_cells (run_seed b) (list_items 666) = known_cells b"
proof -
  have "init_cells 0 (list_items 666) = known_cells False" by code_simp
  moreover have "init_cells 0x3415 (list_items 666) = known_cells True" by code_simp
  ultimately show ?thesis by (cases b) (simp_all add: run_seed_def)
qed

lemma known_cells_use:
  "\<forall>c\<in>set (known_cells b). bit (data16 c) 7 \<or> (data16 c AND 0x7 = 0 \<longrightarrow> data_step (data16 c) \<in> known_steps b) \<and>
     (data16 c AND 0x7 = 1 \<longrightarrow> data_dtype (data16 c) \<in> known_dtypes b)"
proof -
  have "\<forall>c\<in>set (known_cells False). bit (data16 c) 7 \<or> (data16 c AND 0x7 = 0 \<longrightarrow> data_step (data16 c) \<in> known_steps False) \<and>
     (data16 c AND 0x7 = 1 \<longrightarrow> data_dtype (data16 c) \<in> known_dtypes False)" by code_simp
  moreover have "\<forall>c\<in>set (known_cells True). bit (data16 c) 7 \<or> (data16 c AND 0x7 = 0 \<longrightarrow> data_step (data16 c) \<in> known_steps True) \<and>
     (data16 c AND 0x7 = 1 \<longrightarrow> data_dtype (data16 c) \<in> known_dtypes True)" by code_simp
  ultimately show ?thesis by (cases b) simp_all
qed

subsection \<open>State runs\<close>

lemma corrupt_vals_0: "corrupt_vals j k 0 cs = cs"
  by (induction j k "0 :: int" cs rule: corrupt_vals.induct) simp_all

lemma performance_tallies: "tallies (text_vals 665 1) = Some ([117, 17, 54, 24, 43, 27, 21, 0], [11, 40, 0, 0, 39, 22, 0, 16])"
  by code_simp

lemma validation_tallies:
  "tallies (text_vals 665 0x3416) = Some ([113, 16, 50, 26, 45, 28, 23, 0], [11, 36, 0, 0, 38, 22, 0, 17])"
  by code_simp

lemma validation_tallies_55:
  "tallies (corrupt_vals 0 0x55 0x15 (text_vals 665 0x3416)) = Some ([118, 17, 51, 24, 47, 29, 21, 0], [12, 42, 0, 0, 40, 21, 0, 15])"
  by code_simp

lemma validation_tallies_dd:
  "tallies (corrupt_vals 0 0xdd 0x15 (text_vals 665 0x3416)) = Some ([113, 16, 49, 26, 45, 28, 23, 0], [11, 36, 0, 0, 38, 22, 0, 17])"
  by code_simp

lemma known_state_result:
  assumes "standard_input (run_seed b) t xs" "step \<in> known_steps b"
  shows "state_result t step = known_state b step"
proof (rule ext)
  fix crc
  let ?s = "run_seed b"
  obtain p where p: "length p = 666" "core_init_state 666 ?s p = Some (memblock3 t)"
    and f: "rsize t = 666" "seed1 t = ?s" "seed2 t = ?s"
    using assms(1) by (auto simp: standard_input_def)
  note m = init_state_vals[OF p(2,1)]
  have len: "length (memblock3 t) = unat (666 :: ee_u32)" using m(2) by simp
  have step: "2 \<le> sint step" using assms(2) by (cases b) (auto simp: known_steps_def)
  note run = core_bench_state_tallies[OF _ _ len step, of _ _ ?s _ _ ?s crc]
  show "state_result t step crc = known_state b step crc"
  proof (cases b)
    case False
    then have "map uint (memblock3 t) = text_vals 665 1" "uint (ucast ?s :: ee_u8) = 0" using m(1) by (simp_all add: run_seed_def)
    with run performance_tallies obtain m' where
      "core_bench_state 666 (memblock3 t) ?s ?s step crc = Some (crc_tallies [234, 34, 108, 48, 86, 54, 42, 0] [22, 80, 0, 0, 78, 44, 0, 32] crc, m')"
      by (fastforce simp: corrupt_vals_0)
    with False f show ?thesis by (simp add: state_result_def known_state_def)
  next
    case True
    then have v: "map uint (memblock3 t) = text_vals 665 0x3416" "uint (ucast ?s :: ee_u8) = 0x15" using m(1) by (simp_all add: run_seed_def)
    consider "step = 0x55" | "step = 0xdd" using assms(2) True by (auto simp: known_steps_def)
    then show ?thesis
    proof cases
      case 1
      then have "sint step = 0x55" by simp
      with run validation_tallies validation_tallies_55 v obtain m' where
        "core_bench_state 666 (memblock3 t) ?s ?s step crc = Some (crc_tallies [231, 33, 101, 50, 92, 57, 44, 0] [23, 78, 0, 0, 78, 43, 0, 32] crc, m')"
        by fastforce
      with True 1 f show ?thesis by (simp add: state_result_def known_state_def)
    next
      case 2
      then have "sint step = 0xdd" by simp
      with run validation_tallies validation_tallies_dd v obtain m' where
        "core_bench_state 666 (memblock3 t) ?s ?s step crc = Some (crc_tallies [226, 32, 99, 52, 90, 56, 46, 0] [22, 72, 0, 0, 76, 44, 0, 34] crc, m')"
        by fastforce
      with True 2 f show ?thesis by (simp add: state_result_def known_state_def)
    qed
  qed
qed

subsection \<open>Matrix runs\<close>

lemma performance_matrix:
  "matrix_vals (sint (matrix_big 0x11)) (A_list 1) (B_list 1) 0x11 = 7153"
  "matrix_vals (sint (matrix_big 0x99)) (A_list 1) (B_list 1) 0x99 = 40949"
  by code_simp+

lemma validation_matrix:
  "matrix_vals (sint (matrix_big 0x44)) (A_list 0x34153415) (B_list 0x34153415) 0x44 = 30853"
  "matrix_vals (sint (matrix_big 0xcc)) (A_list 0x34153415) (B_list 0x34153415) 0xcc = 30853"
  by code_simp+

lemma known_matrix_result:
  assumes "standard_input (run_seed b) t xs" "d \<in> known_dtypes b"
  shows "matrix_result t d = known_matrix b d"
proof -
  let ?s = "run_seed b" and ?i = "if b then 0x34153415 else 1 :: int"
  have i: "init_seed (scast (run_seed b) OR push_bit 16 (scast (run_seed b))) = ?i"
  proof -
    have "init_seed (scast (0 :: ee_s16) OR push_bit 16 (scast (0 :: ee_s16))) = 1"
      "init_seed (scast (0x3415 :: ee_s16) OR push_bit 16 (scast (0x3415 :: ee_s16))) = 0x34153415" by code_simp+
    then show ?thesis by (cases b) (simp_all add: run_seed_def)
  qed
  obtain C where C: "length C = 81" "mat t = standard_mat ?i C" using assms(1) unfolding standard_input_def i by blast
  have d: "0 \<le> sint d" "sint d \<le> 255" using assms(2) by (cases b; auto simp: known_dtypes_def)+
  obtain C' where "matrix_test 9 C (map (A_val ?i) [0..<81]) (map (B_val ?i) [0..<81]) d =
      Some (matrix_vals (sint (matrix_big d)) (A_list ?i) (B_list ?i) (sint d), C', map (A_val ?i) [0..<81])"
    using matrix_test_vals[OF d C(1)] by blast
  then have r: "matrix_result t d = matrix_vals (sint (matrix_big d)) (A_list ?i) (B_list ?i) (sint d)"
    using C(2) by (simp add: matrix_result_def standard_mat_def)
  show ?thesis
  proof (cases b)
    case False
    then have "d = 0x11 \<and> sint d = 0x11 \<or> d = 0x99 \<and> sint d = 0x99" using assms(2) by (auto simp: known_dtypes_def)
    with False r performance_matrix show ?thesis by (auto simp: known_matrix_def)
  next
    case True
    then have "d = 0x44 \<and> sint d = 0x44 \<or> d = 0xcc \<and> sint d = 0xcc" using assms(2) by (auto simp: known_dtypes_def)
    with True r validation_matrix show ?thesis by (auto simp: known_matrix_def)
  qed
qed

section \<open>The iteration\<close>

lemma performance_value_1:
  "bench_list_value (known_state False) (known_matrix False) 0x66 (known_cells False) (0, 0, 0) 1 = (49034, 36740, 0x1fd7, 0x8e3a)"
  by code_simp

lemma performance_value_2:
  "bench_list_value (known_state False) (known_matrix False) 0x66 (known_cells False) q (-1) = (32822, q)"
  by code_simp

lemma validation_value_1:
  "bench_list_value (known_state True) (known_matrix True) 0x66 (known_cells True) (0, 0, 0) 1 = (9557, 6223, 0x0747, 0x8d84)"
  by code_simp

lemma validation_value_2:
  "bench_list_value (known_state True) (known_matrix True) 0x66 (known_cells True) q (-1) = (35637, q)"
  by code_simp

lemma list_crcs: "crcu16 32822 (crcu16 49034 36740) = 0xe714" "crcu16 35637 (crcu16 9557 6223) = 0xe3c1"
  by code_simp+

lemma node_data_same: "heads t = heads r \<Longrightarrow> datas t = datas r \<Longrightarrow> node_data t = node_data r"
  by (rule ext) (simp add: node_data_def)

lemma standard_input_same:
  assumes "standard_input s r xs" "same_input r t"
  shows "standard_input s t xs"
proof -
  have f: "heads t = heads r" "datas t = datas r" "seed1 t = seed1 r" "seed2 t = seed2 r" "rsize t = rsize r" "memblock3 t = memblock3 r"
    "mat_N (mat t) = mat_N (mat r)" "mat_A (mat t) = mat_A (mat r)" "mat_B (mat t) = mat_B (mat r)"
    "length (mat_C (mat t)) = length (mat_C (mat r))"
    using assms(2) by (auto simp: same_input_def frame_def clear_crcs_def)
  obtain C where C: "length C = 81" "mat r = standard_mat (init_seed (scast s OR push_bit 16 (scast s))) C"
    using assms(1) by (auto simp: standard_input_def)
  have "mat t = standard_mat (init_seed (scast s OR push_bit 16 (scast s))) (mat_C (mat t))" "length (mat_C (mat t)) = 81"
    using C f(7-10) by (simp_all add: standard_mat_def)
  then have m: "\<exists>C. length C = 81 \<and> mat t = standard_mat (init_seed (scast s OR push_bit 16 (scast s))) C" by blast
  note i = assms(1)[unfolded standard_input_def]
  show ?thesis unfolding standard_input_def
    by (intro conjI m) (use i in \<open>simp_all add: f(3-6) node_data_same[OF f(1,2)]\<close>)
qed

lemma known_bench_list:
  assumes "list_ready r xs" "bench_ok r" "standard_input (run_seed b) r xs" "seed3 r = 0x66"
  shows "\<exists>crc t. core_bench_list r k = Some (crc, t) \<and> same_input r t \<and>
    (crc, crcs_of t) = bench_list_value (known_state b) (known_matrix b) 0x66 (known_cells b) (crcs_of r) k"
proof -
  have "map (the \<circ> node_data r) xs = known_cells b"
    using assms(3) known_cells_init[of b] by (simp add: standard_input_def)
  moreover have "\<forall>c\<in>set (known_cells b). agree_on (state_result r) (matrix_result r) (known_state b) (known_matrix b) c"
    using known_cells_use[of b] known_state_result[OF assms(3)] known_matrix_result[OF assms(3)] by (auto simp: agree_on_def)
  moreover obtain crc t where "core_bench_list r k = Some (crc, t)" "heads t = heads r" "datas t = datas r" "frame r t"
    "(crc, crcs_of t) = bench_list_value (state_result r) (matrix_result r) (seed3 r) (map (the \<circ> node_data r) xs) (crcs_of r) k"
    using bench_list_value_total[OF assms(1,2)] by blast
  ultimately show ?thesis using assms(4) bench_list_value_cong
    by (intro exI[of _ crc] exI[of _ t]) (auto simp: same_input_def frame_def clear_crcs_def)
qed

text \<open>The first iteration gives the checksums of the tables.\<close>

lemma known_first_iteration:
  assumes "list_ready r xs" "bench_ok r" "standard_input (run_seed b) r xs" "seed3 r = 0x66"
  shows "\<exists>t. iterate_step 0 (clear_crcs r) = Some t \<and> all_known (if b then 4 else 3) t"
proof -
  note keep = list_ready_same bench_ok_same standard_input_same
  let ?r = "clear_crcs r"
  have r: "list_ready ?r xs" "bench_ok ?r" "standard_input (run_seed b) ?r xs" "seed3 ?r = 0x66" "crcs_of ?r = (0, 0, 0)"
    using keep(1)[OF same_input_clear assms(1)] keep(2)[OF same_input_clear assms(2)] keep(3)[OF assms(3) same_input_clear] assms(4)
    by (simp_all add: clear_crcs_def crcs_of_def)
  obtain c1 t1 where t1: "core_bench_list ?r 1 = Some (c1, t1)" "same_input ?r t1"
    "(c1, crcs_of t1) = bench_list_value (known_state b) (known_matrix b) 0x66 (known_cells b) (0, 0, 0) 1"
    using known_bench_list[OF r(1-4), of 1] r(5) by auto
  let ?t1 = "t1\<lparr>rcrc := crcu16 c1 (rcrc t1)\<rparr>"
  have s: "same_input ?r ?t1" using t1(2) by (simp add: same_input_def)
  then have "seed3 ?t1 = 0x66" using r(4) by (simp add: same_input_def frame_def clear_crcs_def)
  then obtain c2 t2 where t2: "core_bench_list ?t1 (-1) = Some (c2, t2)"
    "(c2, crcs_of t2) = bench_list_value (known_state b) (known_matrix b) 0x66 (known_cells b) (crcs_of ?t1) (-1)"
    using known_bench_list[OF keep(1)[OF s r(1)] keep(2)[OF s r(2)] keep(3)[OF r(3) s], of "-1"] by auto
  let ?c = "crcu16 c2 (rcrc t2)"
  have "iterate_step 0 ?r = Some (t2\<lparr>rcrc := ?c, crclist := ?c\<rparr>)" using t1(1) t2(1) by (simp add: iterate_step_def Let_def)
  moreover have "all_known (if b then 4 else 3) (t2\<lparr>rcrc := ?c, crclist := ?c\<rparr>)"
  proof (cases b)
    case False
    then have "c1 = 49034 \<and> rcrc t1 = 36740 \<and> crcmatrix t1 = 0x1fd7 \<and> crcstate t1 = 0x8e3a"
      using t1(3) performance_value_1 by (simp add: crcs_of_def)
    moreover from this have "c2 = 32822 \<and> rcrc t2 = crcu16 49034 36740 \<and> crcmatrix t2 = 0x1fd7 \<and> crcstate t2 = 0x8e3a"
      using t2(2) performance_value_2 False by (simp add: crcs_of_def)
    ultimately show ?thesis
      using False list_crcs(1) by (simp add: all_known_def list_known_crc_def matrix_known_crc_def state_known_crc_def)
  next
    case True
    then have "c1 = 9557 \<and> rcrc t1 = 6223 \<and> crcmatrix t1 = 0x0747 \<and> crcstate t1 = 0x8d84"
      using t1(3) validation_value_1 by (simp add: crcs_of_def)
    moreover from this have "c2 = 35637 \<and> rcrc t2 = crcu16 9557 6223 \<and> crcmatrix t2 = 0x0747 \<and> crcstate t2 = 0x8d84"
      using t2(2) validation_value_2 True by (simp add: crcs_of_def)
    ultimately show ?thesis
      using True list_crcs(2) by (simp add: all_known_def list_known_crc_def matrix_known_crc_def state_known_crc_def)
  qed
  ultimately show ?thesis by blast
qed

lemma known_iterate:
  assumes "list_ready r xs" "bench_ok r" "standard_input (run_seed b) r xs" "seed3 r = 0x66" "iterations r \<noteq> 0"
  shows "\<exists>t. iterate r = Some t \<and> all_known (if b then 4 else 3) t"
proof -
  have "0 < unat (iterations r)" using assms(5) by (simp add: unat_gt_0)
  then obtain t1 t where t: "iterate_step 0 (clear_crcs r) = Some t1" "iterate r = Some t" "crclist t = crclist t1"
    "crcmatrix t1 \<noteq> 0 \<longrightarrow> crcmatrix t = crcmatrix t1" "crcstate t1 \<noteq> 0 \<longrightarrow> crcstate t = crcstate t1"
    using iterate_first[OF assms(1,2)] by blast
  have k: "all_known (if b then 4 else 3) t1" using known_first_iteration[OF assms(1-4)] t(1) by auto
  have "matrix_known_crc ! 4 \<noteq> 0" "matrix_known_crc ! 3 \<noteq> 0" "state_known_crc ! 4 \<noteq> 0" "state_known_crc ! 3 \<noteq> 0"
    by (simp_all add: matrix_known_crc_def state_known_crc_def)
  with t k show ?thesis by (intro exI[of _ t]) (simp add: all_known_def split: if_splits)
qed

section \<open>Properties\<close>

text \<open>
  C1. The performance run and the validation run of the port, complete: from arbitrary contents of the memory block,
  for every positive iteration count below \<open>2 ^ 31\<close>, with a timer that advances during the run and a transmitter that keeps coming
  free, \<open>main\<close> terminates without undefined behaviour and returns 0; the checksums of list, matrix and state machine
  that the code computes are those in its tables of known values, no error is counted, the last line printed is
  \<open>Correct operation validated\<close>, and what goes to the transmitter are the texts of the calls of \<open>ee_printf\<close>, in order.
\<close>

theorem main_validates:
  assumes "raw_memory r" "0 < unat n" "unat n < 2 ^ 31" "mt (Suc (mtime_reads p)) \<noteq> mt (mtime_reads p)" "ready st"
    and "CHR 0x00 \<notin> set cflags" "length cflags \<le> 900"
  shows "\<exists>t p' calls m. core_main mt ilp32 cflags base (run_seeds b n) r p = Some (0, t, p', calls) \<and>
    all_known (if b then 4 else 3) t \<and>
    last calls = (line ''Correct operation validated. See README.md for run and reporting rules.'', []) \<and>
    main_prints st mt ilp32 cflags base (run_seeds b n) r p u =
      Some (0, u\<lparr>ureads := m, usent := usent u @ map of_char (concat (map sent_text calls))\<rparr>)"
proof -
  have n: "n \<noteq> 0" using assms(2) by auto
  obtain e t p' calls m where run: "core_main mt ilp32 cflags base (run_seeds b n) r p = Some (e, t, p', calls)"
    "e = 0 \<longleftrightarrow> all_known (if b then 4 else 3) t"
    "last calls = (line ''Correct operation validated. See README.md for run and reporting rules.'', []) \<longleftrightarrow> e = 0"
    "main_prints st mt ilp32 cflags base (run_seeds b n) r p u =
      Some (0, u\<lparr>ureads := m, usent := usent u @ map of_char (concat (map sent_text calls))\<rparr>)"
    using main_run[OF assms, of base b u] by (elim exE conjE) (rule that)
  obtain s v where s: "main_init base (run_seeds b n) r = Some s" "iterate s = Some v" "t = v\<lparr>err := e\<rparr>"
    using core_main_run[OF assms(1) n assms(4), of cflags base b] run(1) by auto
  obtain xs where "list_ready s xs" "bench_ok s" "standard_input (run_seed b) s xs" "seed3 s = 0x66" "iterations s = n"
    using main_init_run[OF assms(1), of base b n] s(1) by auto
  then have "all_known (if b then 4 else 3) v" using known_iterate n s(2) by fastforce
  then have "all_known (if b then 4 else 3) t" unfolding s(3) by (simp add: all_known_def)
  with run show ?thesis by auto
qed

theorem main_validates_witness:
  "\<exists>t p' calls. core_main of_nat ilp32 ''-O2'' 0x80001000 (run_seeds True 10) sample_memory sample_port = Some (0, t, p', calls) \<and>
    crclist t = 0xe3c1 \<and> last calls = (line ''Correct operation validated. See README.md for run and reporting rules.'', [])"
proof -
  have "0 < unat (10 :: ee_u32)" "unat (10 :: ee_u32) < 2 ^ 31" by simp_all
  moreover have "(of_nat (Suc (mtime_reads sample_port)) :: ee_u32) \<noteq> of_nat (mtime_reads sample_port)" by (simp add: sample_port_def)
  ultimately show ?thesis
    using main_validates[OF sample_memory_raw _ _ _ ready_idle, of 10 of_nat sample_port "''-O2''" "0x80001000" True idle_uart]
    by (auto simp: all_known_def list_known_crc_def)
qed

end
