(* ===== verification/Local_Digits.thy ===== *)
theory Local_Digits
  imports Digits Uart
begin

text \<open>
  The number printers of the drivers keep the digits in a local array that is not initialised: an element is
  \<open>None\<close> until it is written, and reading such an element is undefined. The array is filled by \<open>digit_loop\<close>
  and sent backwards, \<open>for (i = n - 1; i >= 0; i--) putc(buf[i]);\<close>, or \<open>while (i) putc(buf[--i]);\<close>.
\<close>

section \<open>The code\<close>

text \<open>Reading an element of a local array.\<close>

definition rd_local :: "'a option list \<Rightarrow> nat \<Rightarrow> 'a option" where
  "rd_local buf i = do { c \<leftarrow> rd buf i; c }"

definition fresh :: "nat \<Rightarrow> char option list" where
  "fresh n = replicate n None"

definition hex_digit :: "ee_u32 \<Rightarrow> char option option" where
  "hex_digit d = map_option Some (table_digit ''0123456789abcdef'' d)"

definition dec_digit :: "ee_u32 \<Rightarrow> char option option" where
  "dec_digit d = map_option Some (zero_plus d)"

text \<open>Sending the array backwards.\<close>

fun send_down :: "putc \<Rightarrow> status \<Rightarrow> char option list \<Rightarrow> nat \<Rightarrow> uart \<Rightarrow> uart option" where
  "send_down putc st buf 0 u = Some u"
| "send_down putc st buf (Suc i) u = do { c \<leftarrow> rd_local buf i; u \<leftarrow> putc st c u; send_down putc st buf i u }"

section \<open>What is sent\<close>

lemma send_down_all:
  assumes "length cs \<le> length buf" "take (length cs) buf = map Some cs"
  shows "send_down putc st buf (length cs) u = send_all putc st (rev cs) u"
  using assms
proof (induction cs arbitrary: u rule: rev_induct)
  case (snoc c cs)
  have t: "take (length cs) buf = map Some cs" "buf ! length cs = Some c"
    using snoc.prems by (auto simp: take_Suc_conv_app_nth)
  then show ?case using snoc by (auto simp: rd_local_def intro!: Option.bind_cong)
qed simp

text \<open>The digit loop leaves the rest of the array as it is.\<close>

lemma digit_loop_rest:
  assumes "digit_loop dig base v buf n = Some (buf', n')"
  shows "n \<le> length buf \<longrightarrow> n \<le> n' \<and> n' \<le> length buf' \<and> length buf' = length buf \<and> drop n' buf' = drop n' buf"
    and "v \<noteq> 0 \<longrightarrow> n < n'"
proof -
  have "(n \<le> length buf \<longrightarrow> n \<le> n' \<and> n' \<le> length buf' \<and> length buf' = length buf \<and> drop n' buf' = drop n' buf) \<and>
    (v \<noteq> 0 \<longrightarrow> n < n') \<and> n \<le> n'"
  proof (rule digit_loop.raw_induct[OF _ assms, of "\<lambda>dig base v buf n (buf', n').
      (n \<le> length buf \<longrightarrow> n \<le> n' \<and> n' \<le> length buf' \<and> length buf' = length buf \<and> drop n' buf' = drop n' buf) \<and>
      (v \<noteq> 0 \<longrightarrow> n < n') \<and> n \<le> n'", unfolded case_prod_conv])
    fix loop :: "(ee_u32 \<Rightarrow> 'a option) \<Rightarrow> ee_u32 \<Rightarrow> ee_u32 \<Rightarrow> 'a list \<Rightarrow> nat \<Rightarrow> ('a list \<times> nat) option"
    fix dig base v buf n and y :: "'a list \<times> nat"
    let ?P = "\<lambda>v buf n y. case y of (buf', n') \<Rightarrow>
      (n \<le> length buf \<longrightarrow> n \<le> n' \<and> n' \<le> length buf' \<and> length buf' = length buf \<and> drop n' buf' = drop n' buf) \<and>
      (v \<noteq> 0 \<longrightarrow> n < n') \<and> n \<le> n'"
    assume IH: "\<And>dig base v buf n y. loop dig base v buf n = Some y \<Longrightarrow> ?P v buf n y"
      and run: "(if v \<noteq> 0 then Option.bind (dig (v mod base)) (\<lambda>c. Option.bind (wr buf n c)
          (\<lambda>buf. loop dig base (v div base) buf (n + 1))) else Some (buf, n)) = Some y"
    show "?P v buf n y"
    proof (cases "v = 0")
      case False
      then obtain c where "n < length buf" "loop dig base (v div base) (buf[n := c]) (n + 1) = Some y"
        using run by (auto simp: opt_simps)
      from this(1) IH[OF this(2)] show ?thesis by (auto split: prod.splits)
    qed (use run in auto)
  qed
  then show "n \<le> length buf \<longrightarrow> n \<le> n' \<and> n' \<le> length buf' \<and> length buf' = length buf \<and> drop n' buf' = drop n' buf"
    "v \<noteq> 0 \<longrightarrow> n < n'" by blast+
qed

text \<open>\<open>sent s u u'\<close>: from \<open>u\<close> to \<open>u'\<close> the characters \<open>s\<close> went out.\<close>

definition sent :: "string \<Rightarrow> uart \<Rightarrow> uart \<Rightarrow> bool" where
  "sent s u u' \<longleftrightarrow> (\<exists>m. u' = u\<lparr>ureads := m, usent := usent u @ map of_char s\<rparr>)"

lemma sent_Nil [simp]: "sent [] u u"
  by (cases u) (auto simp: sent_def)

lemma sent_append: "sent s u v \<Longrightarrow> sent t v w \<Longrightarrow> sent (s @ t) u w"
  by (auto simp: sent_def)

lemma char_zero: "dec_char 0 = CHR ''0''" "hex_char 0 = CHR ''0''"
  by code_simp+

text \<open>The digits of a number in a fresh array, and what sending them backwards sends.\<close>

lemma fresh_digits:
  assumes "2 \<le> unat base" "length (digs (unat base) (unat v)) \<le> sz" "v \<noteq> 0"
    and "\<And>d. unat d < unat base \<Longrightarrow> dig d = Some (Some (c (unat d)))"
  shows "\<exists>buf. digit_loop dig base v (fresh sz) 0 = Some (buf, length (num_text c (unat base) (unat v))) \<and>
    (\<forall>putc st u. send_down putc st buf (length (num_text c (unat base) (unat v))) u = send_all putc st (num_text c (unat base) (unat v)) u)"
proof -
  let ?ds = "map c (digs (unat base) (unat v))"
  have t: "num_text c (unat base) (unat v) = rev ?ds" using assms(3) by (simp add: num_text_def unat_eq_0 rev_map)
  have "digit_loop dig base v (fresh sz) 0 = Some (put_at (fresh sz) 0 (map Some ?ds), length ?ds)"
    using digit_loop_writes[OF assms(1), of dig "\<lambda>d. Some (c d)" 0 v "fresh sz"] assms(2,4) by (simp add: fresh_def comp_def)
  moreover have "send_down putc st (put_at (fresh sz) 0 (map Some ?ds)) (length ?ds) u = send_all putc st (rev ?ds) u" for putc st u
    by (rule send_down_all) (use assms(2) in \<open>simp_all add: fresh_def put_at_def\<close>)
  ultimately show ?thesis unfolding t by auto
qed

lemma dec_digit_eq: "dec_digit d = Some (Some (dec_char (unat d)))"
  by (simp add: dec_digit_def zero_plus_def dec_char_def)

lemma hex_digit_eq: "unat d < 16 \<Longrightarrow> hex_digit d = Some (Some (hex_char (unat d)))"
  by (simp add: hex_digit_def table_digit_def hex_char_def)

section \<open>What every driver sends\<close>

context uart_port begin

lemma putc_sent: "ready st \<Longrightarrow> \<exists>u'. putc st c u = Some u' \<and> sent [c] u u'"
  using putc_sends[of st u c] by (auto simp: sent_def)

lemma send_all_text: "ready st \<Longrightarrow> \<exists>u'. send_all putc st s u = Some u' \<and> sent s u u'"
  using send_all_sends[of st u s] by (auto simp: sent_def)

lemma puts_sent: "ready st \<Longrightarrow> CHR 0x00 \<notin> set s \<Longrightarrow> \<exists>u'. puts_loop putc st (c_str s) u = Some u' \<and> sent s u u'"
  using puts_sends[of st s u] by (auto simp: sent_def)

lemma decimal_sent:
  assumes "ready st" "v \<noteq> 0"
  shows "\<exists>u'. do { (buf, n) \<leftarrow> digit_loop dec_digit 10 v (fresh 12) 0; send_down putc st buf n u } = Some u' \<and>
    sent (num_text dec_char 10 (unat v)) u u'"
proof -
  have "length (digs (unat (10 :: ee_u32)) (unat v)) \<le> 12" using digs_10_length_u32[of v] by simp
  from fresh_digits[OF _ this assms(2), of dec_digit dec_char]
  obtain buf where "digit_loop dec_digit 10 v (fresh 12) 0 = Some (buf, length (num_text dec_char 10 (unat v)))"
    "send_down putc st buf (length (num_text dec_char 10 (unat v))) u = send_all putc st (num_text dec_char 10 (unat v)) u"
    by (auto simp: dec_digit_eq)
  with send_all_text[OF assms(1), of "num_text dec_char 10 (unat v)" u] show ?thesis by simp
qed

end

end
