(* ===== verification/Core_Debug.thy ===== *)
theory Core_Debug
  imports Core_Main Local_Digits
begin

text \<open>
  The printers of \<open>coremark/src/core_matrix.c\<close> for the build with \<open>CORE_DEBUG\<close>: the calls of \<open>ee_printf\<close> that
  \<open>printmat\<close> and \<open>printmatC\<close> make, and the text these send.
\<close>

section \<open>The code\<close>

text \<open>The loops that both printers share, over a function that reads an element.\<close>

definition print_matrix :: "(nat \<Rightarrow> ee_s32 option) \<Rightarrow> ee_u32 \<Rightarrow> string \<Rightarrow> printf_call list option" where
  "print_matrix elem N name =
     for_loop 0 (unat N) (\<lambda>i calls.
         do { calls \<leftarrow> for_loop 0 (unat N) (\<lambda>j calls.
                do { let calls = (if j \<noteq> 0 then calls @ [('','', [])] else calls);
                     a \<leftarrow> elem (i * unat N + j);
                     Some (calls @ [(''%d'', [VWord a])]) }) calls;
              Some (calls @ [(line [], [])]) })
       [(line ''Matrix %s [%dx%d]:'', [VStr (Some (c_str name)), VWord N, VWord N])]"

definition printmat :: "ee_s16 list \<Rightarrow> ee_u32 \<Rightarrow> string \<Rightarrow> printf_call list option" where
  "printmat A N name = print_matrix (\<lambda>k. map_option scast (rd A k)) N name"

definition printmatC :: "ee_s32 list \<Rightarrow> ee_u32 \<Rightarrow> string \<Rightarrow> printf_call list option" where
  "printmatC C N name = print_matrix (rd C) N name"

section \<open>The calls\<close>

definition row_calls :: "(nat \<Rightarrow> ee_s32) \<Rightarrow> nat \<Rightarrow> printf_call list" where
  "row_calls a n = concat (map (\<lambda>j. (if j \<noteq> 0 then [('','', [])] else []) @ [(''%d'', [VWord (a j)])]) [0..<n])"

lemma print_row:
  assumes "\<forall>j<n. elem (k + j) = Some (a j)"
  shows "for_loop 0 n (\<lambda>j calls. do { let calls = (if j \<noteq> 0 then calls @ [('','', [])] else calls);
      x \<leftarrow> elem (k + j); Some (calls @ [(''%d'', [VWord x])]) }) calls = Some (calls @ row_calls a n)"
proof -
  have "\<exists>t. for_loop 0 n (\<lambda>j calls. do { let calls = (if j \<noteq> 0 then calls @ [('','', [])] else calls);
      x \<leftarrow> elem (k + j); Some (calls @ [(''%d'', [VWord x])]) }) calls = Some t \<and> t = calls @ row_calls a (0 + n)"
    by (rule for_loop_rule[where I = "\<lambda>j t. t = calls @ row_calls a j"])
      (use assms in \<open>auto simp: row_calls_def Let_def\<close>)
  then show ?thesis by simp
qed

lemma print_matrix_calls:
  assumes "\<forall>i<unat N. \<forall>j<unat N. elem (i * unat N + j) = Some (a i j)"
  shows "print_matrix elem N name = Some ((line ''Matrix %s [%dx%d]:'', [VStr (Some (c_str name)), VWord N, VWord N]) #
    concat (map (\<lambda>i. row_calls (a i) (unat N) @ [(line [], [])]) [0..<unat N]))"
proof -
  let ?h = "(line ''Matrix %s [%dx%d]:'', [VStr (Some (c_str name)), VWord N, VWord N])"
  have "\<exists>t. print_matrix elem N name = Some t \<and>
      t = ?h # concat (map (\<lambda>i. row_calls (a i) (unat N) @ [(line [], [])]) [0..<0 + unat N])"
    unfolding print_matrix_def
  proof (rule for_loop_rule[where I = "\<lambda>i t. t = ?h # concat (map (\<lambda>i. row_calls (a i) (unat N) @ [(line [], [])]) [0..<i])"])
    fix i t assume i: "i < 0 + unat N" and t: "t = ?h # concat (map (\<lambda>i. row_calls (a i) (unat N) @ [(line [], [])]) [0..<i])"
    have "\<forall>j<unat N. elem (i * unat N + j) = Some (a i j)" using assms i by simp
    from print_row[OF this, of t] t
    show "\<exists>t'. do { calls \<leftarrow> for_loop 0 (unat N) (\<lambda>j calls. do { let calls = (if j \<noteq> 0 then calls @ [('','', [])] else calls);
        x \<leftarrow> elem (i * unat N + j); Some (calls @ [(''%d'', [VWord x])]) }) t; Some (calls @ [(line [], [])]) } = Some t' \<and>
      t' = ?h # concat (map (\<lambda>i. row_calls (a i) (unat N) @ [(line [], [])]) [0..<Suc i])" by simp
  qed simp
  then show ?thesis by simp
qed

section \<open>The text\<close>

lemma digit_char_dec: "d < 10 \<Longrightarrow> digit_char flags d = dec_char d"
proof -
  have "\<forall>d\<in>set [0..<10]. ee_digits ! d = dec_char d \<and> upper_digits ! d = dec_char d" by code_simp
  then show "d < 10 \<Longrightarrow> digit_char flags d = dec_char d" by (simp add: digit_char_def)
qed

lemma num_text_dec: "num_text (digit_char flags) 10 n = num_text dec_char 10 n"
  using digs_bound[of 10 _ n] by (auto simp: num_text_def digit_char_dec)

text \<open>The decimal text of a signed number.\<close>

definition dec_text :: "ee_s32 \<Rightarrow> string" where
  "dec_text x = (if sint x < 0 then ''-'' else '''') @ num_text dec_char 10 (nat \<bar>sint x\<bar>)"

lemma dec_field: "num_field SIGN 10 (-1) (-1) x = dec_text x"
  by (simp add: num_field_def sign_text_def prefix_text_def digits_text_def magnitude_def justify_def Let_def num_text_dec
    SIGN_def bit_numeral_rec dec_text_def)

lemma format_d_then:
  assumes "sint x \<noteq> - (2 ^ 31)" "format_text (c_str f) args = Some t"
  shows "format_text (c_str (''%d'' @ f)) (VWord x # args) = Some (dec_text x @ t)"
proof -
  have p: "parse_spec (c_str (CHR ''d'' # f)) (VWord x # args) = Some (-1, 0, -1, -1, c_str (CHR ''d'' # f), VWord x # args)"
    by (simp add: parse_simps)
  with assms show ?thesis
    by (simp add: format_text.simps[of "CHR ''%'' # _"] c_str_def conv_text_def int_conv_def int_text_def dec_field)
qed

lemma format_end: "format_text (c_str []) args = Some []"
  by (simp add: c_str_def format_text.simps[of "[CHR 0x00]"])

lemma format_d:
  assumes "sint x \<noteq> - (2 ^ 31)"
  shows "format_text (c_str ''%d'') [VWord x] = Some (dec_text x)"
  using format_d_then[OF assms format_end] by simp

lemma format_lit:
  assumes "c \<noteq> CHR ''%''" "c \<noteq> CHR 0x00" "format_text (c_str f) args = Some t"
  shows "format_text (c_str (c # f)) args = Some (c # t)"
  using assms by (simp add: c_str_def format_text.simps[of "c # f @ [CHR 0x00]"])

lemma dec_text_no_NUL: "CHR 0x00 \<notin> set (dec_text x)"
  using dec_num_text(2)[of "nat \<bar>sint x\<bar>"] by (auto simp: dec_text_def list_all_iff is_digit_def char_code_def)

lemma sent_dec: "sint x \<noteq> - (2 ^ 31) \<Longrightarrow> sent_text (''%d'', [VWord x]) = dec_text x"
  using dec_text_no_NUL[of x] by (auto simp: sent_text_def format_d takeWhile_eq_all_conv)

lemma sent_lits: "sent_text ('','', []) = '',''" "sent_text (line [], []) = line []"
  using format_lit[OF _ _ format_end, of "CHR '',''" "[]"] format_lit[OF _ _ format_end, of "CHR 0x0A" "[]"]
  by (simp_all add: sent_text_def line_def)

lemma line_append: "t @ line [] = line t"
  by (simp add: line_def)

text \<open>A row: its elements in decimal, separated by commas.\<close>

fun commas :: "string list \<Rightarrow> string" where
  "commas [] = []"
| "commas [t] = t"
| "commas (t # u # ts) = t @ '','' @ commas (u # ts)"

lemma commas_snoc: "ts \<noteq> [] \<Longrightarrow> commas (ts @ [t]) = commas ts @ '','' @ t"
  by (induction ts rule: commas.induct) simp_all

lemma row_text:
  assumes "\<forall>j<n. sint (a j) \<noteq> - (2 ^ 31)"
  shows "concat (map sent_text (row_calls a n)) = commas (map (\<lambda>j. dec_text (a j)) [0..<n])"
  using assms
proof (induction n)
  case (Suc n)
  have "row_calls a (Suc n) = row_calls a n @ (if n \<noteq> 0 then [('','', [])] else []) @ [(''%d'', [VWord (a n)])]"
    by (simp add: row_calls_def)
  with Suc show ?case
    by (cases "n = 0") (simp_all add: sent_dec sent_lits commas_snoc row_calls_def)
qed (simp add: row_calls_def)

text \<open>
  The rows of a matrix of 16-bit elements: every row is its elements in decimal, separated by commas, on a line of its own.
\<close>

lemma printmat_rows:
  assumes "length A = unat N * unat N"
  shows "\<exists>calls. printmat A N name = Some ((line ''Matrix %s [%dx%d]:'', [VStr (Some (c_str name)), VWord N, VWord N]) # calls) \<and>
    concat (map sent_text calls) =
      concat (map (\<lambda>i. line (commas (map (\<lambda>j. dec_text (scast (A ! (i * unat N + j)))) [0..<unat N]))) [0..<unat N])"
proof -
  let ?a = "\<lambda>i j. scast (A ! (i * unat N + j)) :: ee_s32"
  have "\<forall>i<unat N. \<forall>j<unat N. map_option scast (rd A (i * unat N + j)) = Some (?a i j)"
    using square_index assms by simp
  from print_matrix_calls[OF this, of name]
  have c: "printmat A N name = Some ((line ''Matrix %s [%dx%d]:'', [VStr (Some (c_str name)), VWord N, VWord N]) #
      concat (map (\<lambda>i. row_calls (?a i) (unat N) @ [(line [], [])]) [0..<unat N]))" by (simp add: printmat_def)
  have small: "sint (scast x :: ee_s32) \<noteq> - (2 ^ 31)" for x :: ee_s16
    using sint_greater_eq[of x] by simp
  have row: "concat (map sent_text (row_calls (?a i) (unat N))) = commas (map (\<lambda>j. dec_text (?a i j)) [0..<unat N])" for i
    by (rule row_text) (intro allI impI small)
  have "concat (map sent_text (concat (map (\<lambda>i. row_calls (?a i) (unat N) @ [(line [], [])]) is))) =
      concat (map (\<lambda>i. line (commas (map (\<lambda>j. dec_text (?a i j)) [0..<unat N]))) is)" for "is"
    by (induction "is") (simp_all add: row sent_lits line_append)
  with c show ?thesis by blast
qed

end
