(* ===== verification/Dhry_Port.thy ===== *)
theory Dhry_Port
  imports Local_Digits
begin

text \<open>
  \<open>dhrystone/src/dhry_port.c\<close>: the serial driver of the Dhrystone port, its minimal \<open>printf\<close> and the
  unused number printers. The local digit arrays are not initialised: an element is \<open>None\<close> until it is
  written, and reading such an element is undefined.

  \<open>dhr_printf\<close> is shown to send the text that a specification without buffers gives for a format.
\<close>

section \<open>The code\<close>

definition dhry_putc :: putc where
  "dhry_putc st c u = do { u \<leftarrow> tx_wait st u; Some (uart_write (of_char c) u) }"

definition dhry_puts :: "status \<Rightarrow> string \<Rightarrow> uart \<Rightarrow> uart option" where
  "dhry_puts st s u = puts_loop dhry_putc st s u"

text \<open>\<open>while (n--) uart_putc(buf[n + 1]);\<close>\<close>

fun send_shifted :: "status \<Rightarrow> char option list \<Rightarrow> nat \<Rightarrow> uart \<Rightarrow> uart option" where
  "send_shifted st buf 0 u = Some u"
| "send_shifted st buf (Suc n) u = do { c \<leftarrow> rd_local buf (n + 1); u \<leftarrow> dhry_putc st c u; send_shifted st buf n u }"

text \<open>The digits in a local array; the remainder by 0 is undefined.\<close>

definition local_number :: "ee_u32 \<Rightarrow> ee_u32 \<Rightarrow> (char option list \<times> nat) option" where
  "local_number base v = (if base = 0 then None else digit_loop hex_digit base v (fresh 12) 0)"

definition print_uint :: "status \<Rightarrow> ee_u32 \<Rightarrow> ee_u32 \<Rightarrow> uart \<Rightarrow> uart option" where
  "print_uint st v base u =
     (if v = 0 then dhry_putc st (CHR ''0'') u
      else do { (buf, n) \<leftarrow> local_number base v; send_shifted st buf n u })"

definition print_uint_rev :: "status \<Rightarrow> ee_u32 \<Rightarrow> ee_u32 \<Rightarrow> uart \<Rightarrow> uart option" where
  "print_uint_rev st v base u =
     (if v = 0 then dhry_putc st (CHR ''0'') u
      else do { (buf, n) \<leftarrow> local_number base v; send_down dhry_putc st buf n u })"

subsection \<open>\<open>dhr_printf\<close>\<close>

text \<open>
  Arguments are 32-bit words or strings. \<open>count\<close> is the number of characters sent (an \<open>int\<close> in the source; outputs of
  more than \<open>2 ^ 31\<close> characters are not considered).
\<close>

datatype dhry_arg = Word ee_u32 | Str string

fun arg_word :: "dhry_arg list \<Rightarrow> (ee_u32 \<times> dhry_arg list) option" where
  "arg_word (Word w # ap) = Some (w, ap)"
| "arg_word _ = None"

fun arg_str :: "dhry_arg list \<Rightarrow> (string \<times> dhry_arg list) option" where
  "arg_str (Str s # ap) = Some (s, ap)"
| "arg_str _ = None"

fun width_loop :: "int \<Rightarrow> string \<Rightarrow> (int \<times> string) option" where
  "width_loop width [] = None"
| "width_loop width (c # fmt) =
     (if is_digit c then
        do { w \<leftarrow> s32 (width * 10);
             w \<leftarrow> s32 (w + (int (char_code c) - 48));
             width_loop w fmt }
      else Some (width, c # fmt))"

fun pad_char :: "string \<Rightarrow> (char \<times> string) option" where
  "pad_char [] = None"
| "pad_char (c # fmt) = Some (if c = CHR ''0'' then (CHR ''0'', fmt) else (CHR '' '', c # fmt))"

text \<open>\<open>for (int p = n; p < width; p++) { uart_putc(pad); count++; }\<close>, then the digits.\<close>

definition send_padded :: "status \<Rightarrow> char \<Rightarrow> int \<Rightarrow> char option list \<Rightarrow> nat \<Rightarrow> nat \<Rightarrow> uart \<Rightarrow> (nat \<times> uart) option" where
  "send_padded st pad width tmp n count u =
     do { (count, u) \<leftarrow> for_loop n (nat width - n) (\<lambda>p (count, u). do { u \<leftarrow> dhry_putc st pad u; Some (count + 1, u) }) (count, u);
          u \<leftarrow> send_down dhry_putc st tmp n u;
          Some (count + n, u) }"

text \<open>\<open>if (v == 0) tmp[n++] = '0'; while (v) { ... }\<close>\<close>

definition local_digits :: "nat \<Rightarrow> (ee_u32 \<Rightarrow> char option option) \<Rightarrow> ee_u32 \<Rightarrow> ee_u32 \<Rightarrow> (char option list \<times> nat) option" where
  "local_digits sz dig base v =
     (if v = 0 then do { tmp \<leftarrow> wr (fresh sz) 0 (Some (CHR ''0'')); Some (tmp, 1) }
      else digit_loop dig base v (fresh sz) 0)"

fun send_str :: "status \<Rightarrow> string \<Rightarrow> nat \<Rightarrow> uart \<Rightarrow> (nat \<times> uart) option" where
  "send_str st [] count u = None"
| "send_str st (c # s) count u =
     (if c \<noteq> CHR 0x00 then do { u \<leftarrow> dhry_putc st c u; send_str st s (count + 1) u } else Some (count, u))"

definition dhr_conv ::
  "status \<Rightarrow> char \<Rightarrow> char \<Rightarrow> int \<Rightarrow> dhry_arg list \<Rightarrow> nat \<Rightarrow> uart \<Rightarrow> (dhry_arg list \<times> nat \<times> uart) option" where
  "dhr_conv st c pad width ap count u =
     (if c = CHR ''d'' then
        do { (v, ap) \<leftarrow> arg_word ap;
             (v, count, u) \<leftarrow> (if v <s 0 then
                 do { u \<leftarrow> dhry_putc st (CHR ''-'') u; v \<leftarrow> neg_s32 v; Some (v, count + 1, u) }
               else Some (v, count, u));
             (tmp, n) \<leftarrow> local_digits 12 dec_digit 10 v;
             (count, u) \<leftarrow> send_padded st pad width tmp n count u;
             Some (ap, count, u) }
      else if c = CHR ''u'' then
        do { (v, ap) \<leftarrow> arg_word ap;
             (tmp, n) \<leftarrow> local_digits 12 dec_digit 10 v;
             (count, u) \<leftarrow> send_padded st pad width tmp n count u;
             Some (ap, count, u) }
      else if c = CHR ''x'' then
        do { (v, ap) \<leftarrow> arg_word ap;
             (tmp, n) \<leftarrow> local_digits 9 hex_digit 16 v;
             (count, u) \<leftarrow> send_padded st pad width tmp n count u;
             Some (ap, count, u) }
      else if c = CHR ''c'' then
        do { (v, ap) \<leftarrow> arg_word ap; u \<leftarrow> dhry_putc st (char_of (unat v)) u; Some (ap, count + 1, u) }
      else if c = CHR ''s'' then
        do { (s, ap) \<leftarrow> arg_str ap; (count, u) \<leftarrow> send_str st s count u; Some (ap, count, u) }
      else if c = CHR ''%'' then
        do { u \<leftarrow> dhry_putc st (CHR ''%'') u; Some (ap, count + 1, u) }
      else
        do { u \<leftarrow> dhry_putc st (CHR ''%'') u; u \<leftarrow> dhry_putc st c u; Some (ap, count + 2, u) })"

lemma width_loop_length: "width_loop w fmt = Some (v, fmt') \<Longrightarrow> length fmt' \<le> length fmt"
  by (induction w fmt rule: width_loop.induct) (fastforce simp: opt_simps split: if_split_asm)+

lemma pad_char_length: "pad_char fmt = Some (p, fmt') \<Longrightarrow> length fmt' \<le> length fmt"
  by (cases fmt) (auto split: if_split_asm)

function dhr_loop :: "status \<Rightarrow> string \<Rightarrow> dhry_arg list \<Rightarrow> nat \<Rightarrow> uart \<Rightarrow> (nat \<times> uart) option" where
  "dhr_loop st fmt ap count u =
     (case fmt of [] \<Rightarrow> None
      | c # fmt \<Rightarrow>
          if c = CHR 0x00 then Some (count, u)
          else if c \<noteq> CHR ''%'' then do { u \<leftarrow> dhry_putc st c u; dhr_loop st fmt ap (count + 1) u }
          else do { (pad, fmt) \<leftarrow> pad_char fmt;
                    (width, fmt) \<leftarrow> width_loop 0 fmt;
                    case fmt of [] \<Rightarrow> None
                    | c # fmt \<Rightarrow> do { (ap, count, u) \<leftarrow> dhr_conv st c pad width ap count u;
                                   dhr_loop st fmt ap count u } })"
  by pat_completeness auto
termination
  by (relation "measure (\<lambda>(st, fmt, ap, count, u). length fmt)") (auto dest!: width_loop_length pad_char_length)

declare dhr_loop.simps [simp del]

definition dhr_printf :: "status \<Rightarrow> string \<Rightarrow> dhry_arg list \<Rightarrow> uart \<Rightarrow> (nat \<times> uart) option" where
  "dhr_printf st fmt ap u = dhr_loop st fmt ap 0 u"

text \<open>The timer.\<close>

definition read_mtime :: "(nat \<Rightarrow> ee_u32) \<Rightarrow> nat \<Rightarrow> ee_u32 \<times> nat" where
  "read_mtime mt reads = (mt reads, reads + 1)"

section \<open>The driver\<close>

interpretation dhry_uart: uart_port dhry_putc
proof
  show "\<exists>m\<ge>ureads u. st m AND 1 = 0 \<and> u' = u\<lparr>ureads := Suc m, usent := usent u @ [of_char c]\<rparr>"
    if "dhry_putc st c u = Some u'" for st c u u'
    using that unfolding dhry_putc_def by (rule wait_write_free)
  show "\<exists>u'. dhry_putc st c u = Some u'" if "ready st" for st c u
    unfolding dhry_putc_def using that by (rule wait_write_ready)
qed

section \<open>What a format sends\<close>

lemmas putc_sent = dhry_uart.putc_sent
lemmas send_all_sent = dhry_uart.send_all_text

text \<open>The text of a conversion, and the arguments left; \<open>None\<close> is undefined.\<close>

definition padded :: "char \<Rightarrow> int \<Rightarrow> string \<Rightarrow> string" where
  "padded pad width ds = replicate (nat width - length ds) pad @ ds"

definition signed_text :: "char \<Rightarrow> int \<Rightarrow> ee_u32 \<Rightarrow> string" where
  "signed_text pad width v =
     (if sint v < 0 then ''-'' else '''') @ padded pad width (num_text dec_char 10 (nat \<bar>sint v\<bar>))"

definition conv_out :: "char \<Rightarrow> char \<Rightarrow> int \<Rightarrow> dhry_arg list \<Rightarrow> (string \<times> dhry_arg list) option" where
  "conv_out c pad width ap =
     (if c = CHR ''d'' then
        do { (v, ap) \<leftarrow> arg_word ap;
             if sint v = - (2 ^ 31) then None else Some (signed_text pad width v, ap) }
      else if c = CHR ''u'' then
        map_option (\<lambda>(v, ap). (padded pad width (num_text dec_char 10 (unat v)), ap)) (arg_word ap)
      else if c = CHR ''x'' then
        map_option (\<lambda>(v, ap). (padded pad width (num_text hex_char 16 (unat v)), ap)) (arg_word ap)
      else if c = CHR ''c'' then
        map_option (\<lambda>(v, ap). ([char_of (unat v)], ap)) (arg_word ap)
      else if c = CHR ''s'' then
        do { (s, ap) \<leftarrow> arg_str ap;
             if CHR 0x00 \<in> set s then Some (takeWhile (\<lambda>c. c \<noteq> CHR 0x00) s, ap) else None }
      else if c = CHR ''%'' then Some (''%'', ap)
      else Some ([CHR ''%'', c], ap))"

function dhr_text :: "string \<Rightarrow> dhry_arg list \<Rightarrow> string option" where
  "dhr_text fmt ap =
     (case fmt of [] \<Rightarrow> None
      | c # fmt \<Rightarrow>
          if c = CHR 0x00 then Some ''''
          else if c \<noteq> CHR ''%'' then map_option ((#) c) (dhr_text fmt ap)
          else do { (pad, fmt) \<leftarrow> pad_char fmt;
                    (width, fmt) \<leftarrow> width_loop 0 fmt;
                    case fmt of [] \<Rightarrow> None
                    | c # fmt \<Rightarrow> do { (s, ap) \<leftarrow> conv_out c pad width ap;
                                   map_option ((@) s) (dhr_text fmt ap) } })"
  by pat_completeness auto
termination
  by (relation "measure (\<lambda>(fmt, ap). length fmt)") (auto dest!: width_loop_length pad_char_length)

declare dhr_text.simps [simp del]

lemma local_digits_text:
  assumes "2 \<le> unat base" "length (digs (unat base) (unat v)) \<le> sz" "0 < sz"
    and "\<And>d. unat d < unat base \<Longrightarrow> dig d = Some (Some (c (unat d)))" "c 0 = CHR ''0''"
  shows "\<exists>tmp. local_digits sz dig base v = Some (tmp, length (num_text c (unat base) (unat v))) \<and>
    (\<forall>st u. send_down dhry_putc st tmp (length (num_text c (unat base) (unat v))) u = send_all dhry_putc st (num_text c (unat base) (unat v)) u)"
proof (cases "v = 0")
  case True
  with assms(3,5) show ?thesis
    by (cases sz) (auto simp: local_digits_def num_text_def fresh_def rd_local_def rd_def cong: Option.bind_cong)
next
  case False
  with fresh_digits[OF assms(1,2) False, of dig c] assms(4) show ?thesis by (auto simp: local_digits_def)
qed

lemma pad_loop_sends:
  assumes "ready st"
  shows "\<exists>u'. for_loop a k (\<lambda>p (count, u). do { u \<leftarrow> dhry_putc st pad u; Some (count + 1, u) }) (count, u) = Some (count + k, u') \<and>
    sent (replicate k pad) u u'"
proof (induction k arbitrary: a count u)
  case (Suc k)
  obtain v where v: "dhry_putc st pad u = Some v" "sent [pad] u v" using putc_sent[OF assms] by blast
  obtain w where "for_loop (Suc a) k (\<lambda>p (count, u). do { u \<leftarrow> dhry_putc st pad u; Some (count + 1, u) }) (count + 1, v) = Some (count + 1 + k, w)"
    "sent (replicate k pad) v w" using Suc.IH by blast
  with v show ?case using sent_append[OF v(2), of "replicate k pad" w] by simp
qed simp

lemma send_padded_text:
  assumes "ready st" "\<And>u. send_down dhry_putc st tmp (length ds) u = send_all dhry_putc st ds u"
  shows "\<exists>u'. send_padded st pad width tmp (length ds) count u = Some (count + length (padded pad width ds), u') \<and>
    sent (padded pad width ds) u u'"
proof -
  obtain v where v: "for_loop (length ds) (nat width - length ds)
      (\<lambda>p (count, u). do { u \<leftarrow> dhry_putc st pad u; Some (count + 1, u) }) (count, u) = Some (count + (nat width - length ds), v)"
    "sent (replicate (nat width - length ds) pad) u v" using pad_loop_sends[OF assms(1)] by blast
  obtain w where "send_all dhry_putc st ds v = Some w" "sent ds v w" using send_all_sent[OF assms(1)] by blast
  with v assms(2) show ?thesis
    using sent_append[OF v(2), of ds w] by (simp add: send_padded_def padded_def)
qed

lemma send_str_text:
  assumes "ready st"
  shows "CHR 0x00 \<notin> set s \<Longrightarrow> send_str st s count u = None"
    and "CHR 0x00 \<in> set s \<Longrightarrow> \<exists>u'. send_str st s count u = Some (count + length (takeWhile (\<lambda>c. c \<noteq> CHR 0x00) s), u') \<and>
      sent (takeWhile (\<lambda>c. c \<noteq> CHR 0x00) s) u u'"
proof -
  have "(CHR 0x00 \<notin> set s \<longrightarrow> send_str st s count u = None) \<and>
    (CHR 0x00 \<in> set s \<longrightarrow> (\<exists>u'. send_str st s count u = Some (count + length (takeWhile (\<lambda>c. c \<noteq> CHR 0x00) s), u') \<and>
      sent (takeWhile (\<lambda>c. c \<noteq> CHR 0x00) s) u u'))" for u
  proof (induction s arbitrary: count u)
    case (Cons c s)
    obtain v where "dhry_putc st c u = Some v" "sent [c] u v" using putc_sent[OF assms] by blast
    with Cons.IH[of "count + 1" v] sent_append[of "[c]" u v] show ?case by auto
  qed simp
  then show "CHR 0x00 \<notin> set s \<Longrightarrow> send_str st s count u = None"
    "CHR 0x00 \<in> set s \<Longrightarrow> \<exists>u'. send_str st s count u = Some (count + length (takeWhile (\<lambda>c. c \<noteq> CHR 0x00) s), u') \<and>
      sent (takeWhile (\<lambda>c. c \<noteq> CHR 0x00) s) u u'" by blast+
qed

lemma dec_digits_text:
  "\<exists>tmp. local_digits 12 dec_digit 10 v = Some (tmp, length (num_text dec_char 10 (unat v))) \<and>
    (\<forall>st u. send_down dhry_putc st tmp (length (num_text dec_char 10 (unat v))) u = send_all dhry_putc st (num_text dec_char 10 (unat v)) u)"
  using local_digits_text[of 10 v 12 dec_digit dec_char] digs_10_length_u32[of v] char_zero by (simp add: dec_digit_eq)

lemma hex_digits_text:
  "\<exists>tmp. local_digits 9 hex_digit 16 v = Some (tmp, length (num_text hex_char 16 (unat v))) \<and>
    (\<forall>st u. send_down dhry_putc st tmp (length (num_text hex_char 16 (unat v))) u = send_all dhry_putc st (num_text hex_char 16 (unat v)) u)"
  using local_digits_text[of 16 v 9 hex_digit hex_char] digs_16_length_u32[of v] char_zero by (simp add: hex_digit_eq)

text \<open>A number in decimal or hexadecimal, padded.\<close>

lemma padded_number:
  assumes "ready st" "\<exists>tmp. local_digits sz dig base v = Some (tmp, length ds) \<and>
    (\<forall>st u. send_down dhry_putc st tmp (length ds) u = send_all dhry_putc st ds u)"
  shows "\<exists>u'. do { (tmp, n) \<leftarrow> local_digits sz dig base v; (count, u) \<leftarrow> send_padded st pad width tmp n count u; Some (ap, count, u) }
      = Some (ap, count + length (padded pad width ds), u') \<and> sent (padded pad width ds) u u'"
proof -
  obtain tmp where tmp: "local_digits sz dig base v = Some (tmp, length ds)"
    "\<And>u. send_down dhry_putc st tmp (length ds) u = send_all dhry_putc st ds u" using assms(2) by blast
  with send_padded_text[OF assms(1) tmp(2), of pad width count u] show ?thesis by auto
qed

lemma signed_number:
  assumes "ready st" "sint v \<noteq> - (2 ^ 31)"
  shows "\<exists>u'. do { (v, count, u) \<leftarrow> (if v <s 0 then
                 do { u \<leftarrow> dhry_putc st (CHR ''-'') u; v \<leftarrow> neg_s32 v; Some (v, count + 1, u) }
               else Some (v, count, u));
             (tmp, n) \<leftarrow> local_digits 12 dec_digit 10 v;
             (count, u) \<leftarrow> send_padded st pad width tmp n count u;
             Some (ap, count, u) } = Some (ap, count + length (signed_text pad width v), u') \<and>
    sent (signed_text pad width v) u u'"
proof (cases "sint v < 0")
  case True
  obtain u1 where u1: "dhry_putc st (CHR ''-'') u = Some u1" "sent ''-'' u u1" using putc_sent[OF assms(1)] by blast
  let ?ds = "num_text dec_char 10 (unat (- v))"
  obtain u2 where "do { (tmp, n) \<leftarrow> local_digits 12 dec_digit 10 (- v); (count, u) \<leftarrow> send_padded st pad width tmp n (count + 1) u1; Some (ap, count, u) }
      = Some (ap, count + 1 + length (padded pad width ?ds), u2)" "sent (padded pad width ?ds) u1 u2"
    using padded_number[OF assms(1) dec_digits_text, of "- v" pad width "count + 1" u1 ap] by blast
  with u1 True assms(2) show ?thesis using sent_append[OF u1(2)]
    by (auto simp: word_sless_alt neg_s32_def signed_text_def unat_neg)
next
  case False
  then have d: "unat v = nat \<bar>sint v\<bar>" using unat_nonneg[of v] by simp
  have t: "signed_text pad width v = padded pad width (num_text dec_char 10 (unat v))" using False d by (simp add: signed_text_def)
  have s: "\<not> v <s 0" using False by (simp add: word_sless_alt)
  show ?thesis
    using padded_number[OF assms(1) dec_digits_text, of v pad width count u ap] unfolding t by (simp add: s)
qed

lemma dhr_conv_text:
  assumes "ready st"
  shows "case conv_out c pad width ap of
      None \<Rightarrow> dhr_conv st c pad width ap count u = None
    | Some (s, ap') \<Rightarrow> \<exists>u'. dhr_conv st c pad width ap count u = Some (ap', count + length s, u') \<and> sent s u u'"
proof -
  note pc = putc_sent[OF assms]
  consider "c = CHR ''d''" | "c = CHR ''u''" | "c = CHR ''x''" | "c = CHR ''c''" | "c = CHR ''s''" | "c = CHR ''%''"
    | "c \<notin> {CHR ''d'', CHR ''u'', CHR ''x'', CHR ''c'', CHR ''s'', CHR ''%''}" by blast
  then show ?thesis
  proof cases
    case 1
    show ?thesis
    proof (cases "arg_word ap")
      case (Some p)
      obtain v ap' where p: "p = (v, ap')" by (cases p)
      show ?thesis
      proof (cases "sint v = - (2 ^ 31)")
        case True
        then show ?thesis using 1 Some p pc[of "CHR ''-''" u] by (auto simp: conv_out_def dhr_conv_def neg_s32_def word_sless_alt)
      next
        case False
        with signed_number[OF assms False, where count = count and u = u and pad = pad and width = width and ap = ap'] show ?thesis
          by (simp add: 1 Some p conv_out_def dhr_conv_def)
      qed
    qed (simp add: 1 conv_out_def dhr_conv_def)
  next
    case 2
    with padded_number[OF assms dec_digits_text] show ?thesis
      by (cases "arg_word ap") (auto simp: conv_out_def dhr_conv_def split: prod.splits)
  next
    case 3
    with padded_number[OF assms hex_digits_text] show ?thesis
      by (cases "arg_word ap") (auto simp: conv_out_def dhr_conv_def split: prod.splits)
  next
    case 4
    show ?thesis
    proof (cases "arg_word ap")
      case (Some p)
      obtain v ap' where p: "p = (v, ap')" by (cases p)
      from pc[of "char_of (unat v)" u] show ?thesis by (auto simp: 4 Some p conv_out_def dhr_conv_def)
    qed (simp add: 4 conv_out_def dhr_conv_def)
  next
    case 5
    show ?thesis
    proof (cases "arg_str ap")
      case (Some p)
      obtain s ap' where p: "p = (s, ap')" by (cases p)
      from send_str_text[OF assms, of s count u] show ?thesis
        by (cases "CHR 0x00 \<in> set s") (auto simp: 5 Some p conv_out_def dhr_conv_def)
    qed (simp add: 5 conv_out_def dhr_conv_def)
  next
    case 6
    with pc[of "CHR ''%''" u] show ?thesis by (auto simp: conv_out_def dhr_conv_def)
  next
    case 7
    obtain v where v: "dhry_putc st (CHR ''%'') u = Some v" "sent ''%'' u v" using pc by blast
    obtain w where w: "dhry_putc st c v = Some w" "sent [c] v w" using pc by blast
    with 7 v sent_append[OF v(2) w(2)] show ?thesis by (simp add: conv_out_def dhr_conv_def)
  qed
qed

lemma dhr_loop_text:
  assumes "ready st"
  shows "case dhr_text fmt ap of
      None \<Rightarrow> dhr_loop st fmt ap count u = None
    | Some s \<Rightarrow> \<exists>u'. dhr_loop st fmt ap count u = Some (count + length s, u') \<and> sent s u u'"
proof (induction fmt ap arbitrary: count u rule: dhr_text.induct)
  case (1 fmt ap)
  show ?case
  proof (cases fmt)
    case (Cons c fmt')
    consider "c = CHR 0x00" | "c \<noteq> CHR 0x00" "c \<noteq> CHR ''%''" | "c = CHR ''%''" by blast
    then show ?thesis
    proof cases
      case 2
      obtain v where v: "dhry_putc st c u = Some v" "sent [c] u v" using putc_sent[OF assms] by blast
      from 1(1)[OF Cons 2, of "count + 1" v] v 2 Cons show ?thesis
        by (auto simp: dhr_text.simps[of "c # fmt'"] dhr_loop.simps[of st "c # fmt'"] split: option.splits dest: sent_append[OF v(2)])
    next
      case 3
      note s = dhr_text.simps[of "CHR ''%'' # fmt'"] dhr_loop.simps[of st "CHR ''%'' # fmt'"]
      show ?thesis
      proof (cases "pad_char fmt'")
        case (Some p)
        obtain pad f1 where p: "p = (pad, f1)" by (cases p)
        show ?thesis
        proof (cases "width_loop 0 f1")
          case (Some q)
          obtain width f2 where q: "q = (width, f2)" by (cases q)
          show ?thesis
          proof (cases f2)
            case (Cons d f3)
            show ?thesis
            proof (cases "conv_out d pad width ap")
              case None
              with dhr_conv_text[OF assms, of d pad width ap count u] show ?thesis
                by (simp add: s 3 \<open>fmt = c # fmt'\<close> \<open>pad_char fmt' = Some p\<close> p Some q Cons)
            next
              case conv: (Some r)
              obtain t ap' where r: "r = (t, ap')" by (cases r)
              obtain v where v: "dhr_conv st d pad width ap count u = Some (ap', count + length t, v)" "sent t u v"
                using dhr_conv_text[OF assms, of d pad width ap count u] conv r by auto
              have "case dhr_text f3 ap' of None \<Rightarrow> dhr_loop st f3 ap' (count + length t) v = None
                | Some s \<Rightarrow> \<exists>u'. dhr_loop st f3 ap' (count + length t) v = Some (count + length t + length s, u') \<and> sent s v u'"
                using 1(2)[OF \<open>fmt = c # fmt'\<close> _ _ \<open>pad_char fmt' = Some p\<close> p[symmetric] Some q[symmetric] Cons conv r[symmetric]] 3 by simp
              with v conv r show ?thesis
                by (auto simp: s 3 \<open>fmt = c # fmt'\<close> \<open>pad_char fmt' = Some p\<close> p Some q Cons split: option.splits dest: sent_append[OF v(2)])
            qed
          qed (simp add: s 3 \<open>fmt = c # fmt'\<close> \<open>pad_char fmt' = Some p\<close> p Some q)
        qed (simp add: s 3 \<open>fmt = c # fmt'\<close> Some p)
      qed (simp add: s 3 \<open>fmt = c # fmt'\<close>)
    qed (simp add: Cons dhr_text.simps[of "CHR 0x00 # fmt'"] dhr_loop.simps[of st "CHR 0x00 # fmt'"])
  qed (simp add: dhr_text.simps[of "[]"] dhr_loop.simps[of st "[]"])
qed

section \<open>Properties\<close>

lemma dhr_text_plain: "CHR 0x00 \<notin> set s \<Longrightarrow> CHR ''%'' \<notin> set s \<Longrightarrow> dhr_text (s @ f) ap = map_option ((@) s) (dhr_text f ap)"
proof (induction s)
  case (Cons c s)
  then show ?case by (subst dhr_text.simps) (cases "dhr_text f ap"; auto)
qed (cases "dhr_text f ap"; simp)

text \<open>
  C18. \<open>dhr_printf\<close> implements its specification, on every input: where \<open>dhr_text\<close> gives the format and its arguments a
  text, it returns as long as the transmitter keeps coming free, the characters sent are those of the text and the result
  is their number; where \<open>dhr_text\<close> gives none (a missing or wrong argument, a string or a format without its
  NUL, \<open>%d\<close> of the most negative number, a width that overflows), its behaviour is undefined.
\<close>

theorem dhr_printf_text:
  assumes "ready st"
  shows "case dhr_text fmt ap of
      None \<Rightarrow> dhr_printf st fmt ap u = None
    | Some s \<Rightarrow> \<exists>n. dhr_printf st fmt ap u = Some (length s, u\<lparr>ureads := n, usent := usent u @ map of_char s\<rparr>)"
  using dhr_loop_text[OF assms, of fmt ap 0 u] by (auto simp: dhr_printf_def sent_def split: option.splits)

theorem dhr_printf_text_witness:
  "\<exists>n. dhr_printf (\<lambda>n. 0) (c_str ''%d.%03x'') [Word (- 3), Word 0x1f] idle_uart =
    Some (6, \<lparr>ureads = n, usent = map of_char ''-3.01f''\<rparr>)"
proof -
  have "dhr_text (c_str ''%d.%03x'') [Word (- 3), Word 0x1f] = Some ''-3.01f''" by code_simp
  with dhr_printf_text[OF ready_idle, of "c_str ''%d.%03x''" "[Word (- 3), Word 0x1f]" idle_uart] show ?thesis
    by (auto simp: idle_uart_def)
qed

text \<open>
  A format that ends in a lone \<open>%\<close> is read past its end: the NUL is taken for a conversion character and printed, the
  pointer moves behind it, and the loop goes on there.
\<close>

theorem dhr_printf_lone_percent:
  assumes "ready st" "CHR 0x00 \<notin> set s" "CHR ''%'' \<notin> set s"
  shows "dhr_printf st (c_str (s @ ''%'')) ap u = None"
proof -
  have "dhr_text (c_str ''%'') ap = None"
    by (simp add: c_str_def dhr_text.simps[of "CHR ''%'' # _"] dhr_text.simps[of "[]"] conv_out_def is_digit_def char_code_def)
  then have "dhr_text (c_str (s @ ''%'')) ap = None" using dhr_text_plain[OF assms(2,3), of "c_str ''%''" ap] by (simp add: c_str_def)
  with dhr_loop_text[OF assms(1), of "c_str (s @ ''%'')" ap 0 u] show ?thesis by (simp add: dhr_printf_def)
qed

theorem dhr_printf_lone_percent_witness: "dhr_printf (\<lambda>n. 0) (c_str ''100%'') [] idle_uart = None"
  using dhr_printf_lone_percent[OF ready_idle, of "''100''" "[]" idle_uart] by simp

text \<open>The working printer sends the digits.\<close>

lemma print_uint_rev_digits:
  assumes "ready st" "2 \<le> unat base" "unat base \<le> 16" "length (digs (unat base) (unat v)) \<le> 12"
  shows "\<exists>n. print_uint_rev st v base u = Some (u\<lparr>ureads := n, usent := usent u @ map of_char (num_text hex_char (unat base) (unat v))\<rparr>)"
proof (cases "v = 0")
  case True
  with putc_sent[OF assms(1), of "CHR ''0''" u] char_zero show ?thesis by (auto simp: print_uint_rev_def num_text_def sent_def)
next
  case False
  have "base \<noteq> 0" using assms(2) by auto
  moreover have "hex_digit d = Some (Some (hex_char (unat d)))" if "unat d < unat base" for d using that assms(3) by (intro hex_digit_eq) simp
  then obtain buf where "digit_loop hex_digit base v (fresh 12) 0 = Some (buf, length (num_text hex_char (unat base) (unat v)))"
    "\<forall>putc st u. send_down putc st buf (length (num_text hex_char (unat base) (unat v))) u = send_all putc st (num_text hex_char (unat base) (unat v)) u"
    using fresh_digits[OF assms(2,4) False, of hex_digit hex_char] by blast
  ultimately show ?thesis
    using False send_all_sent[OF assms(1), of "num_text hex_char (unat base) (unat v)" u] by (auto simp: print_uint_rev_def local_number_def sent_def)
qed

text \<open>
  \<open>print_uint\<close> reads an element of its local array that was never written, for every number but 0 and every base: it
  sends \<open>buf[n + 1]\<close> where \<open>n\<close> was already decremented, so the first character read lies one behind the digits.
\<close>

theorem print_uint_unset:
  assumes "v \<noteq> 0"
  shows "print_uint st v base u = None"
proof (cases "local_number base v")
  case (Some p)
  obtain buf n where p: "p = (buf, n)" by (cases p)
  have loop: "digit_loop hex_digit base v (fresh 12) 0 = Some (buf, n)" using Some p by (auto simp: local_number_def split: if_splits)
  have rest: "0 < n" "length buf = 12" "drop n buf = drop n (fresh 12)" using digit_loop_rest[OF loop] assms by (simp_all add: fresh_def)
  obtain k where k: "n = Suc k" using rest(1) gr0_conv_Suc by auto
  have "buf ! n = None" if "n < 12"
  proof -
    have "buf ! n = hd (drop n buf)" using that rest(2) by (simp add: hd_drop_conv_nth)
    also have "\<dots> = None" using that by (simp add: rest(3) hd_drop_conv_nth fresh_def)
    finally show ?thesis .
  qed
  then have "rd_local buf n = None" using rest(2) by (simp add: rd_local_def rd_def)
  with Some p k assms show ?thesis by (simp add: print_uint_def)
qed (use assms in \<open>simp add: print_uint_def\<close>)

theorem print_uint_unset_witness: "print_uint (\<lambda>n. 0) 42 10 idle_uart = None"
  using print_uint_unset[of 42 "\<lambda>n. 0" 10 idle_uart] by simp

end
