(* ===== verification/Dhrystone.thy ===== *)
theory Dhrystone
  imports Dhry_Port
begin

text \<open>
  The Dhrystone benchmark: \<open>dhrystone/src/dhry_1.c\<close> (the main program and \<open>Proc_1\<close> to \<open>Proc_5\<close>),
  \<open>dhry_2.c\<close> (\<open>Proc_6\<close> to \<open>Proc_8\<close>, \<open>Func_1\<close> to \<open>Func_3\<close>) and the types of \<open>dhry.h\<close>.

  The two records are objects of a store, so that the aliasing of \<open>Proc_1\<close> and \<open>Proc_3\<close> is that of the
  code; a null pointer that is followed is undefined. Integers are kept in range by \<open>s32\<close>; a local
  variable without a value is \<open>None\<close>. Of the union only the variant \<open>var_1\<close> is used, and modelled. A parameter
  that is only written through (\<open>Int_Par_Ref\<close>, \<open>Enum_Ref_Par\<close>) is a result.
\<close>

section \<open>The code\<close>

subsection \<open>Types and globals\<close>

datatype Enumeration = Ident_1 | Ident_2 | Ident_3 | Ident_4 | Ident_5

definition enum_code :: "Enumeration \<Rightarrow> int" where
  "enum_code e = (case e of Ident_1 \<Rightarrow> 0 | Ident_2 \<Rightarrow> 1 | Ident_3 \<Rightarrow> 2 | Ident_4 \<Rightarrow> 3 | Ident_5 \<Rightarrow> 4)"

datatype rec_id = Rec_glob_1 | Rec_glob_2

type_synonym Rec_Pointer = "rec_id option"

record Rec_Type =
  Ptr_Comp :: Rec_Pointer
  Discr :: Enumeration
  Enum_Comp :: Enumeration
  Int_Comp :: int
  Str_Comp :: "char option list"

record globals =
  recs :: "rec_id \<Rightarrow> Rec_Type"
  Ptr_glob :: Rec_Pointer
  Bool_glob :: int
  Ch_1_glob :: char
  Ch_2_glob :: char
  Int_glob :: int
  Arr_1_glob :: "int list"
  Arr_2_glob :: "int list list"

text \<open>The locals of \<open>main\<close>.\<close>

record dhry = globals +
  Next_Ptr_Glob :: Rec_Pointer
  Int_1_Loc :: "int option"
  Int_2_Loc :: "int option"
  Int_3_Loc :: "int option"
  Enum_Loc :: "Enumeration option"
  Str_1_Loc :: "char option list"
  Str_2_Loc :: "char option list"

definition upd_rec :: "rec_id \<Rightarrow> (Rec_Type \<Rightarrow> Rec_Type) \<Rightarrow> 'a globals_scheme \<Rightarrow> 'a globals_scheme" where
  "upd_rec p f s = s\<lparr>recs := (recs s)(p := f (recs s p))\<rparr>"

text \<open>Array elements with a signed index.\<close>

definition rd_at :: "'a list \<Rightarrow> int \<Rightarrow> 'a option" where
  "rd_at xs i = (if 0 \<le> i then rd xs (nat i) else None)"

definition wr_at :: "'a list \<Rightarrow> int \<Rightarrow> 'a \<Rightarrow> 'a list option" where
  "wr_at xs i v = (if 0 \<le> i then wr xs (nat i) v else None)"

text \<open>\<open>strcpy\<close> from a literal, and the sign of \<open>strcmp\<close>.\<close>

definition strcpy :: "char option list \<Rightarrow> string \<Rightarrow> char option list option" where
  "strcpy dst s =
     (if length s < length dst then Some (map Some s @ Some (CHR 0x00) # drop (length s + 1) dst) else None)"

fun strcmp :: "char option list \<Rightarrow> char option list \<Rightarrow> int option" where
  "strcmp (Some a # s) (Some b # t) =
     (if a \<noteq> b then Some (int (char_code a) - int (char_code b))
      else if a = CHR 0x00 then Some 0 else strcmp s t)"
| "strcmp _ _ = None"

subsection \<open>\<open>dhry_2.c\<close>\<close>

definition Func_1 :: "char \<Rightarrow> char \<Rightarrow> 'a globals_scheme \<Rightarrow> Enumeration \<times> 'a globals_scheme" where
  "Func_1 Ch_1_Par_Val Ch_2_Par_Val s =
     (let Ch_1 = Ch_1_Par_Val; Ch_2 = Ch_1
      in if Ch_2 \<noteq> Ch_2_Par_Val then (Ident_1, s) else (Ident_2, s\<lparr>Ch_1_glob := Ch_1\<rparr>))"

partial_function (option) Func_2_loop ::
  "char option list \<Rightarrow> char option list \<Rightarrow> int \<Rightarrow> char option \<Rightarrow> 'a globals_scheme \<Rightarrow> (int \<times> char option \<times> 'a globals_scheme) option" where
  "Func_2_loop s1 s2 i ch s =
     (if i \<le> 2 then
        do { a \<leftarrow> Option.bind (rd_at s1 i) (\<lambda>c. c);
             b \<leftarrow> Option.bind (rd_at s2 (i + 1)) (\<lambda>c. c);
             (case Func_1 a b s of (e, s) \<Rightarrow>
                if e = Ident_1 then Func_2_loop s1 s2 (i + 1) (Some (CHR ''A'')) s
                else Func_2_loop s1 s2 i ch s) }
      else Some (i, ch, s))"

declare Func_2_loop.simps [code]

definition Func_2 :: "char option list \<Rightarrow> char option list \<Rightarrow> 'a globals_scheme \<Rightarrow> (int \<times> 'a globals_scheme) option" where
  "Func_2 s1 s2 s =
     do { (i, ch, s) \<leftarrow> Func_2_loop s1 s2 2 None s;
          ch \<leftarrow> ch;
          let i = (if char_code (CHR ''W'') \<le> char_code ch \<and> char_code ch < char_code (CHR ''Z'') then 7 else i);
          if ch = CHR ''R'' then Some (1, s)
          else do { d \<leftarrow> strcmp s1 s2;
                    if 0 < d then do { i \<leftarrow> s32 (i + 7); Some (1, s\<lparr>Int_glob := i\<rparr>) }
                    else Some (0, s) } }"

definition Func_3 :: "Enumeration \<Rightarrow> bool" where
  "Func_3 e = (e = Ident_3)"

text \<open>The value stored through \<open>Enum_Ref_Par\<close>.\<close>

definition Proc_6 :: "Enumeration \<Rightarrow> 'a globals_scheme \<Rightarrow> Enumeration" where
  "Proc_6 e s =
     (let r = e;
          r = (if \<not> Func_3 e then Ident_4 else r)
      in case e of
           Ident_1 \<Rightarrow> Ident_1
         | Ident_2 \<Rightarrow> (if 100 < Int_glob s then Ident_1 else Ident_4)
         | Ident_3 \<Rightarrow> Ident_2
         | Ident_4 \<Rightarrow> r
         | Ident_5 \<Rightarrow> Ident_3)"

text \<open>The value stored through \<open>Int_Par_Ref\<close>.\<close>

definition Proc_7 :: "int \<Rightarrow> int \<Rightarrow> int option" where
  "Proc_7 a b = do { l \<leftarrow> s32 (a + 2); s32 (b + l) }"

text \<open>Both array parameters are the global arrays at the only call.\<close>

definition Proc_8 :: "int \<Rightarrow> int \<Rightarrow> 'a globals_scheme \<Rightarrow> 'a globals_scheme option" where
  "Proc_8 Int_1_Par_Val Int_2_Par_Val s =
     do { l \<leftarrow> s32 (Int_1_Par_Val + 5);
          a1 \<leftarrow> wr_at (Arr_1_glob s) l Int_2_Par_Val;
          x \<leftarrow> rd_at a1 l;
          a1 \<leftarrow> wr_at a1 (l + 1) x;
          a1 \<leftarrow> wr_at a1 (l + 30) l;
          row \<leftarrow> rd_at (Arr_2_glob s) l;
          row \<leftarrow> wr_at row l l;
          row \<leftarrow> wr_at row (l + 1) l;
          y \<leftarrow> rd_at row (l - 1);
          y \<leftarrow> s32 (y + 1);
          row \<leftarrow> wr_at row (l - 1) y;
          a2 \<leftarrow> wr_at (Arr_2_glob s) l row;
          row \<leftarrow> rd_at a2 (l + 20);
          x \<leftarrow> rd_at a1 l;
          row \<leftarrow> wr_at row l x;
          a2 \<leftarrow> wr_at a2 (l + 20) row;
          Some (s\<lparr>Arr_1_glob := a1, Arr_2_glob := a2, Int_glob := 5\<rparr>) }"

subsection \<open>\<open>dhry_1.c\<close>\<close>

text \<open>\<open>Ptr_Ref_Par\<close> is the address of the pointer of the record \<open>r\<close>.\<close>

definition Proc_3 :: "rec_id \<Rightarrow> 'a globals_scheme \<Rightarrow> 'a globals_scheme option" where
  "Proc_3 r s =
     do { let s = (case Ptr_glob s of None \<Rightarrow> s | Some g \<Rightarrow> upd_rec r (Ptr_Comp_update (\<lambda>_. Ptr_Comp (recs s g))) s);
          g \<leftarrow> Ptr_glob s;
          v \<leftarrow> Proc_7 10 (Int_glob s);
          Some (upd_rec g (Int_Comp_update (\<lambda>_. v)) s) }"

definition Proc_1 :: "rec_id \<Rightarrow> 'a globals_scheme \<Rightarrow> 'a globals_scheme option" where
  "Proc_1 p s =
     do { nxt \<leftarrow> Ptr_Comp (recs s p);
          g \<leftarrow> Ptr_glob s;
          let s = upd_rec nxt (\<lambda>_. recs s g) s;
          let s = upd_rec p (Int_Comp_update (\<lambda>_. 5)) s;
          let s = upd_rec nxt (Int_Comp_update (\<lambda>_. Int_Comp (recs s p))) s;
          let s = upd_rec nxt (Ptr_Comp_update (\<lambda>_. Ptr_Comp (recs s p))) s;
          s \<leftarrow> Proc_3 nxt s;
          if Discr (recs s nxt) = Ident_1 then
            do { let s = upd_rec nxt (Int_Comp_update (\<lambda>_. 6)) s;
                 let s = upd_rec nxt (Enum_Comp_update (\<lambda>_. Proc_6 (Enum_Comp (recs s p)) s)) s;
                 g \<leftarrow> Ptr_glob s;
                 let s = upd_rec nxt (Ptr_Comp_update (\<lambda>_. Ptr_Comp (recs s g))) s;
                 v \<leftarrow> Proc_7 (Int_Comp (recs s nxt)) 10;
                 Some (upd_rec nxt (Int_Comp_update (\<lambda>_. v)) s) }
          else
            do { q \<leftarrow> Ptr_Comp (recs s p); Some (upd_rec p (\<lambda>_. recs s q) s) } }"

text \<open>The loop runs while \<open>Enum_Loc\<close> is not \<open>Ident_1\<close>; it has no value before the first assignment.\<close>

partial_function (option) Proc_2_loop :: "char \<Rightarrow> int \<Rightarrow> int \<Rightarrow> Enumeration option \<Rightarrow> int \<Rightarrow> int option" where
  "Proc_2_loop ch int_glob l e r =
     do { (l, r, e) \<leftarrow> (if ch = CHR ''A'' then
                         do { l \<leftarrow> s32 (l - 1); r \<leftarrow> s32 (l - int_glob); Some (l, r, Some Ident_1) }
                       else Some (l, r, e));
          (case e of None \<Rightarrow> None
           | Some i \<Rightarrow> if i = Ident_1 then Some r else Proc_2_loop ch int_glob l (Some i) r) }"

declare Proc_2_loop.simps [code]

definition Proc_2 :: "int \<Rightarrow> 'a globals_scheme \<Rightarrow> int option" where
  "Proc_2 r s = do { l \<leftarrow> s32 (r + 10); Proc_2_loop (Ch_1_glob s) (Int_glob s) l None r }"

definition Proc_4 :: "'a globals_scheme \<Rightarrow> 'a globals_scheme" where
  "Proc_4 s =
     (let Bool_Loc = (if Ch_1_glob s = CHR ''A'' then 1 else 0)
      in s\<lparr>Bool_glob := Bool_Loc OR Bool_glob s, Ch_2_glob := CHR ''B''\<rparr>)"

definition Proc_5 :: "'a globals_scheme \<Rightarrow> 'a globals_scheme" where
  "Proc_5 s = s\<lparr>Ch_1_glob := CHR ''A'', Bool_glob := 0\<rparr>"

subsection \<open>The main loop\<close>

text \<open>\<open>while (Int_1_Loc < Int_2_Loc)\<close>; each round overwrites \<open>Int_3_Loc\<close>.\<close>

function count_loop :: "int \<Rightarrow> int \<Rightarrow> int option \<Rightarrow> (int \<times> int option) option" where
  "count_loop i1 i2 i3 =
     (if i1 < i2 then
        do { t \<leftarrow> s32 (5 * i1);
             _ \<leftarrow> s32 (t - i2);
             v \<leftarrow> Proc_7 i1 i2;
             _ \<leftarrow> s32 (i1 + 1);
             count_loop (i1 + 1) i2 (Some v) }
      else Some (i1, i3))"
  by pat_completeness auto
termination by (relation "measure (\<lambda>(i1, i2, i3). nat (i2 - i1))") auto

declare count_loop.simps [simp del]

text \<open>\<open>for (Ch_Index = 'A'; Ch_Index <= Ch_2_glob; ++Ch_Index)\<close>; a \<open>char\<close> wraps around.\<close>

partial_function (option) char_loop :: "char \<Rightarrow> dhry \<Rightarrow> dhry option" where
  "char_loop c s =
     (if char_code c \<le> char_code (Ch_2_glob s) then
        do { e \<leftarrow> Enum_Loc s;
             let (f, s) = Func_1 c (CHR ''C'') s;
             let s = (if e = f then s\<lparr>Enum_Loc := Some (Proc_6 Ident_1 s)\<rparr> else s);
             char_loop (char_of (char_code c + 1)) s }
      else Some s)"

declare char_loop.simps [code]

text \<open>Signed division truncates; by zero, or out of range, it is undefined.\<close>

definition div_s32 :: "int \<Rightarrow> int \<Rightarrow> int option" where
  "div_s32 a b = (if b = 0 then None else s32 (sgn a * sgn b * (\<bar>a\<bar> div \<bar>b\<bar>)))"

definition one_run :: "dhry \<Rightarrow> dhry option" where
  "one_run s =
     do { let s = Proc_4 (Proc_5 s);
          s2 \<leftarrow> strcpy (Str_2_Loc s) ''DHRYSTONE PROGRAM, 2'ND STRING'';
          let s = s\<lparr>Int_1_Loc := Some 2, Int_2_Loc := Some 3, Str_2_Loc := s2, Enum_Loc := Some Ident_2\<rparr>;
          (b, s) \<leftarrow> Func_2 (Str_1_Loc s) (Str_2_Loc s) s;
          let s = s\<lparr>Bool_glob := (if b = 0 then 1 else 0)\<rparr>;
          i1 \<leftarrow> Int_1_Loc s;
          i2 \<leftarrow> Int_2_Loc s;
          (i1, i3) \<leftarrow> count_loop i1 i2 (Int_3_Loc s);
          i3 \<leftarrow> i3;
          s \<leftarrow> Proc_8 i1 i3 s;
          p \<leftarrow> Ptr_glob s;
          s \<leftarrow> Proc_1 p s;
          s \<leftarrow> char_loop (CHR ''A'') s;
          i3 \<leftarrow> s32 (i2 * i1);
          i2 \<leftarrow> div_s32 i3 i1;
          d \<leftarrow> s32 (i3 - i2);
          d \<leftarrow> s32 (7 * d);
          i2 \<leftarrow> s32 (d - i1);
          i1 \<leftarrow> Proc_2 i1 s;
          Some (s\<lparr>Int_1_Loc := Some i1, Int_2_Loc := Some i2, Int_3_Loc := Some i3\<rparr>) }"

function runs_from :: "int \<Rightarrow> int \<Rightarrow> dhry \<Rightarrow> dhry option" where
  "runs_from Run_Index Number_Of_Runs s =
     (if Run_Index \<le> Number_Of_Runs then
        do { s \<leftarrow> one_run s;
             _ \<leftarrow> s32 (Run_Index + 1);
             runs_from (Run_Index + 1) Number_Of_Runs s }
      else Some s)"
  by pat_completeness auto
termination by (relation "measure (\<lambda>(i, n, s). nat (n + 1 - i))") auto

declare runs_from.simps [simp del]

text \<open>The state at the start: the globals are zero.\<close>

definition zero_rec :: Rec_Type where
  "zero_rec = \<lparr>Ptr_Comp = None, Discr = Ident_1, Enum_Comp = Ident_1, Int_Comp = 0, Str_Comp = replicate 31 (Some (CHR 0x00))\<rparr>"

definition reset :: dhry where
  "reset = \<lparr>recs = \<lambda>r. zero_rec, Ptr_glob = None, Bool_glob = 0, Ch_1_glob = CHR 0x00, Ch_2_glob = CHR 0x00,
     Int_glob = 0, Arr_1_glob = replicate 50 0, Arr_2_glob = replicate 50 (replicate 50 0),
     Next_Ptr_Glob = None, Int_1_Loc = None, Int_2_Loc = None, Int_3_Loc = None, Enum_Loc = None,
     Str_1_Loc = fresh 31, Str_2_Loc = fresh 31\<rparr>"

definition dhry_init :: "dhry \<Rightarrow> dhry option" where
  "dhry_init s =
     do { let s = s\<lparr>Next_Ptr_Glob := Some Rec_glob_2, Ptr_glob := Some Rec_glob_1\<rparr>;
          g \<leftarrow> Ptr_glob s;
          let s = upd_rec g (Ptr_Comp_update (\<lambda>_. Next_Ptr_Glob s)) s;
          let s = upd_rec g (Discr_update (\<lambda>_. Ident_1)) s;
          let s = upd_rec g (Enum_Comp_update (\<lambda>_. Ident_3)) s;
          let s = upd_rec g (Int_Comp_update (\<lambda>_. 40)) s;
          str \<leftarrow> strcpy (Str_Comp (recs s g)) ''DHRYSTONE PROGRAM, SOME STRING'';
          let s = upd_rec g (Str_Comp_update (\<lambda>_. str)) s;
          s1 \<leftarrow> strcpy (Str_1_Loc s) ''DHRYSTONE PROGRAM, 1'ST STRING'';
          row \<leftarrow> rd (Arr_2_glob s) 8;
          row \<leftarrow> wr row 7 10;
          a2 \<leftarrow> wr (Arr_2_glob s) 8 row;
          Some (s\<lparr>Str_1_Loc := s1, Arr_2_glob := a2\<rparr>) }"

subsection \<open>The report\<close>

definition CLK_FREQ_HZ :: nat where
  "CLK_FREQ_HZ = 50000000"

text \<open>A call of \<open>dhr_printf\<close>: the format, without its NUL, and the arguments.\<close>

type_synonym dhr_call = "string \<times> dhry_arg list"

fun dhr_calls :: "status \<Rightarrow> dhr_call list \<Rightarrow> uart \<Rightarrow> uart option" where
  "dhr_calls st [] u = Some u"
| "dhr_calls st ((fmt, ap) # calls) u = do { (_, u) \<leftarrow> dhr_printf st (c_str fmt) ap u; dhr_calls st calls u }"

definition int_arg :: "int \<Rightarrow> dhry_arg" where
  "int_arg i = Word (word_of_int i)"

text \<open>A local string is readable up to its first element without a value.\<close>

definition str_arg :: "char option list \<Rightarrow> dhry_arg" where
  "str_arg s = Str (map the (takeWhile (\<lambda>c. c \<noteq> None) s))"

definition start_lines :: "int \<Rightarrow> dhr_call list" where
  "start_lines n =
     [(line ''Dhrystone Benchmark, Version 2.1 (Language: C)'', []),
      (line ''Program compiled without 'register' attribute'', []),
      (line ''Execution starts, %d runs through Dhrystone'', [int_arg n])]"

definition value_lines :: "dhry \<Rightarrow> dhr_call list option" where
  "value_lines s =
     do { a1 \<leftarrow> rd (Arr_1_glob s) 8;
          row \<leftarrow> rd (Arr_2_glob s) 8;
          a2 \<leftarrow> rd row 7;
          g \<leftarrow> Ptr_glob s;
          nxt \<leftarrow> Next_Ptr_Glob s;
          i1 \<leftarrow> Int_1_Loc s;
          i2 \<leftarrow> Int_2_Loc s;
          i3 \<leftarrow> Int_3_Loc s;
          e \<leftarrow> Enum_Loc s;
          Some [(line (line ''Execution ends''), []),
                (line (line ''Final values of the variables used in the benchmark:''), []),
                (line ''Int_Glob:            %d'', [int_arg (Int_glob s)]),
                (line ''Bool_Glob:           %d'', [int_arg (Bool_glob s)]),
                (line ''Ch_1_Glob:           %c'', [Word (of_char (Ch_1_glob s))]),
                (line ''Ch_2_Glob:           %c'', [Word (of_char (Ch_2_glob s))]),
                (line ''Arr_1_Glob[8]:       %d'', [int_arg a1]),
                (line ''Arr_2_Glob[8][7]:    %d'', [int_arg a2]),
                (line ''Ptr_Glob->Discr:     %d'', [int_arg (enum_code (Discr (recs s g)))]),
                (line ''        ->Int_Comp:  %d'', [int_arg (Int_Comp (recs s g))]),
                (line ''Next_Ptr_Glob->Discr: %d'', [int_arg (enum_code (Discr (recs s nxt)))]),
                (line ''        ->Int_Comp:  %d'', [int_arg (Int_Comp (recs s nxt))]),
                (line ''Int_1_Loc:           %d'', [int_arg i1]),
                (line ''Int_2_Loc:           %d'', [int_arg i2]),
                (line ''Int_3_Loc:           %d'', [int_arg i3]),
                (line ''Enum_Loc:            %d'', [int_arg (enum_code e)]),
                (line ''Str_1_Loc:           %s'', [str_arg (Str_1_Loc s)]),
                (line ''Str_2_Loc:           %s'', [str_arg (Str_2_Loc s)])] }"

text \<open>\<open>(uint64_t)Number_Of_Runs * CLK_FREQ_HZ\<close>, and the scores in \<open>uint32_t\<close>.\<close>

definition run_clocks :: "int \<Rightarrow> 64 word" where
  "run_clocks n = word_of_int n * of_nat CLK_FREQ_HZ"

definition dhrystones_per_sec :: "int \<Rightarrow> ee_u32 \<Rightarrow> ee_u32" where
  "dhrystones_per_sec n elapsed = (if 0 < elapsed then ucast (run_clocks n div ucast elapsed) else 0)"

definition us_per_run :: "int \<Rightarrow> ee_u32 \<Rightarrow> ee_u32 option" where
  "us_per_run n elapsed =
     (if 0 < elapsed then
        (if run_clocks n = 0 then None else Some (ucast (ucast elapsed * (1000000 :: 64 word) div run_clocks n)))
      else Some 0)"

definition score_lines :: "int \<Rightarrow> ee_u32 \<Rightarrow> dhr_call list option" where
  "score_lines n elapsed =
     do { let dps = dhrystones_per_sec n elapsed;
          us \<leftarrow> us_per_run n elapsed;
          let mhz = (of_nat (CLK_FREQ_HZ div 1000000) :: ee_u32);
          let dmips = dps div 1757;
          let dmips_frac = (dps mod 1757) * 1000 div 1757;
          let dps_per_mhz = (if 0 < mhz then dps div mhz else 0);
          let dmips_mhz = dps_per_mhz div 1757;
          let dmips_mhz_frac = (dps_per_mhz mod 1757) * 1000 div 1757;
          Some [([CHR 0x0A] @ line ''Microseconds for one run through Dhrystone:  %d'', [Word us]),
                (line ''Dhrystones per Second:                       %d'', [Word dps]),
                (line ''DMIPS:                                       %d.%03d'', [Word dmips, Word dmips_frac]),
                (line ''DMIPS/MHz:                                   %d.%03d'', [Word dmips_mhz, Word dmips_mhz_frac])] }"

text \<open>\<open>main\<close> up to its final endless loop, with the value written to \<open>tohost\<close>.\<close>

definition dhry_main :: "status \<Rightarrow> (nat \<Rightarrow> ee_u32) \<Rightarrow> int \<Rightarrow> dhry \<Rightarrow> uart \<Rightarrow> (ee_u32 \<times> dhry \<times> uart) option" where
  "dhry_main st mt Number_Of_Runs s u =
     do { s \<leftarrow> dhry_init s;
          u \<leftarrow> dhr_calls st (start_lines Number_Of_Runs) u;
          let (Begin_Time, reads) = read_mtime mt 0;
          s \<leftarrow> runs_from 1 Number_Of_Runs s;
          let (End_Time, reads) = read_mtime mt reads;
          let Elapsed = End_Time - Begin_Time;
          calls \<leftarrow> value_lines s;
          u \<leftarrow> dhr_calls st calls u;
          calls \<leftarrow> score_lines Number_Of_Runs Elapsed;
          u \<leftarrow> dhr_calls st calls u;
          Some (1, s, u) }"

section \<open>One run\<close>

definition first_string :: "char option list" where
  "first_string = map Some (c_str ''DHRYSTONE PROGRAM, 1'ST STRING'')"

definition second_string :: "char option list" where
  "second_string = map Some (c_str ''DHRYSTONE PROGRAM, 2'ND STRING'')"

text \<open>The state between two runs; \<open>k\<close> is the element that every run increments.\<close>

definition started :: "int \<Rightarrow> dhry \<Rightarrow> bool" where
  "started k s \<longleftrightarrow>
     Ptr_glob s = Some Rec_glob_1 \<and> Next_Ptr_Glob s = Some Rec_glob_2 \<and>
     Ptr_Comp (recs s Rec_glob_1) = Some Rec_glob_2 \<and> Discr (recs s Rec_glob_1) = Ident_1 \<and>
     Enum_Comp (recs s Rec_glob_1) = Ident_3 \<and>
     length (Arr_1_glob s) = 50 \<and> length (Arr_2_glob s) = 50 \<and> (\<forall>row\<in>set (Arr_2_glob s). length row = 50) \<and>
     Arr_2_glob s ! 8 ! 7 = k \<and> Str_1_Loc s = first_string \<and> length (Str_2_Loc s) = 31"

text \<open>The values a run leaves in the variables the program reports.\<close>

definition finished :: "dhry \<Rightarrow> bool" where
  "finished s \<longleftrightarrow>
     Int_glob s = 5 \<and> Bool_glob s = 1 \<and> Ch_1_glob s = CHR ''A'' \<and> Ch_2_glob s = CHR ''B'' \<and>
     Arr_1_glob s ! 8 = 7 \<and> Int_Comp (recs s Rec_glob_1) = 17 \<and>
     Discr (recs s Rec_glob_2) = Ident_1 \<and> Enum_Comp (recs s Rec_glob_2) = Ident_2 \<and> Int_Comp (recs s Rec_glob_2) = 18 \<and>
     Int_1_Loc s = Some 7 \<and> Int_2_Loc s = Some 39 \<and> Int_3_Loc s = Some 9 \<and> Enum_Loc s = Some Ident_2 \<and>
     Str_2_Loc s = second_string"

lemma length_second_string [simp]: "length second_string = 31"
  by (simp add: second_string_def c_str_def)

lemma s32_small [simp]: "\<bar>i\<bar> < 2000000000 \<Longrightarrow> s32 i = Some i"
  by (intro s32_in) (auto simp: in_s32_def)

lemma count_loop_2_3: "count_loop 2 3 i3 = Some (3, Some 7)"
  by (simp add: count_loop.simps[of 2] count_loop.simps[of 3] Proc_7_def)

lemma Func_2_strings: "Func_2 first_string second_string s = Some (0, s)"
proof -
  have "rd_at first_string 2 = Some (Some (CHR ''R''))" "rd_at second_string 3 = Some (Some (CHR ''Y''))"
    "strcmp first_string second_string = Some (- 1)" by code_simp+
  then show ?thesis
    by (simp add: Func_2_def Func_2_loop.simps[of _ _ 2] Func_2_loop.simps[of _ _ 3] Func_1_def char_code_def)
qed

lemma char_loop_A_B:
  assumes "Ch_2_glob s = CHR ''B''" "Enum_Loc s = Some Ident_2"
  shows "char_loop (CHR ''A'') s = Some s"
proof -
  have c: "char_of (char_code (CHR ''A'') + 1) = CHR ''B''" "char_of (char_code (CHR ''B'') + 1) = CHR ''C''"
    "char_code (CHR ''A'') = 65" "char_code (CHR ''B'') = 66" "char_code (CHR ''C'') = 67" by code_simp+
  have C: "char_loop (CHR ''C'') s = Some s" using assms c by (subst char_loop.simps) simp
  have B: "char_loop (CHR ''B'') s = Some s"
    using assms c C by (subst char_loop.simps) (simp add: Func_1_def)
  show ?thesis using assms c B by (subst char_loop.simps) (simp add: Func_1_def)
qed

lemma Proc_2_A: "Ch_1_glob s = CHR ''A'' \<Longrightarrow> Int_glob s = 5 \<Longrightarrow> Proc_2 3 s = Some 7"
  by (simp add: Proc_2_def Proc_2_loop.simps[of "CHR ''A''"])

lemma Proc_8_writes:
  fixes s :: "'a globals_scheme"
  assumes "length (Arr_1_glob s) = 50" "length (Arr_2_glob s) = 50" "\<forall>row\<in>set (Arr_2_glob s). length row = 50"
    and "\<bar>Arr_2_glob s ! 8 ! 7 + 1\<bar> < 2 ^ 31"
  shows "\<exists>a1 a2. Proc_8 3 7 s = Some (s\<lparr>Arr_1_glob := a1, Arr_2_glob := a2, Int_glob := 5\<rparr>) \<and>
    length a1 = 50 \<and> length a2 = 50 \<and> (\<forall>row\<in>set a2. length row = 50) \<and>
    a1 ! 8 = 7 \<and> a2 ! 8 ! 7 = Arr_2_glob s ! 8 ! 7 + 1"
proof -
  let ?a1 = "(Arr_1_glob s)[8 := 7, 9 := 7, 38 := 8]"
  let ?r = "(Arr_2_glob s ! 8)[8 := 8, 9 := 8, 7 := Arr_2_glob s ! 8 ! 7 + 1]"
  let ?a2 = "(Arr_2_glob s)[8 := ?r, 28 := (Arr_2_glob s ! 28)[8 := 7]]"
  have r: "length (Arr_2_glob s ! 8) = 50" "length (Arr_2_glob s ! 28) = 50" using assms(2,3) by simp_all
  have k: "s32 (Arr_2_glob s ! 8 ! 7 + 1) = Some (Arr_2_glob s ! 8 ! 7 + 1)" using assms(4) by (intro s32_in) (auto simp: in_s32_def)
  have "Proc_8 3 7 s = Some (s\<lparr>Arr_1_glob := ?a1, Arr_2_glob := ?a2, Int_glob := 5\<rparr>)"
    using assms(1,2) r k by (simp add: Proc_8_def rd_at_def wr_at_def)
  moreover have "\<forall>row\<in>set ?a2. length row = 50"
    using assms(3) r by (auto dest!: subsetD[OF set_update_subset_insert])
  ultimately show ?thesis using assms(1,2) r by (intro exI[of _ ?a1] exI[of _ ?a2]) simp
qed

lemma Proc_1_records:
  assumes "Ptr_glob s = Some Rec_glob_1" "Ptr_Comp (recs s Rec_glob_1) = Some Rec_glob_2" "Discr (recs s Rec_glob_1) = Ident_1"
    and "Enum_Comp (recs s Rec_glob_1) = Ident_3" "Int_glob s = 5"
  shows "\<exists>r2. Proc_1 Rec_glob_1 s = Some (s\<lparr>recs := (recs s)(Rec_glob_1 := recs s Rec_glob_1\<lparr>Int_Comp := 17\<rparr>, Rec_glob_2 := r2)\<rparr>) \<and>
    Discr r2 = Ident_1 \<and> Enum_Comp r2 = Ident_2 \<and> Int_Comp r2 = 18"
  using assms
  by (intro exI[of _ "recs s Rec_glob_1\<lparr>Enum_Comp := Ident_2, Ptr_Comp := Some Rec_glob_2, Int_Comp := 18\<rparr>"])
    (simp add: Proc_1_def Proc_3_def Proc_7_def Proc_6_def Func_3_def upd_rec_def Let_def fun_upd_twist)
lemma one_run_started:
  assumes "started k s" "\<bar>k + 1\<bar> < 2 ^ 31"
  shows "\<exists>t. one_run s = Some t \<and> started (k + 1) t \<and> finished t"
proof -
  have s: "Ptr_glob s = Some Rec_glob_1" "Next_Ptr_Glob s = Some Rec_glob_2" "Ptr_Comp (recs s Rec_glob_1) = Some Rec_glob_2"
    "Discr (recs s Rec_glob_1) = Ident_1" "Enum_Comp (recs s Rec_glob_1) = Ident_3" "length (Arr_1_glob s) = 50"
    "length (Arr_2_glob s) = 50" "\<forall>row\<in>set (Arr_2_glob s). length row = 50" "Arr_2_glob s ! 8 ! 7 = k"
    "Str_1_Loc s = first_string" "length (Str_2_Loc s) = 31" using assms(1) by (simp_all add: started_def)
  let ?s = "Proc_4 (Proc_5 s)\<lparr>Int_1_Loc := Some 2, Int_2_Loc := Some 3, Str_2_Loc := second_string, Enum_Loc := Some Ident_2\<rparr>"
  have cpy: "strcpy (Str_2_Loc (Proc_4 (Proc_5 s))) ''DHRYSTONE PROGRAM, 2'ND STRING'' = Some second_string"
    using s(11) by (simp add: strcpy_def second_string_def c_str_def Proc_4_def Proc_5_def)
  let ?b = "?s\<lparr>Bool_glob := 1\<rparr>"
  have b: "Arr_1_glob ?b = Arr_1_glob s" "Arr_2_glob ?b = Arr_2_glob s" "recs ?b = recs s" "Ptr_glob ?b = Ptr_glob s"
    "Str_1_Loc ?s = first_string" using s(10) by (simp_all add: Proc_4_def Proc_5_def)
  obtain a1 a2 where p8: "Proc_8 3 7 ?b = Some (?b\<lparr>Arr_1_glob := a1, Arr_2_glob := a2, Int_glob := 5\<rparr>)"
    "length a1 = 50" "length a2 = 50" "\<forall>row\<in>set a2. length row = 50" "a1 ! 8 = 7" "a2 ! 8 ! 7 = k + 1"
    using Proc_8_writes[of ?b] s(6-9) assms(2) unfolding b by blast
  let ?c = "?b\<lparr>Arr_1_glob := a1, Arr_2_glob := a2, Int_glob := 5\<rparr>"
  obtain r2 where p1: "Proc_1 Rec_glob_1 ?c =
      Some (?c\<lparr>recs := (recs ?c)(Rec_glob_1 := recs ?c Rec_glob_1\<lparr>Int_Comp := 17\<rparr>, Rec_glob_2 := r2)\<rparr>)"
    "Discr r2 = Ident_1" "Enum_Comp r2 = Ident_2" "Int_Comp r2 = 18"
    using Proc_1_records[of ?c] s(1,3-5) by (auto simp: Proc_4_def Proc_5_def)
  let ?d = "?c\<lparr>recs := (recs ?c)(Rec_glob_1 := recs ?c Rec_glob_1\<lparr>Int_Comp := 17\<rparr>, Rec_glob_2 := r2)\<rparr>"
  have d: "char_loop (CHR ''A'') ?d = Some ?d" "Proc_2 3 ?d = Some 7"
    using char_loop_A_B[of ?d] Proc_2_A[of ?d] by (simp_all add: Proc_4_def Proc_5_def)
  let ?t = "?d\<lparr>Int_1_Loc := Some 7, Int_2_Loc := Some 39, Int_3_Loc := Some 9\<rparr>"
  have g: "Ptr_glob ?c = Some Rec_glob_1" using s(1) by (simp add: Proc_4_def Proc_5_def)
  have f2: "Func_2 (Str_1_Loc ?s) (Str_2_Loc ?s) ?s = Some (0, ?s)" unfolding b(5) by (simp add: Func_2_strings)
  have "one_run s = Some ?t"
    unfolding one_run_def Let_def cpy bind.bind_lunit f2 prod.case
    using p8(1) p1(1) d g by (simp add: count_loop_2_3 div_s32_def)
  moreover have "started (k + 1) ?t" using s p8 p1 by (simp add: started_def Proc_4_def Proc_5_def)
  moreover have "finished ?t" using p8 p1 by (simp add: finished_def Proc_4_def Proc_5_def)
  ultimately show ?thesis by blast
qed

lemma runs_from_started:
  assumes "started k s" "1 \<le> i" "i \<le> n" "n < 2 ^ 31 - 1" "0 \<le> k" "k + (n - i) + 1 < 2 ^ 31"
  shows "\<exists>t. runs_from i n s = Some t \<and> started (k + (n - i) + 1) t \<and> finished t"
  using assms
proof (induction "nat (n - i)" arbitrary: i k s)
  case 0
  then have "i = n" by simp
  obtain t where "one_run s = Some t" "started (k + 1) t" "finished t" using one_run_started[of k s] 0 by auto
  with 0 \<open>i = n\<close> show ?case by (simp add: runs_from.simps[of n] runs_from.simps[of "n + 1"] in_s32_def)
next
  case (Suc m)
  obtain t where t: "one_run s = Some t" "started (k + 1) t" using one_run_started[of k s] Suc.prems by auto
  have "\<exists>t'. runs_from (i + 1) n t = Some t' \<and> started (k + 1 + (n - (i + 1)) + 1) t' \<and> finished t'"
    by (rule Suc.hyps(1)) (use Suc t(2) in auto)
  with t Suc.prems show ?case by (simp add: runs_from.simps[of i] in_s32_def)
qed

lemma dhry_init_started: "\<exists>s. dhry_init reset = Some s \<and> started 10 s"
  by (auto simp: dhry_init_def reset_def started_def zero_rec_def strcpy_def upd_rec_def fresh_def first_string_def c_str_def
    dest!: subsetD[OF set_update_subset_insert])

section \<open>The text of the report\<close>

abbreviation dec :: "nat \<Rightarrow> string" where
  "dec n \<equiv> num_text dec_char 10 n"

text \<open>A number with three decimal places, \<open>%d.%03d\<close>.\<close>

definition milli :: "nat \<Rightarrow> nat \<Rightarrow> string" where
  "milli i k = dec i @ ''.'' @ padded (CHR ''0'') 3 (dec k)"

definition dhry_report :: "nat \<Rightarrow> nat \<Rightarrow> string" where
  "dhry_report n elapsed =
     (let dps = n * 50000000 div elapsed; per_mhz = dps div 50
      in concat (map line
        [''Dhrystone Benchmark, Version 2.1 (Language: C)'',
         ''Program compiled without 'register' attribute'',
         ''Execution starts, '' @ dec n @ '' runs through Dhrystone'',
         ''Execution ends'', '''',
         ''Final values of the variables used in the benchmark:'', '''',
         ''Int_Glob:            5'',
         ''Bool_Glob:           1'',
         ''Ch_1_Glob:           A'',
         ''Ch_2_Glob:           B'',
         ''Arr_1_Glob[8]:       7'',
         ''Arr_2_Glob[8][7]:    '' @ dec (n + 10),
         ''Ptr_Glob->Discr:     0'',
         ''        ->Int_Comp:  17'',
         ''Next_Ptr_Glob->Discr: 0'',
         ''        ->Int_Comp:  18'',
         ''Int_1_Loc:           7'',
         ''Int_2_Loc:           39'',
         ''Int_3_Loc:           9'',
         ''Enum_Loc:            1'',
         ''Str_1_Loc:           DHRYSTONE PROGRAM, 1'ST STRING'',
         ''Str_2_Loc:           DHRYSTONE PROGRAM, 2'ND STRING'',
         '''',
         ''Microseconds for one run through Dhrystone:  '' @ dec (elapsed div (n * 50)),
         ''Dhrystones per Second:                       '' @ dec dps,
         ''DMIPS:                                       '' @ milli (dps div 1757) (dps mod 1757 * 1000 div 1757),
         ''DMIPS/MHz:                                   '' @ milli (per_mhz div 1757) (per_mhz mod 1757 * 1000 div 1757)]))"

definition plain :: "string \<Rightarrow> bool" where
  "plain s \<longleftrightarrow> CHR 0x00 \<notin> set s \<and> CHR ''%'' \<notin> set s"

lemma dhr_text_plain_line: "plain s \<Longrightarrow> dhr_text (c_str s) ap = Some s"
  using dhr_text_plain[of s "[CHR 0x00]" ap] by (simp add: plain_def c_str_def dhr_text.simps[of "[CHR 0x00]"])

text \<open>A conversion behind plain text.\<close>

lemma dhr_text_conv:
  assumes "plain p" "conv_out c (CHR '' '') 0 ap = Some (t, ap')" "\<not> is_digit c"
  shows "dhr_text (p @ CHR ''%'' # c # f) ap = map_option (\<lambda>r. p @ t @ r) (dhr_text f ap')"
proof -
  have "c \<noteq> CHR ''0''" using assms(3) by (auto simp: is_digit_def char_code_def)
  then have "dhr_text (CHR ''%'' # c # f) ap = map_option ((@) t) (dhr_text f ap')"
    using assms(2,3) by (simp add: dhr_text.simps[of "CHR ''%'' # c # f"])
  then show ?thesis using dhr_text_plain[of p "CHR ''%'' # c # f" ap] assms(1)
    by (cases "dhr_text f ap'") (auto simp: plain_def)
qed

text \<open>The part behind the last conversion is plain.\<close>

lemma dhr_text_rest: "plain s \<Longrightarrow> dhr_text (s @ [CHR 0x00]) ap = Some s"
  using dhr_text_plain_line[of s ap] by (simp add: c_str_def)

lemma padded_0 [simp]: "padded c 0 t = t"
  by (simp add: padded_def)

lemma conv_out_d:
  assumes "unat w < 2 ^ 31"
  shows "conv_out (CHR ''d'') pad width (Word w # ap) = Some (padded pad width (dec (unat w)), ap)"
proof -
  have "nat (uint w) < 2 ^ 31" using assms by simp
  then have "uint w < 2 ^ 31" by (simp add: nat_less_iff del: nat_uint_eq)
  then have "sint w = uint w" by (rule sint_uint_s32)
  moreover have "uint w \<noteq> - 2147483648" using unsigned_greater_eq[of w, where ?'a = int] by (intro notI) linarith
  ultimately show ?thesis by (simp add: conv_out_def signed_text_def)
qed

lemma unat_of_char [simp]: "unat (of_char c :: ee_u32) = of_char c"
proof -
  have "(of_char c :: ee_u32) = of_nat (of_char c :: nat)" by (rule of_nat_of_char[symmetric])
  moreover have "(of_char c :: nat) < 2 ^ 32" by (rule less_trans[of _ 256]) simp_all
  ultimately show ?thesis by (metis unat_of_nat_s32)
qed

lemma line_d:
  assumes "plain p" "plain q" "unat w < 2 ^ 31"
  shows "dhr_text (c_str (p @ ''%d'' @ q)) [Word w] = Some (p @ dec (unat w) @ q)"
  using dhr_text_conv[OF assms(1) conv_out_d[OF assms(3), of "CHR '' ''" 0 "[]"], of "q @ [CHR 0x00]"] dhr_text_rest[OF assms(2), of "[]"]
  by (simp add: c_str_def is_digit_def char_code_def)

lemma line_milli:
  assumes "plain p" "plain q" "unat v < 2 ^ 31" "unat w < 2 ^ 31"
  shows "dhr_text (c_str (p @ ''%d.%03d'' @ q)) [Word v, Word w] = Some (p @ milli (unat v) (unat w) @ q)"
proof -
  have w: "width_loop 0 (CHR ''3'' # CHR ''d'' # f) = Some (3, CHR ''d'' # f)" for f
    by (simp add: is_digit_def char_code_def in_s32_def)
  have "dhr_text (CHR ''%'' # CHR ''0'' # CHR ''3'' # CHR ''d'' # q @ [CHR 0x00]) [Word w] = Some (padded (CHR ''0'') 3 (dec (unat w)) @ q)"
    using conv_out_d[OF assms(4), of "CHR ''0''" 3 "[]"] dhr_text_rest[OF assms(2), of "[]"]
    by (subst dhr_text.simps) (simp add: w del: width_loop.simps)
  then have "dhr_text (''.'' @ CHR ''%'' # CHR ''0'' # CHR ''3'' # CHR ''d'' # q @ [CHR 0x00]) [Word w] =
      Some (''.'' @ padded (CHR ''0'') 3 (dec (unat w)) @ q)"
    by (subst dhr_text_plain) simp_all
  with dhr_text_conv[OF assms(1) conv_out_d[OF assms(3), of "CHR '' ''" 0 "[Word w]"], of "''.%03d'' @ q @ [CHR 0x00]"] show ?thesis
    by (simp add: c_str_def milli_def is_digit_def char_code_def)
qed

lemma line_c: "plain p \<Longrightarrow> plain q \<Longrightarrow> dhr_text (c_str (p @ ''%c'' @ q)) [Word (of_char c)] = Some (p @ [c] @ q)"
  using dhr_text_conv[of p "CHR ''c''" "[Word (of_char c)]" "[c]" "[]" "q @ [CHR 0x00]"] dhr_text_rest[of q "[]"]
  by (simp add: c_str_def conv_out_def is_digit_def char_code_def)

lemma line_s:
  assumes "plain p" "plain q" "CHR 0x00 \<notin> set s"
  shows "dhr_text (c_str (p @ ''%s'' @ q)) [Str (c_str s)] = Some (p @ s @ q)"
proof -
  have "takeWhile (\<lambda>c. c \<noteq> CHR 0x00) (s @ [CHR 0x00]) = s" using assms(3) by (auto simp: takeWhile_append)
  with assms dhr_text_conv[of p "CHR ''s''" "[Str (c_str s)]" s "[]" "q @ [CHR 0x00]"] dhr_text_rest[of q "[]"] show ?thesis
    by (simp add: c_str_def conv_out_def is_digit_def char_code_def)
qed

text \<open>A sequence of calls sends the texts of the calls.\<close>

lemma dhr_calls_text:
  assumes "ready st" "list_all2 (\<lambda>(fmt, ap) t. dhr_text (c_str fmt) ap = Some t) calls ts"
  shows "\<exists>m. dhr_calls st calls u = Some (u\<lparr>ureads := m, usent := usent u @ map of_char (concat ts)\<rparr>)"
  using assms(2)
proof (induction calls ts arbitrary: u rule: list_all2_induct)
  case Nil
  then show ?case by (cases u) auto
next
  case (Cons call calls t ts)
  obtain fmt ap where c: "call = (fmt, ap)" by (cases call)
  obtain v where "dhr_printf st (c_str fmt) ap u = Some (length t, v)" "sent t u v"
    using dhr_loop_text[OF assms(1), of "c_str fmt" ap 0 u] Cons.hyps(1) by (auto simp: c dhr_printf_def)
  with Cons.IH[of v] show ?case by (auto simp: c sent_def)
qed
definition value_texts :: "nat \<Rightarrow> string list" where
  "value_texts n =
     [line (line ''Execution ends''), line (line ''Final values of the variables used in the benchmark:''),
      line ''Int_Glob:            5'', line ''Bool_Glob:           1'', line ''Ch_1_Glob:           A'',
      line ''Ch_2_Glob:           B'', line ''Arr_1_Glob[8]:       7'', line (''Arr_2_Glob[8][7]:    '' @ dec (n + 10)),
      line ''Ptr_Glob->Discr:     0'', line ''        ->Int_Comp:  17'', line ''Next_Ptr_Glob->Discr: 0'',
      line ''        ->Int_Comp:  18'', line ''Int_1_Loc:           7'', line ''Int_2_Loc:           39'',
      line ''Int_3_Loc:           9'', line ''Enum_Loc:            1'',
      line ''Str_1_Loc:           DHRYSTONE PROGRAM, 1'ST STRING'', line ''Str_2_Loc:           DHRYSTONE PROGRAM, 2'ND STRING'']"

definition is_text :: "dhr_call \<Rightarrow> string \<Rightarrow> bool" where
  "is_text call t \<longleftrightarrow> dhr_text (c_str (fst call)) (snd call) = Some t"

lemma is_text_d:
  "plain p \<Longrightarrow> plain q \<Longrightarrow> n < 2 ^ 31 \<Longrightarrow> is_text (line (p @ ''%d'' @ q), [int_arg (int n)]) (line (p @ dec n @ q))"
  using line_d[of p "line q" "of_nat n"] by (simp add: is_text_def int_arg_def line_def plain_def unat_of_nat_s32)

lemma value_lines_text:
  assumes "started (int n + 10) s" "finished s" "n + 10 < 2 ^ 31"
  shows "\<exists>calls. value_lines s = Some calls \<and> list_all2 is_text calls (value_texts n)"
proof -
  have str: "str_arg first_string = Str (c_str ''DHRYSTONE PROGRAM, 1'ST STRING'')"
    "str_arg second_string = Str (c_str ''DHRYSTONE PROGRAM, 2'ND STRING'')" by code_simp+
  have arr: "is_text (line ''Arr_2_Glob[8][7]:    %d'', [int_arg (int n + 10)]) (line (''Arr_2_Glob[8][7]:    '' @ dec (n + 10)))"
    using is_text_d[of "''Arr_2_Glob[8][7]:    ''" "''''" "n + 10"] assms(3) by (simp add: plain_def add.commute)
  have lines: "list_all2 is_text
    [(line (line ''Execution ends''), []), (line (line ''Final values of the variables used in the benchmark:''), []),
     (line ''Int_Glob:            %d'', [int_arg 5]), (line ''Bool_Glob:           %d'', [int_arg 1]),
     (line ''Ch_1_Glob:           %c'', [Word (of_char (CHR ''A''))]), (line ''Ch_2_Glob:           %c'', [Word (of_char (CHR ''B''))]),
     (line ''Arr_1_Glob[8]:       %d'', [int_arg 7])]
    [line (line ''Execution ends''), line (line ''Final values of the variables used in the benchmark:''),
      line ''Int_Glob:            5'', line ''Bool_Glob:           1'', line ''Ch_1_Glob:           A'',
      line ''Ch_2_Glob:           B'', line ''Arr_1_Glob[8]:       7'']"
    "list_all2 is_text
    [(line ''Ptr_Glob->Discr:     %d'', [int_arg 0]), (line ''        ->Int_Comp:  %d'', [int_arg 17]),
     (line ''Next_Ptr_Glob->Discr: %d'', [int_arg 0]), (line ''        ->Int_Comp:  %d'', [int_arg 18]),
     (line ''Int_1_Loc:           %d'', [int_arg 7]), (line ''Int_2_Loc:           %d'', [int_arg 39]),
     (line ''Int_3_Loc:           %d'', [int_arg 9]), (line ''Enum_Loc:            %d'', [int_arg 1]),
     (line ''Str_1_Loc:           %s'', [Str (c_str ''DHRYSTONE PROGRAM, 1'ST STRING'')]),
     (line ''Str_2_Loc:           %s'', [Str (c_str ''DHRYSTONE PROGRAM, 2'ND STRING'')])]
    [line ''Ptr_Glob->Discr:     0'', line ''        ->Int_Comp:  17'', line ''Next_Ptr_Glob->Discr: 0'',
      line ''        ->Int_Comp:  18'', line ''Int_1_Loc:           7'', line ''Int_2_Loc:           39'',
      line ''Int_3_Loc:           9'', line ''Enum_Loc:            1'',
      line ''Str_1_Loc:           DHRYSTONE PROGRAM, 1'ST STRING'', line ''Str_2_Loc:           DHRYSTONE PROGRAM, 2'ND STRING'']"
    by code_simp+
  show ?thesis
    using assms(1,2) arr lines by (simp add: value_lines_def started_def finished_def value_texts_def enum_code_def str rd_def)
qed

text \<open>The words of the score hold the numbers of the report as long as a run takes at least one clock.\<close>

lemma unat_run_clocks: "n < 2 ^ 31 \<Longrightarrow> unat (run_clocks (int n)) = n * 50000000"
  unfolding run_clocks_def CLK_FREQ_HZ_def unat_word_ariths(2) by (simp add: unat_of_nat)

lemma unat_u64: "unat (ucast e :: 64 word) = unat e" for e :: ee_u32
proof -
  have "unat e < 2 ^ 64" using unsigned_less[of e, where ?'a = nat] by simp
  then show ?thesis by (simp add: unsigned_ucast_eq take_bit_nat_eq_self)
qed

lemma unat_u32: "unat x < 2 ^ 32 \<Longrightarrow> unat (ucast x :: ee_u32) = unat x" for x :: "64 word"
  by (simp add: unsigned_ucast_eq take_bit_nat_eq_self)

lemma unat_dps:
  assumes "n < 2 ^ 31" "n \<le> unat e" "0 < n"
  shows "unat (dhrystones_per_sec (int n) e) = n * 50000000 div unat e" "n * 50000000 div unat e \<le> 50000000"
proof -
  have "n * 50000000 div unat e \<le> unat e * 50000000 div unat e" using assms(2) by (intro div_le_mono) simp
  then show le: "n * 50000000 div unat e \<le> 50000000" using assms(2,3) by simp
  have "0 < e" using assms(2,3) by (simp add: word_less_nat_alt)
  moreover have q: "unat (run_clocks (int n) div ucast e) = n * 50000000 div unat e"
    by (simp only: unat_div unat_run_clocks[OF assms(1)] unat_u64)
  have "unat (run_clocks (int n) div ucast e) < 2 ^ 32" unfolding q by (rule le_less_trans[OF le]) simp
  then have "unat (ucast (run_clocks (int n) div ucast e) :: ee_u32) = n * 50000000 div unat e"
    using unat_u32[of "run_clocks (int n) div ucast e"] q by metis
  ultimately show "unat (dhrystones_per_sec (int n) e) = n * 50000000 div unat e" by (simp add: dhrystones_per_sec_def)
qed

lemma unat_us:
  assumes "n < 2 ^ 31" "n \<le> unat e" "0 < n"
  shows "\<exists>us. us_per_run (int n) e = Some us \<and> unat us = unat e div (n * 50)" "unat e div (n * 50) < 2 ^ 31"
proof -
  have e: "unat e < 2 ^ 32" using unsigned_less[of e, where ?'a = nat] by simp
  have "unat e div (n * 50) \<le> unat e div 50" using assms(3) by (intro div_le_mono2) simp_all
  also have "\<dots> < 2 ^ 31" using e by (simp add: div_less_iff_less_mult)
  finally show le: "unat e div (n * 50) < 2 ^ 31" .
  have nz: "run_clocks (int n) \<noteq> 0" "0 < e" using unat_run_clocks[OF assms(1)] assms(2,3) by (auto simp: word_less_nat_alt)
  have m: "unat (ucast e * (1000000 :: 64 word)) = unat e * 1000000"
    using e by (simp add: unat_word_ariths(2) unat_u64)
  have "n * 50000000 = n * 50 * 1000000" by simp
  then have q: "unat (ucast e * (1000000 :: 64 word) div run_clocks (int n)) = unat e div (n * 50)"
    by (simp only: unat_div unat_run_clocks[OF assms(1)] m div_mult_mult2)
  then have "unat (ucast (ucast e * (1000000 :: 64 word) div run_clocks (int n)) :: ee_u32) = unat e div (n * 50)"
    using le unat_u32[of "ucast e * (1000000 :: 64 word) div run_clocks (int n)"] by simp
  with nz show "\<exists>us. us_per_run (int n) e = Some us \<and> unat us = unat e div (n * 50)" by (simp add: us_per_run_def)
qed

definition score_texts :: "nat \<Rightarrow> nat \<Rightarrow> string list" where
  "score_texts n elapsed =
     (let dps = n * 50000000 div elapsed; per_mhz = dps div 50
      in [[CHR 0x0A] @ line (''Microseconds for one run through Dhrystone:  '' @ dec (elapsed div (n * 50))),
          line (''Dhrystones per Second:                       '' @ dec dps),
          line (''DMIPS:                                       '' @ milli (dps div 1757) (dps mod 1757 * 1000 div 1757)),
          line (''DMIPS/MHz:                                   '' @ milli (per_mhz div 1757) (per_mhz mod 1757 * 1000 div 1757))])"

lemma is_text_word:
  assumes "plain p" "unat w = k" "k < 2 ^ 31"
  shows "is_text (line (p @ ''%d''), [Word w]) (line (p @ dec k))"
  using line_d[of p "[CHR 0x0A]" w] assms by (simp add: is_text_def line_def plain_def)

lemma is_text_milli:
  assumes "plain p" "unat v = i" "unat w = k" "i < 2 ^ 31" "k < 2 ^ 31"
  shows "is_text (line (p @ ''%d.%03d''), [Word v, Word w]) (line (p @ milli i k))"
  using line_milli[of p "[CHR 0x0A]" v w] assms by (simp add: is_text_def line_def plain_def)

text \<open>Quotient and three decimal places of a number in a word.\<close>

lemma is_text_thousandths:
  assumes "plain p" "unat w = k" "k < 2 ^ 31"
  shows "is_text (line (p @ ''%d.%03d''), [Word (w div 1757), Word ((w mod 1757) * 1000 div 1757)])
    (line (p @ milli (k div 1757) (k mod 1757 * 1000 div 1757)))"
proof (rule is_text_milli[OF assms(1)])
  have b: "k mod 1757 * 1000 \<le> 1757 * 1000" by simp
  then have "unat ((w mod 1757) * 1000) = k mod 1757 * 1000"
    by (simp add: unat_word_ariths(2) unat_mod assms(2) del: mult_le_cancel2)
  then show "unat ((w mod 1757) * 1000 div 1757) = k mod 1757 * 1000 div 1757" by (simp only: unat_div) simp
  show "k mod 1757 * 1000 div 1757 < 2 ^ 31" by (rule le_less_trans[OF le_trans[OF div_le_dividend b]]) simp
  show "unat (w div 1757) = k div 1757" by (simp add: unat_div assms(2))
  show "k div 1757 < 2 ^ 31" using assms(3) by (intro le_less_trans[OF div_le_dividend])
qed

lemma score_lines_text:
  assumes "n < 2 ^ 31" "n \<le> unat e" "0 < n"
  shows "\<exists>calls. score_lines (int n) e = Some calls \<and> list_all2 is_text calls (score_texts n (unat e))"
proof -
  let ?w = "dhrystones_per_sec (int n) e" and ?d = "n * 50000000 div unat e"
  obtain us where us: "us_per_run (int n) e = Some us" "unat us = unat e div (n * 50)" using unat_us(1)[OF assms] by blast
  note w = unat_dps(1)[OF assms]
  have d: "?d < 2 ^ 31" by (rule le_less_trans[OF unat_dps(2)[OF assms]]) simp
  have "is_text ([CHR 0x0A] @ line ''Microseconds for one run through Dhrystone:  %d'', [Word us])
      ([CHR 0x0A] @ line (''Microseconds for one run through Dhrystone:  '' @ dec (unat e div (n * 50))))"
    using is_text_word[OF _ us(2) unat_us(2)[OF assms], of "CHR 0x0A # ''Microseconds for one run through Dhrystone:  ''"]
    by (simp add: line_def plain_def)
  moreover have "is_text (line ''Dhrystones per Second:                       %d'', [Word ?w])
      (line (''Dhrystones per Second:                       '' @ dec ?d))"
    using is_text_word[OF _ w d, of "''Dhrystones per Second:                       ''"] by (simp add: plain_def)
  moreover have "is_text (line ''DMIPS:                                       %d.%03d'', [Word (?w div 1757), Word ((?w mod 1757) * 1000 div 1757)])
      (line (''DMIPS:                                       '' @ milli (?d div 1757) (?d mod 1757 * 1000 div 1757)))"
    using is_text_thousandths[OF _ w d, of "''DMIPS:                                       ''"] by (simp add: plain_def)
  moreover have "is_text (line ''DMIPS/MHz:                                   %d.%03d'', [Word (?w div 50 div 1757), Word ((?w div 50 mod 1757) * 1000 div 1757)])
      (line (''DMIPS/MHz:                                   '' @ milli (?d div 50 div 1757) (?d div 50 mod 1757 * 1000 div 1757)))"
  proof -
    have w50: "unat (?w div 50) = ?d div 50" by (simp only: unat_div w) simp
    have d50: "?d div 50 < 2 ^ 31" by (rule le_less_trans[OF div_le_dividend d])
    show ?thesis using is_text_thousandths[OF _ w50 d50, of "''DMIPS/MHz:                                   ''"] by (simp add: plain_def)
  qed
  ultimately show ?thesis using us(1) by (simp add: score_lines_def score_texts_def CLK_FREQ_HZ_def Let_def)
qed

text \<open>The calls of the whole program.\<close>

lemma dhr_calls_is_text:
  "ready st \<Longrightarrow> list_all2 is_text calls ts \<Longrightarrow>
    \<exists>m. dhr_calls st calls u = Some (u\<lparr>ureads := m, usent := usent u @ map of_char (concat ts)\<rparr>)"
  by (rule dhr_calls_text) (auto simp: is_text_def elim!: list_all2_mono)

definition start_texts :: "nat \<Rightarrow> string list" where
  "start_texts n =
     [line ''Dhrystone Benchmark, Version 2.1 (Language: C)'', line ''Program compiled without 'register' attribute'',
      line (''Execution starts, '' @ dec n @ '' runs through Dhrystone'')]"

lemma start_lines_text:
  assumes "n < 2 ^ 31"
  shows "list_all2 is_text (start_lines (int n)) (start_texts n)"
  using is_text_d[OF _ _ assms, of "''Execution starts, ''" "'' runs through Dhrystone''"]
  by (simp add: start_lines_def start_texts_def is_text_def dhr_text_plain_line plain_def line_def)

lemma dhry_report_texts:
  "dhry_report n e = concat (start_texts n @ value_texts n @ score_texts n e)"
  by (simp add: dhry_report_def start_texts_def value_texts_def score_texts_def line_def Let_def)

lemma dhry_main_report:
  assumes "ready st" "1 \<le> n" "n + 10 < 2 ^ 31" "n \<le> unat (mt 1 - mt 0)"
  shows "\<exists>s m. dhry_main st mt (int n) reset u =
      Some (1, s, u\<lparr>ureads := m, usent := usent u @ map of_char (dhry_report n (unat (mt 1 - mt 0)))\<rparr>) \<and>
    started (int n + 10) s \<and> finished s"
proof -
  let ?e = "mt 1 - mt 0"
  obtain s0 where s0: "dhry_init reset = Some s0" "started 10 s0" using dhry_init_started by blast
  obtain s where s: "runs_from 1 (int n) s0 = Some s" "started (int n + 10) s" "finished s"
    using runs_from_started[OF s0(2), of 1 "int n"] assms(2,3) by (auto simp: algebra_simps)
  obtain vs where vs: "value_lines s = Some vs" "list_all2 is_text vs (value_texts n)"
    using value_lines_text[OF s(2,3) assms(3)] by blast
  obtain ss where ss: "score_lines (int n) ?e = Some ss" "list_all2 is_text ss (score_texts n (unat ?e))"
    using score_lines_text[of n ?e] assms by auto
  obtain m1 where m1: "dhr_calls st (start_lines (int n)) u = Some (u\<lparr>ureads := m1, usent := usent u @ map of_char (concat (start_texts n))\<rparr>)" (is "_ = Some ?u1")
    using dhr_calls_is_text[OF assms(1) start_lines_text[of n], of u] assms(3) by auto
  obtain m2 where m2: "dhr_calls st vs ?u1 = Some (?u1\<lparr>ureads := m2, usent := usent ?u1 @ map of_char (concat (value_texts n))\<rparr>)" (is "_ = Some ?u2")
    using dhr_calls_is_text[OF assms(1) vs(2), of ?u1] by blast
  obtain m3 where m3: "dhr_calls st ss ?u2 = Some (?u2\<lparr>ureads := m3, usent := usent ?u2 @ map of_char (concat (score_texts n (unat ?e)))\<rparr>)"
    using dhr_calls_is_text[OF assms(1) ss(2), of ?u2] by blast
  have "dhry_main st mt (int n) reset u = Some (1, s, ?u2\<lparr>ureads := m3, usent := usent ?u2 @ map of_char (concat (score_texts n (unat ?e)))\<rparr>)"
    by (simp only: dhry_main_def s0 m1 read_mtime_def Let_def prod.case bind.bind_lunit s(1) vs(1) m2 ss(1) m3 add_0)
  with s(2,3) show ?thesis unfolding dhry_report_texts by (intro exI[of _ s] exI[of _ m3]) simp
qed

section \<open>Properties\<close>

text \<open>
  C3. The Dhrystone program, complete: for 1 to \<open>2 ^ 31 - 11\<close> runs that take at least one clock each, with a
  transmitter that keeps coming free, \<open>main\<close> gets to its final loop without undefined behaviour (no overflow, no
  null pointer, no index outside an array, no variable without a value), writes 1 to \<open>tohost\<close>, and has sent exactly the
  report: the final values of the variables, and the scores computed from the number of runs and the clocks that
  the timer advanced by, modulo \<open>2 ^ 32\<close>.
\<close>

theorem dhrystone_report:
  assumes "ready st" "1 \<le> n" "n + 10 < 2 ^ 31" "n \<le> unat (mt 1 - mt 0)"
  shows "\<exists>s m. dhry_main st mt (int n) reset u =
    Some (1, s, u\<lparr>ureads := m, usent := usent u @ map of_char (dhry_report n (unat (mt 1 - mt 0)))\<rparr>)"
  using dhry_main_report[OF assms] by blast

theorem dhrystone_report_witness:
  "\<exists>s m. dhry_main (\<lambda>n. 0) (\<lambda>i. if i = 0 then 0xfffffff0 else 171000000) 500000 reset idle_uart =
    Some (1, s, \<lparr>ureads = m, usent = map of_char (dhry_report 500000 171000016)\<rparr>)"
  using dhrystone_report[OF ready_idle, of 500000 "\<lambda>i. if i = 0 then 0xfffffff0 else 171000000" idle_uart]
  by (simp add: idle_uart_def)

text \<open>
  C22. The records: every run keeps the invariant between runs (the shape of the two records and of the arrays, the
  strings), increments the element \<open>Arr_2_glob[8][7]\<close>, and leaves the same values in every other variable the report
  shows, whatever the values were before.
\<close>

theorem one_run_invariant:
  assumes "started k s" "\<bar>k + 1\<bar> < 2 ^ 31"
  shows "\<exists>t. one_run s = Some t \<and> started (k + 1) t \<and> finished t"
  by (rule one_run_started[OF assms])

theorem one_run_invariant_witness: "\<exists>s t. dhry_init reset = Some s \<and> one_run s = Some t \<and> started 11 t \<and> finished t"
proof -
  obtain s where s: "dhry_init reset = Some s" "started 10 s" using dhry_init_started by blast
  from one_run_invariant[OF s(2)] s(1) show ?thesis by auto
qed

end
