(* ===== verification/Embench_Board.thy ===== *)
theory Embench_Board
  imports Local_Digits
begin

text \<open>
  \<open>embench/config/gandiva/boardsupport.c\<close>: the board support the Embench benchmarks are linked with, a serial
  driver, the start-up delay, the two triggers that read the cycle counter, and the exit that reports the
  return code and the cycles between the triggers.

  The cycle counter is hardware: \<open>cyc n\<close> is the 64-bit counter at the \<open>n\<close>-th read of one of its two halves.
  The benchmark between the triggers is not part of the repository; it does not touch this state.
\<close>

section \<open>The code\<close>

record board =
  board_uart :: uart
  csr_reads :: nat
  start_cycles_lo :: ee_u32
  start_cycles_hi :: ee_u32
  stop_cycles_lo :: ee_u32
  stop_cycles_hi :: ee_u32

definition emb_putc :: putc where
  "emb_putc st c u = do { u \<leftarrow> tx_wait st u; Some (uart_write (of_char c) u) }"

definition emb_puts :: "status \<Rightarrow> string \<Rightarrow> uart \<Rightarrow> uart option" where
  "emb_puts st s u = puts_loop emb_putc st s u"

definition emb_print_uint :: "status \<Rightarrow> ee_u32 \<Rightarrow> uart \<Rightarrow> uart option" where
  "emb_print_uint st v u =
     (if v = 0 then emb_putc st (CHR ''0'') u
      else do { (buf, n) \<leftarrow> digit_loop dec_digit 10 v (fresh 12) 0; send_down emb_putc st buf n u })"

type_synonym cycles = "nat \<Rightarrow> 64 word"

definition read_mcycle :: "cycles \<Rightarrow> board \<Rightarrow> ee_u32 \<times> board" where
  "read_mcycle cyc b = (ucast (cyc (csr_reads b)), b\<lparr>csr_reads := csr_reads b + 1\<rparr>)"

definition read_mcycleh :: "cycles \<Rightarrow> board \<Rightarrow> ee_u32 \<times> board" where
  "read_mcycleh cyc b = (ucast (drop_bit 32 (cyc (csr_reads b))), b\<lparr>csr_reads := csr_reads b + 1\<rparr>)"

definition on_uart :: "(uart \<Rightarrow> uart option) \<Rightarrow> board \<Rightarrow> board option" where
  "on_uart f b = map_option (\<lambda>u. b\<lparr>board_uart := u\<rparr>) (f (board_uart b))"

partial_function (option) boot_wait :: "cycles \<Rightarrow> ee_u32 \<Rightarrow> board \<Rightarrow> board option" where
  "boot_wait cyc start_lo b =
     (let (now, b) = read_mcycle cyc b
      in if 50000000 < now - start_lo then Some b else boot_wait cyc start_lo b)"

declare boot_wait.simps [code]

definition initialise_board :: "status \<Rightarrow> cycles \<Rightarrow> board \<Rightarrow> board option" where
  "initialise_board st cyc b =
     do { let (start_lo, b) = read_mcycle cyc b;
          b \<leftarrow> boot_wait cyc start_lo b;
          on_uart (emb_puts st (c_str (line ''BOOT''))) b }"

definition start_trigger :: "status \<Rightarrow> cycles \<Rightarrow> board \<Rightarrow> board option" where
  "start_trigger st cyc b =
     do { b \<leftarrow> on_uart (emb_puts st (c_str (line ''START''))) b;
          let (lo, b) = read_mcycle cyc b;
          let b = b\<lparr>start_cycles_lo := lo\<rparr>;
          let (hi, b) = read_mcycleh cyc b;
          Some (b\<lparr>start_cycles_hi := hi\<rparr>) }"

definition stop_trigger :: "cycles \<Rightarrow> board \<Rightarrow> board" where
  "stop_trigger cyc b =
     (let (lo, b) = read_mcycle cyc b;
          b = b\<lparr>stop_cycles_lo := lo\<rparr>;
          (hi, b) = read_mcycleh cyc b
      in b\<lparr>stop_cycles_hi := hi\<rparr>)"

definition elapsed_cycles :: "board \<Rightarrow> ee_u32" where
  "elapsed_cycles b =
     (let start = (push_bit 32 (ucast (start_cycles_hi b)) OR ucast (start_cycles_lo b) :: 64 word);
          stop = push_bit 32 (ucast (stop_cycles_hi b)) OR ucast (stop_cycles_lo b)
      in ucast (stop - start))"

text \<open>\<open>_exit\<close> up to its final loop, with the value written to \<open>tohost\<close>.\<close>

definition board_exit :: "status \<Rightarrow> ee_u32 \<Rightarrow> board \<Rightarrow> (ee_u32 \<times> board) option" where
  "board_exit st code b =
     do { let elapsed = elapsed_cycles b;
          b \<leftarrow> on_uart (emb_puts st (c_str ''RET='')) b;
          b \<leftarrow> on_uart (emb_print_uint st code) b;
          b \<leftarrow> on_uart (emb_puts st (c_str ([CHR 0x0A] @ ''CYCLES=''))) b;
          b \<leftarrow> on_uart (emb_print_uint st elapsed) b;
          b \<leftarrow> on_uart (emb_puts st (c_str [CHR 0x0A])) b;
          Some (1, b) }"

section \<open>The driver\<close>

interpretation emb_uart: uart_port emb_putc
proof
  show "\<exists>m\<ge>ureads u. st m AND 1 = 0 \<and> u' = u\<lparr>ureads := Suc m, usent := usent u @ [of_char c]\<rparr>"
    if "emb_putc st c u = Some u'" for st c u u'
    using that unfolding emb_putc_def by (rule wait_write_free)
  show "\<exists>u'. emb_putc st c u = Some u'" if "ready st" for st c u
    unfolding emb_putc_def using that by (rule wait_write_ready)
qed

lemma emb_puts_sent: "ready st \<Longrightarrow> CHR 0x00 \<notin> set s \<Longrightarrow> \<exists>u'. emb_puts st (c_str s) u = Some u' \<and> sent s u u'"
  unfolding emb_puts_def by (rule emb_uart.puts_sent)

lemma emb_print_uint_sent:
  "ready st \<Longrightarrow> \<exists>u'. emb_print_uint st v u = Some u' \<and> sent (num_text dec_char 10 (unat v)) u u'"
  using emb_uart.decimal_sent[of st v u] emb_uart.putc_sent[of st "CHR ''0''" u] char_zero
  by (auto simp: emb_print_uint_def num_text_def)

text \<open>The state after something was sent.\<close>

definition board_sent :: "string \<Rightarrow> board \<Rightarrow> board \<Rightarrow> bool" where
  "board_sent s b b' \<longleftrightarrow> (\<exists>u. b' = b\<lparr>board_uart := u\<rparr> \<and> sent s (board_uart b) u)"

lemma board_sent_trans: "board_sent s b b' \<Longrightarrow> board_sent t b' b'' \<Longrightarrow> board_sent (s @ t) b b''"
  by (force simp: board_sent_def intro: sent_append)

lemma on_uart_sent: "\<exists>u'. f (board_uart b) = Some u' \<and> sent s (board_uart b) u' \<Longrightarrow> \<exists>b'. on_uart f b = Some b' \<and> board_sent s b b'"
  by (auto simp: on_uart_def board_sent_def)

lemma board_puts: "ready st \<Longrightarrow> CHR 0x00 \<notin> set s \<Longrightarrow> \<exists>b'. on_uart (emb_puts st (c_str s)) b = Some b' \<and> board_sent s b b'"
  by (rule on_uart_sent) (rule emb_puts_sent)

lemma board_print: "ready st \<Longrightarrow> \<exists>b'. on_uart (emb_print_uint st v) b = Some b' \<and> board_sent (num_text dec_char 10 (unat v)) b b'"
  by (rule on_uart_sent) (rule emb_print_uint_sent)

section \<open>Cycles\<close>

lemma mod_low: "x mod 2 ^ 64 mod 2 ^ 32 = x mod 2 ^ 32" for x :: int
  by (rule mod_mod_cancel) simp

lemma mod_low_diff: "(x mod 2 ^ 64 - y mod 2 ^ 64) mod 2 ^ 32 = (x - y) mod 2 ^ 32" for x y :: int
proof -
  have "(x mod 2 ^ 64 mod 2 ^ 32 - y mod 2 ^ 64 mod 2 ^ 32) mod 2 ^ 32 = (x mod 2 ^ 32 - y mod 2 ^ 32) mod 2 ^ 32" by (simp only: mod_low)
  then show ?thesis by (simp only: mod_diff_eq)
qed
lemma ucast_low_diff: "ucast (x - y) = (ucast x - ucast y :: ee_u32)" for x y :: "64 word"
  by transfer (use mod_low_diff mod_low in \<open>simp add: take_bit_eq_mod\<close>)

text \<open>The high halves do not matter: the low half of the difference is the difference of the low halves.\<close>

lemma elapsed_cycles_low: "elapsed_cycles b = stop_cycles_lo b - start_cycles_lo b"
proof -
  have low: "ucast (push_bit 32 (ucast h) OR ucast l :: 64 word) = l" for h l :: ee_u32
    by (rule bit_word_eqI) (auto simp: bit_simps)
  show ?thesis by (simp add: elapsed_cycles_def Let_def ucast_low_diff low)
qed

text \<open>The delay at the start ends when the counter has advanced far enough.\<close>

lemma boot_wait_ends:
  assumes "50000000 < ucast (cyc (csr_reads b + k)) - start_lo"
  shows "\<exists>n\<ge>csr_reads b. boot_wait cyc start_lo b = Some (b\<lparr>csr_reads := Suc n\<rparr>) \<and> 50000000 < ucast (cyc n) - start_lo"
  using assms
proof (induction k arbitrary: b)
  case 0
  then show ?case by (subst boot_wait.simps) (auto simp: read_mcycle_def)
next
  case (Suc k)
  show ?case
  proof (cases "50000000 < ucast (cyc (csr_reads b)) - start_lo")
    case True
    then show ?thesis by (subst boot_wait.simps) (auto simp: read_mcycle_def)
  next
    case False
    have "50000000 < ucast (cyc (csr_reads (b\<lparr>csr_reads := csr_reads b + 1\<rparr>) + k)) - start_lo" using Suc.prems by simp
    from Suc.IH[OF this] False show ?thesis by (subst boot_wait.simps) (auto simp: read_mcycle_def intro: Suc_leD)
  qed
qed

lemma board_exit_sent:
  assumes "ready st"
  shows "\<exists>b'. board_exit st code b = Some (1, b') \<and>
    board_sent (line (''RET='' @ num_text dec_char 10 (unat code)) @ line (''CYCLES='' @ num_text dec_char 10 (unat (elapsed_cycles b)))) b b'"
proof -
  obtain b1 where b1: "on_uart (emb_puts st (c_str ''RET='')) b = Some b1" "board_sent ''RET='' b b1"
    using board_puts[OF assms, of "''RET=''" b] by auto
  obtain b2 where b2: "on_uart (emb_print_uint st code) b1 = Some b2" "board_sent (num_text dec_char 10 (unat code)) b1 b2"
    using board_print[OF assms] by blast
  obtain b3 where b3: "on_uart (emb_puts st (c_str ([CHR 0x0A] @ ''CYCLES=''))) b2 = Some b3" "board_sent ([CHR 0x0A] @ ''CYCLES='') b2 b3"
    using board_puts[OF assms, of "[CHR 0x0A] @ ''CYCLES=''" b2] by auto
  obtain b4 where b4: "on_uart (emb_print_uint st (elapsed_cycles b)) b3 = Some b4"
    "board_sent (num_text dec_char 10 (unat (elapsed_cycles b))) b3 b4"
    using board_print[OF assms] by blast
  obtain b5 where b5: "on_uart (emb_puts st (c_str [CHR 0x0A])) b4 = Some b5" "board_sent [CHR 0x0A] b4 b5"
    using board_puts[OF assms, of "[CHR 0x0A]" b4] by auto
  have "board_exit st code b = Some (1, b5)"
    by (simp only: board_exit_def Let_def b1(1) b2(1) b3(1) b4(1) b5(1) bind.bind_lunit)
  moreover have "board_sent (''RET='' @ num_text dec_char 10 (unat code) @ ([CHR 0x0A] @ ''CYCLES='') @
      num_text dec_char 10 (unat (elapsed_cycles b)) @ [CHR 0x0A]) b b5"
    by (rule board_sent_trans[OF b1(2) board_sent_trans[OF b2(2) board_sent_trans[OF b3(2) board_sent_trans[OF b4(2) b5(2)]]]])
  ultimately show ?thesis by (simp add: line_def)
qed

lemma start_trigger_total:
  assumes "ready st"
  shows "\<exists>b1. start_trigger st cyc b = Some b1 \<and> csr_reads b1 = csr_reads b + 2"
proof -
  obtain b0 where b0: "on_uart (emb_puts st (c_str (line ''START''))) b = Some b0" "board_sent (line ''START'') b b0"
    using board_puts[OF assms, of "line ''START''" b] by (auto simp: line_def)
  then show ?thesis by (auto simp: start_trigger_def read_mcycle_def read_mcycleh_def board_sent_def Let_def)
qed

text \<open>The board comes up once the counter has advanced by more than 50000000 cycles, and not before.\<close>

lemma initialise_board_boots:
  assumes "ready st" "50000000 < ucast (cyc (Suc (csr_reads b + k))) - (ucast (cyc (csr_reads b)) :: ee_u32)"
  shows "\<exists>b' n. initialise_board st cyc b = Some b' \<and> csr_reads b' = Suc n \<and>
    50000000 < ucast (cyc n) - (ucast (cyc (csr_reads b)) :: ee_u32) \<and>
    usent (board_uart b') = usent (board_uart b) @ map of_char (line ''BOOT'')"
proof -
  let ?b = "b\<lparr>csr_reads := csr_reads b + 1\<rparr>"
  have d: "50000000 < ucast (cyc (csr_reads ?b + k)) - (ucast (cyc (csr_reads b)) :: ee_u32)" using assms(2) by simp
  obtain n where n: "boot_wait cyc (ucast (cyc (csr_reads b))) ?b = Some (?b\<lparr>csr_reads := Suc n\<rparr>)"
    "50000000 < ucast (cyc n) - (ucast (cyc (csr_reads b)) :: ee_u32)"
    using boot_wait_ends[of cyc ?b k "ucast (cyc (csr_reads b))"] d by blast
  obtain b' where "on_uart (emb_puts st (c_str (line ''BOOT''))) (?b\<lparr>csr_reads := Suc n\<rparr>) = Some b'"
    "board_sent (line ''BOOT'') (?b\<lparr>csr_reads := Suc n\<rparr>) b'"
    using board_puts[OF assms(1), of "line ''BOOT''" "?b\<lparr>csr_reads := Suc n\<rparr>"] by (auto simp: line_def)
  with n show ?thesis by (auto simp: initialise_board_def read_mcycle_def board_sent_def sent_def Let_def)
qed

section \<open>Properties\<close>

text \<open>
  C24. A measurement: after \<open>start_trigger\<close>, any number of further reads of the counter, and \<open>stop_trigger\<close>, the exit
  reports the return code and, modulo \<open>2 ^ 32\<close>, exactly the cycles between the two reads of the low half, whatever the
  high halves are, so that reading the counter in two halves does no harm. It writes 1 to \<open>tohost\<close>.
\<close>

theorem emb_measures:
  assumes "ready st" "start_trigger st cyc b = Some b1" "csr_reads b1 \<le> k"
  shows "\<exists>b2. board_exit st code (stop_trigger cyc (b1\<lparr>csr_reads := k\<rparr>)) = Some (1, b2) \<and>
    usent (board_uart b2) = usent (board_uart b) @ map of_char (line ''START'' @
      line (''RET='' @ num_text dec_char 10 (unat code)) @
      line (''CYCLES='' @ num_text dec_char 10 (unat (cyc k - cyc (csr_reads b)) mod 2 ^ 32)))"
proof -
  obtain b0 where b0: "on_uart (emb_puts st (c_str (line ''START''))) b = Some b0" "board_sent (line ''START'') b b0"
    using board_puts[OF assms(1), of "line ''START''" b] by (auto simp: line_def)
  have b1: "start_cycles_lo b1 = ucast (cyc (csr_reads b))" "board_uart b1 = board_uart b0"
    using assms(2) b0 by (auto simp: start_trigger_def read_mcycle_def read_mcycleh_def board_sent_def Let_def)
  let ?s = "stop_trigger cyc (b1\<lparr>csr_reads := k\<rparr>)"
  have s: "stop_cycles_lo ?s = ucast (cyc k)" "start_cycles_lo ?s = start_cycles_lo b1" "board_uart ?s = board_uart b1"
    by (simp_all add: stop_trigger_def read_mcycle_def read_mcycleh_def Let_def)
  have "unat (elapsed_cycles ?s) = unat (cyc k - cyc (csr_reads b)) mod 2 ^ 32"
    unfolding elapsed_cycles_low s b1 by (simp add: unsigned_ucast_eq take_bit_eq_mod flip: ucast_low_diff)
  with board_exit_sent[OF assms(1), of code ?s] b0(2) s(3) b1(2) show ?thesis by (auto simp: board_sent_def sent_def)
qed

definition sample_board :: board where
  "sample_board = \<lparr>board_uart = idle_uart, csr_reads = 0, start_cycles_lo = 0, start_cycles_hi = 0, stop_cycles_lo = 0, stop_cycles_hi = 0\<rparr>"

theorem emb_measures_witness:
  "\<exists>b1 b2. start_trigger (\<lambda>n. 0) (\<lambda>n. 0xfffffff0 + of_nat n * 0x800000000) sample_board = Some b1 \<and>
    board_exit (\<lambda>n. 0) 0 (stop_trigger (\<lambda>n. 0xfffffff0 + of_nat n * 0x800000000) (b1\<lparr>csr_reads := 7\<rparr>)) = Some (1, b2)"
proof -
  obtain b1 where b1: "start_trigger (\<lambda>n. 0) (\<lambda>n. 0xfffffff0 + of_nat n * 0x800000000) sample_board = Some b1" "csr_reads b1 = 2"
    using start_trigger_total[OF ready_idle, of "\<lambda>n. 0xfffffff0 + of_nat n * 0x800000000" sample_board] by (auto simp: sample_board_def)
  have "csr_reads b1 \<le> 7" using b1(2) by simp
  from emb_measures[OF ready_idle b1(1) this, of 0] b1(1) show ?thesis by blast
qed

end
