(* ===== verification/Rtos_Bsp.thy ===== *)
theory Rtos_Bsp
  imports Local_Digits
begin

text \<open>
  The board support of the RTOS demo: \<open>rtos/bsp/bsp.c\<close> (serial driver, number printers, simulation exit, the
  handlers that the kernel calls) and \<open>rtos/bsp/libc_stubs.c\<close> (\<open>memcpy\<close>, \<open>memset\<close>, \<open>memmove\<close>).

  The registers of the serial port are bytes here. Memory for the libc functions is a list of bytes; an address is
  an index, and an access outside the list is undefined.
\<close>

section \<open>The code\<close>

subsection \<open>\<open>bsp.c\<close>\<close>

text \<open>The status and data registers are one byte wide: what the driver reads is the low byte of the status.\<close>

definition byte_status :: "status \<Rightarrow> status" where
  "byte_status st n = ucast (ucast (st n) :: ee_u8)"

definition bsp_putc :: putc where
  "bsp_putc st c u = do { u \<leftarrow> tx_wait (byte_status st) u; Some (uart_write (ucast (of_char c :: ee_u8)) u) }"

definition bsp_puts :: "status \<Rightarrow> string \<Rightarrow> uart \<Rightarrow> uart option" where
  "bsp_puts st s u = puts_loop bsp_putc st s u"

definition bsp_putdec :: "status \<Rightarrow> ee_s32 \<Rightarrow> uart \<Rightarrow> uart option" where
  "bsp_putdec st v u =
     do { (w, u) \<leftarrow> (if v <s 0 then do { u \<leftarrow> bsp_putc st (CHR ''-'') u; w \<leftarrow> neg_s32 v; Some (w, u) }
                    else Some (v, u));
          if w = 0 then bsp_putc st (CHR ''0'') u
          else do { (buf, i) \<leftarrow> digit_loop dec_digit 10 w (fresh 12) 0; send_down bsp_putc st buf i u } }"

text \<open>\<open>for (i = 28; i >= 0; i -= 4) uart_putc(h[(v >> i) & 0xF]);\<close> with \<open>i = 4 * (k - 1)\<close>.\<close>

fun nibble_loop :: "status \<Rightarrow> ee_u32 \<Rightarrow> nat \<Rightarrow> uart \<Rightarrow> uart option" where
  "nibble_loop st v 0 u = Some u"
| "nibble_loop st v (Suc k) u =
     do { c \<leftarrow> table_digit ''0123456789abcdef'' (drop_bit (4 * k) v AND 0xF);
          u \<leftarrow> bsp_putc st c u;
          nibble_loop st v k u }"

definition bsp_puthex :: "status \<Rightarrow> ee_u32 \<Rightarrow> uart \<Rightarrow> uart option" where
  "bsp_puthex st v u = do { u \<leftarrow> bsp_puts st (c_str ''0x'') u; nibble_loop st v 8 u }"

text \<open>The rest of the chip: the baud divider, the word the simulation watches, the interrupt enable.\<close>

record soc =
  soc_uart :: uart
  bauddiv :: ee_u8
  tohost :: ee_u32
  interrupts :: bool

definition uart_init :: "soc \<Rightarrow> soc" where
  "uart_init s = s\<lparr>bauddiv := 2\<rparr>"

text \<open>\<open>sim_pass\<close> and \<open>sim_fail\<close> never return: these are the states of their endless loops.\<close>

definition sim_pass :: "soc \<Rightarrow> soc" where
  "sim_pass s = s\<lparr>tohost := 1\<rparr>"

definition sim_fail :: "soc \<Rightarrow> soc" where
  "sim_fail s = s\<lparr>tohost := 2\<rparr>"

definition soc_out :: "(uart \<Rightarrow> uart option) \<Rightarrow> soc \<Rightarrow> soc option" where
  "soc_out f s = map_option (\<lambda>u. s\<lparr>soc_uart := u\<rparr>) (f (soc_uart s))"

definition vAssertCalled :: "status \<Rightarrow> string \<Rightarrow> ee_u32 \<Rightarrow> soc \<Rightarrow> soc option" where
  "vAssertCalled st pcFile ulLine s =
     do { let s = s\<lparr>interrupts := False\<rparr>;
          s \<leftarrow> soc_out (bsp_puts st (c_str ([CHR 0x0A] @ ''[ASSERT] ''))) s;
          s \<leftarrow> soc_out (bsp_puts st pcFile) s;
          s \<leftarrow> soc_out (bsp_putc st (CHR '':'')) s;
          s \<leftarrow> soc_out (bsp_putdec st ulLine) s;
          s \<leftarrow> soc_out (bsp_putc st (CHR 0x0A)) s;
          Some (sim_fail s) }"

definition exception_handler :: "status \<Rightarrow> soc \<Rightarrow> soc option" where
  "exception_handler st s =
     do { s \<leftarrow> soc_out (bsp_puts st (c_str ([CHR 0x0A] @ line ''[TRAP] unexpected exception''))) s; Some (sim_fail s) }"

definition interrupt_handler :: "status \<Rightarrow> soc \<Rightarrow> soc option" where
  "interrupt_handler st s =
     do { s \<leftarrow> soc_out (bsp_puts st (c_str ([CHR 0x0A] @ line ''[TRAP] unexpected interrupt''))) s; Some (sim_fail s) }"

subsection \<open>\<open>libc_stubs.c\<close>\<close>

text \<open>\<open>while (n--) *dd++ = *ss++;\<close> and, from the ends, \<open>while (n--) *--dd = *--ss;\<close>\<close>

fun bytes_up :: "nat \<Rightarrow> nat \<Rightarrow> nat \<Rightarrow> 'a list \<Rightarrow> 'a list option" where
  "bytes_up 0 dd ss m = Some m"
| "bytes_up (Suc n) dd ss m = do { b \<leftarrow> rd m ss; m \<leftarrow> wr m dd b; bytes_up n (dd + 1) (ss + 1) m }"

fun bytes_down :: "nat \<Rightarrow> nat \<Rightarrow> nat \<Rightarrow> 'a list \<Rightarrow> 'a list option" where
  "bytes_down 0 dd ss m = Some m"
| "bytes_down (Suc n) dd ss m = do { b \<leftarrow> rd m (ss - 1); m \<leftarrow> wr m (dd - 1) b; bytes_down n (dd - 1) (ss - 1) m }"

fun bytes_set :: "nat \<Rightarrow> nat \<Rightarrow> ee_u8 \<Rightarrow> ee_u8 list \<Rightarrow> ee_u8 list option" where
  "bytes_set 0 dd c m = Some m"
| "bytes_set (Suc n) dd c m = do { m \<leftarrow> wr m dd c; bytes_set n (dd + 1) c m }"

definition memcpy :: "nat \<Rightarrow> nat \<Rightarrow> nat \<Rightarrow> ee_u8 list \<Rightarrow> (nat \<times> ee_u8 list) option" where
  "memcpy d s n m = map_option (\<lambda>m. (d, m)) (bytes_up n d s m)"

definition memset :: "nat \<Rightarrow> ee_s32 \<Rightarrow> nat \<Rightarrow> ee_u8 list \<Rightarrow> (nat \<times> ee_u8 list) option" where
  "memset d c n m = map_option (\<lambda>m. (d, m)) (bytes_set n d (ucast c) m)"

definition memmove :: "nat \<Rightarrow> nat \<Rightarrow> nat \<Rightarrow> ee_u8 list \<Rightarrow> (nat \<times> ee_u8 list) option" where
  "memmove d s n m =
     map_option (\<lambda>m. (d, m))
       (if d < s then bytes_up n d s m
        else bytes_down n (d + n) (s + n) m)"

section \<open>The driver\<close>

text \<open>Bit 0 of the byte is bit 0 of the word, and a character is a byte.\<close>

lemma byte_status_free: "byte_status st n AND 1 = 0 \<longleftrightarrow> st n AND 1 = 0"
proof -
  have "(x AND 1 = 0) = (\<not> bit x 0)" for x :: ee_u32 by (simp add: and_one_eq bit_0 odd_iff_mod_2_eq_one)
  then show ?thesis by (simp add: byte_status_def bit_simps)
qed

lemma byte_status_ready: "ready st \<Longrightarrow> ready (byte_status st)"
  by (simp add: ready_def byte_status_free)

lemma byte_of_char: "(ucast (of_char c :: ee_u8) :: ee_u32) = of_char c"
  by (cases c) simp

interpretation bsp_uart: uart_port bsp_putc
proof
  show "\<exists>m\<ge>ureads u. st m AND 1 = 0 \<and> u' = u\<lparr>ureads := Suc m, usent := usent u @ [of_char c]\<rparr>"
    if "bsp_putc st c u = Some u'" for st c u u'
    using that wait_write_free[of "byte_status st" u "of_char c" u'] by (simp add: bsp_putc_def byte_of_char byte_status_free)
  show "\<exists>u'. bsp_putc st c u = Some u'" if "ready st" for st c u
    unfolding bsp_putc_def using byte_status_ready[OF that] by (rule wait_write_ready)
qed

section \<open>Printing\<close>

lemma bsp_putdec_sent:
  assumes "ready st" "sint v \<noteq> - (2 ^ 31)"
  shows "\<exists>u'. bsp_putdec st v u = Some u' \<and>
    sent ((if sint v < 0 then ''-'' else '''') @ num_text dec_char 10 (nat \<bar>sint v\<bar>)) u u'"
proof -
  have digits: "\<exists>u'. (if w = 0 then bsp_putc st (CHR ''0'') u
      else do { (buf, i) \<leftarrow> digit_loop dec_digit 10 w (fresh 12) 0; send_down bsp_putc st buf i u }) = Some u' \<and>
      sent (num_text dec_char 10 (unat w)) u u'" for w u
    using bsp_uart.decimal_sent[OF assms(1), of w u] bsp_uart.putc_sent[OF assms(1), of "CHR ''0''" u] char_zero
    by (cases "w = 0") (auto simp: num_text_def)
  show ?thesis
  proof (cases "sint v < 0")
    case True
    obtain u1 where u1: "bsp_putc st (CHR ''-'') u = Some u1" "sent ''-'' u u1" using bsp_uart.putc_sent[OF assms(1)] by blast
    from digits[of "- v" u1] True assms(2) show ?thesis
      by (auto simp: bsp_putdec_def word_sless_alt neg_s32_def u1(1) unat_neg intro: sent_append[OF u1(2)] dest: sent_append[OF u1(2)])
  next
    case False
    with digits[of v u] unat_nonneg[of v] show ?thesis by (auto simp: bsp_putdec_def word_sless_alt)
  qed
qed

definition hex_text :: "ee_u32 \<Rightarrow> string" where
  "hex_text v = map (\<lambda>k. hex_char (unat (drop_bit (4 * k) v AND 0xF))) (rev [0..<8])"

lemma nibble_loop_sent:
  assumes "ready st"
  shows "\<exists>u'. nibble_loop st v n u = Some u' \<and> sent (map (\<lambda>k. hex_char (unat (drop_bit (4 * k) v AND 0xF))) (rev [0..<n])) u u'"
proof (induction n arbitrary: u)
  case (Suc n)
  let ?d = "drop_bit (4 * n) v AND 0xF :: ee_u32"
  have "unat ?d < 16" using unat_and_mask_less[of "drop_bit (4 * n) v" 4] by (simp add: mask_eq_decr_exp)
  then have c: "table_digit ''0123456789abcdef'' ?d = Some (hex_char (unat ?d))"
    by (simp add: table_digit_def hex_char_def)
  obtain u1 where u1: "bsp_putc st (hex_char (unat ?d)) u = Some u1" "sent [hex_char (unat ?d)] u u1"
    using bsp_uart.putc_sent[OF assms] by blast
  with Suc.IH[of u1] c show ?case using sent_append[OF u1(2)] by fastforce
qed simp

lemma bsp_puthex_sent:
  assumes "ready st"
  shows "\<exists>u'. bsp_puthex st v u = Some u' \<and> sent (''0x'' @ hex_text v) u u'"
proof -
  obtain u1 where u1: "bsp_puts st (c_str ''0x'') u = Some u1" "sent ''0x'' u u1"
    using bsp_uart.puts_sent[OF assms, of "''0x''" u] by (auto simp: bsp_puts_def)
  with nibble_loop_sent[OF assms, of v 8 u1] sent_append[OF u1(2)] show ?thesis by (fastforce simp: bsp_puthex_def hex_text_def)
qed

section \<open>Copying\<close>

lemma bytes_up_eq:
  assumes "s + n \<le> length m" "d + n \<le> length m" "d \<le> s \<or> s + n \<le> d"
  shows "bytes_up n d s m = Some (put_at m d (take n (drop s m)))"
  using assms
proof (induction n arbitrary: d s m)
  case (Suc n)
  have r: "rd m s = Some (m ! s)" "wr m d (m ! s) = Some (m[d := m ! s])" using Suc.prems by simp_all
  have t: "take (Suc n) (drop s m) = m ! s # take n (drop (Suc s) m)" using Suc.prems by (simp add: take_Suc_conv_app_nth Cons_nth_drop_Suc[symmetric])
  have k: "take n (drop (Suc s) (m[d := m ! s])) = take n (drop (Suc s) m)"
    using Suc.prems(3) by (auto simp: drop_update_cancel drop_update_swap take_update_cancel)
  have "bytes_up n (Suc d) (Suc s) (m[d := m ! s]) = Some (put_at (m[d := m ! s]) (Suc d) (take n (drop (Suc s) m)))"
    using Suc.IH[of "Suc s" "m[d := m ! s]" "Suc d"] Suc.prems k by auto
  also have "put_at (m[d := m ! s]) (Suc d) (take n (drop (Suc s) m)) = put_at m d (take (Suc n) (drop s m))"
    unfolding t using Suc.prems(2) by (simp add: put_at_Cons)
  finally show ?case by (simp add: r)
qed simp

lemma bytes_down_eq:
  assumes "s + n \<le> length m" "d + n \<le> length m" "s \<le> d"
  shows "bytes_down n (d + n) (s + n) m = Some (put_at m d (take n (drop s m)))"
  using assms
proof (induction n arbitrary: m)
  case (Suc n)
  let ?m = "m[d + n := m ! (s + n)]"
  have r: "rd m (s + n) = Some (m ! (s + n))" "wr m (d + n) (m ! (s + n)) = Some ?m" using Suc.prems by simp_all
  have k: "take n (drop s ?m) = take n (drop s m)"
    using Suc.prems(3) by (intro nth_equalityI) auto
  have "bytes_down n (d + n) (s + n) ?m = Some (put_at ?m d (take n (drop s m)))" using Suc.IH[of ?m] Suc.prems k by simp
  also have "put_at ?m d (take n (drop s m)) = put_at m d (take (Suc n) (drop s m))"
    using Suc.prems by (intro nth_equalityI) (auto simp: put_at_def nth_append nth_list_update not_less less_Suc_eq min_def split: if_splits)
  finally show ?case by (simp add: r)
qed simp

lemma bytes_set_eq: "d + n \<le> length m \<Longrightarrow> bytes_set n d c m = Some (put_at m d (replicate n c))"
  by (induction n arbitrary: d m) (simp_all add: put_at_Cons)


section \<open>Properties\<close>

text \<open>
  C23. The copying functions: for any two ranges inside memory, overlapping or not, \<open>memmove\<close> stores the bytes the source
  range held before into the destination range, leaves every other byte as it is, and returns the destination;
  \<open>memcpy\<close> does the same unless the destination starts inside the source range, and \<open>memset\<close> fills its range.
\<close>

theorem copies_bytes:
  assumes "s + n \<le> length m" "d + n \<le> length m"
  shows "memmove d s n m = Some (d, put_at m d (take n (drop s m))) \<and>
    (d \<le> s \<or> s + n \<le> d \<longrightarrow> memcpy d s n m = memmove d s n m) \<and>
    memset d c n m = Some (d, put_at m d (replicate n (ucast c)))"
  using assms bytes_up_eq[of s n m d] bytes_down_eq[of s n m d] bytes_set_eq[of d n m "ucast c"]
  by (auto simp: memmove_def memcpy_def memset_def)

theorem copies_bytes_witness:
  "memmove 1 0 3 [1, 2, 3, 4, 5] = Some (1, [1, 1, 2, 3, 5]) \<and> memcpy 0 1 3 [1, 2, 3, 4, 5] = Some (0, [2, 3, 4, 4, 5])"
  using copies_bytes[of 0 3 "[1, 2, 3, 4, 5]" 1] copies_bytes[of 1 3 "[1, 2, 3, 4, 5]" 0]
  by (simp add: put_at_def numeral_eq_Suc)

text \<open>The state after something was sent.\<close>

lemma soc_out_sent: "\<exists>u'. f (soc_uart s) = Some u' \<and> sent t (soc_uart s) u' \<Longrightarrow> \<exists>u'. soc_out f s = Some (s\<lparr>soc_uart := u'\<rparr>) \<and> sent t (soc_uart s) u'"
  by (auto simp: soc_out_def)

lemma assert_sends:
  assumes "ready st" "CHR 0x00 \<notin> set file" "sint l \<noteq> - (2 ^ 31)"
  shows "\<exists>u'. vAssertCalled st (c_str file) l s = Some (s\<lparr>interrupts := False, soc_uart := u', tohost := 2\<rparr>) \<and>
    sent ([CHR 0x0A] @ ''[ASSERT] '' @ file @ '':'' @ ((if sint l < 0 then ''-'' else '''') @ num_text dec_char 10 (nat \<bar>sint l\<bar>)) @ [CHR 0x0A])
      (soc_uart s) u'"
proof -
  let ?d = "(if sint l < 0 then ''-'' else '''') @ num_text dec_char 10 (nat \<bar>sint l\<bar>)"
  let ?u = "soc_uart s"
  have "CHR 0x00 \<notin> set ([CHR 0x0A] @ ''[ASSERT] '')" by simp
  then obtain u1 where u1: "bsp_puts st (c_str ([CHR 0x0A] @ ''[ASSERT] '')) ?u = Some u1" "sent ([CHR 0x0A] @ ''[ASSERT] '') ?u u1"
    using bsp_uart.puts_sent[OF assms(1)] unfolding bsp_puts_def by blast
  obtain u2 where u2: "bsp_puts st (c_str file) u1 = Some u2" "sent file u1 u2"
    using bsp_uart.puts_sent[OF assms(1,2)] unfolding bsp_puts_def by blast
  obtain u3 where u3: "bsp_putc st (CHR '':'') u2 = Some u3" "sent '':'' u2 u3" using bsp_uart.putc_sent[OF assms(1)] by blast
  obtain u4 where u4: "bsp_putdec st l u3 = Some u4" "sent ?d u3 u4" using bsp_putdec_sent[OF assms(1,3)] by blast
  obtain u5 where u5: "bsp_putc st (CHR 0x0A) u4 = Some u5" "sent [CHR 0x0A] u4 u5" using bsp_uart.putc_sent[OF assms(1)] by blast
  have "vAssertCalled st (c_str file) l s = Some (s\<lparr>interrupts := False, soc_uart := u5, tohost := 2\<rparr>)"
    using u1(1) u2(1) u3(1) u4(1) u5(1) by (simp add: vAssertCalled_def soc_out_def sim_fail_def)
  moreover have "sent (([CHR 0x0A] @ ''[ASSERT] '') @ file @ '':'' @ ?d @ [CHR 0x0A]) ?u u5"
    by (rule sent_append[OF u1(2) sent_append[OF u2(2) sent_append[OF u3(2) sent_append[OF u4(2) u5(2)]]]])
  ultimately show ?thesis by auto
qed

text \<open>
  A failed assertion of the kernel is reported as \<open>[ASSERT] file:line\<close> with the line as a decimal number, with interrupts
  off, and the simulation is told to fail (2 in \<open>tohost\<close>).
\<close>

theorem assert_reported:
  assumes "ready st" "CHR 0x00 \<notin> set file" "l < 2 ^ 31"
  shows "\<exists>t. vAssertCalled st (c_str file) (of_nat l) s = Some t \<and> tohost t = 2 \<and> \<not> interrupts t \<and>
    usent (soc_uart t) = usent (soc_uart s) @ map of_char ([CHR 0x0A] @ line (''[ASSERT] '' @ file @ '':'' @ num_text dec_char 10 l))"
proof -
  have l: "unat (of_nat l :: ee_u32) = l" using assms(3) by (simp add: unat_of_nat_s32)
  then have "uint (of_nat l :: ee_u32) = int l" by (metis uint_nat)
  then have "sint (of_nat l :: ee_u32) = int l" using sint_uint_s32[of "of_nat l"] assms(3) by simp
  with assert_sends[OF assms(1,2), of "of_nat l" s] show ?thesis by (auto simp: sent_def line_def)
qed

theorem assert_reported_witness:
  "\<exists>t. vAssertCalled (\<lambda>n. 0) (c_str ''tasks.c'') 42 \<lparr>soc_uart = idle_uart, bauddiv = 2, tohost = 0, interrupts = True\<rparr> = Some t \<and> tohost t = 2"
  using assert_reported[OF ready_idle, of "''tasks.c''" 42 "\<lparr>soc_uart = idle_uart, bauddiv = 2, tohost = 0, interrupts = True\<rparr>"] by auto

end
