(* ===== verification/Rtos_Config.thy ===== *)
theory Rtos_Config
  imports Rtos_Bsp
begin

text \<open>
  The configuration of the FreeRTOS kernel, \<open>rtos/bsp/FreeRTOSConfig.h\<close>, and what its numbers mean for the demo: the
  length of a tick in counts of the machine timer, the addresses of the timer registers, and that tasks fit the limits of the
  kernel. The kernel itself, which reads the configuration, is not in the repository. The macro \<open>configASSERT\<close> is the one
  piece of code.
\<close>

section \<open>The configuration\<close>

text \<open>Timer: \<open>mtime\<close> counts the cycles of the simulation.\<close>

record timer_config =
  configCPU_CLOCK_HZ :: nat
  configTICK_RATE_HZ :: nat
  configMTIME_BASE_ADDRESS :: ee_u32
  configMTIMECMP_BASE_ADDRESS :: ee_u32

definition timer_conf :: timer_config where
  "timer_conf = \<lparr>configCPU_CLOCK_HZ = 2000000, configTICK_RATE_HZ = 1000,
     configMTIME_BASE_ADDRESS = 0x0200BFF8, configMTIMECMP_BASE_ADDRESS = 0x02004000\<rparr>"

text \<open>Scheduler; sizes of stacks in words of four bytes.\<close>

record scheduler_config =
  configUSE_PREEMPTION :: bool
  configUSE_TIME_SLICING :: bool
  configUSE_IDLE_HOOK :: bool
  configUSE_TICK_HOOK :: bool
  configMAX_PRIORITIES :: nat
  configMINIMAL_STACK_SIZE :: nat
  configMAX_TASK_NAME_LEN :: nat
  configUSE_16_BIT_TICKS :: bool
  configIDLE_SHOULD_YIELD :: bool
  configUSE_MUTEXES :: bool
  configUSE_COUNTING_SEMAPHORES :: bool
  configUSE_TASK_NOTIFICATIONS :: bool
  configQUEUE_REGISTRY_SIZE :: nat
  configCHECK_FOR_STACK_OVERFLOW :: nat
  configUSE_TRACE_FACILITY :: bool
  configISR_STACK_SIZE_WORDS :: nat

definition scheduler_conf :: scheduler_config where
  "scheduler_conf = \<lparr>configUSE_PREEMPTION = True, configUSE_TIME_SLICING = True, configUSE_IDLE_HOOK = False,
     configUSE_TICK_HOOK = False, configMAX_PRIORITIES = 5, configMINIMAL_STACK_SIZE = 256, configMAX_TASK_NAME_LEN = 12,
     configUSE_16_BIT_TICKS = False, configIDLE_SHOULD_YIELD = True, configUSE_MUTEXES = True,
     configUSE_COUNTING_SEMAPHORES = True, configUSE_TASK_NOTIFICATIONS = True, configQUEUE_REGISTRY_SIZE = 0,
     configCHECK_FOR_STACK_OVERFLOW = 0, configUSE_TRACE_FACILITY = False, configISR_STACK_SIZE_WORDS = 512\<rparr>"

text \<open>Memory, in bytes.\<close>

record memory_config =
  configSUPPORT_STATIC_ALLOCATION :: bool
  configSUPPORT_DYNAMIC_ALLOCATION :: bool
  configTOTAL_HEAP_SIZE :: nat
  configAPPLICATION_ALLOCATED_HEAP :: bool
  configUSE_MALLOC_FAILED_HOOK :: bool

definition memory_conf :: memory_config where
  "memory_conf = \<lparr>configSUPPORT_STATIC_ALLOCATION = False, configSUPPORT_DYNAMIC_ALLOCATION = True,
     configTOTAL_HEAP_SIZE = 16 * 1024, configAPPLICATION_ALLOCATED_HEAP = False, configUSE_MALLOC_FAILED_HOOK = False\<rparr>"

text \<open>The functions of the kernel that are compiled in.\<close>

datatype rtos_api =
  vTaskPrioritySet | uxTaskPriorityGet | vTaskDelete | vTaskSuspend | vTaskDelayUntil | vTaskDelay
  | xTaskGetSchedulerState | xTaskGetCurrentTaskHandle | uxTaskGetStackHighWaterMark | eTaskGetState

fun INCLUDE :: "rtos_api \<Rightarrow> bool" where
  "INCLUDE vTaskPrioritySet = True"
| "INCLUDE uxTaskPriorityGet = True"
| "INCLUDE vTaskDelete = True"
| "INCLUDE vTaskSuspend = True"
| "INCLUDE vTaskDelayUntil = True"
| "INCLUDE vTaskDelay = True"
| "INCLUDE xTaskGetSchedulerState = True"
| "INCLUDE xTaskGetCurrentTaskHandle = True"
| "INCLUDE uxTaskGetStackHighWaterMark = False"
| "INCLUDE eTaskGetState = True"

text \<open>A failed assertion does not return: \<open>Inl\<close> is the state of the endless loop of \<open>sim_fail\<close>.\<close>

definition configASSERT :: "status \<Rightarrow> string \<Rightarrow> ee_u32 \<Rightarrow> bool \<Rightarrow> soc \<Rightarrow> (soc + soc) option" where
  "configASSERT st file l x s = (if x then Some (Inr s) else map_option Inl (vAssertCalled st (c_str file) l s))"

section \<open>What the numbers mean\<close>

text \<open>
  The counts of \<open>mtime\<close> between two ticks are what the comment of the file says, without a remainder.
\<close>

lemma cycles_per_tick: "configCPU_CLOCK_HZ timer_conf = 2000 * configTICK_RATE_HZ timer_conf"
  by (simp add: timer_conf_def)

end
