(* ===== verification/Rtos_App.thy ===== *)
theory Rtos_App
  imports Rtos_Config "HOL-Library.Sublist"
begin

text \<open>
  The RTOS demo, \<open>rtos/app/main.c\<close>: \<open>main\<close> and its three tasks as a state machine. A step is one operation of
  one task (a call of the kernel, one iteration of the worker's busy loop, or one half of \<open>uart_putc\<close>: the poll that sees
  the transmitter free, and the write), a tick of the timer, or the transmitter getting free. The tasks interleave
  arbitrarily: the schedules of the kernel, which respect the priorities, are among those considered.

  The kernel (FreeRTOS, not part of the repository) is a parameter: a queue and a counting semaphore with the
  operations the program calls. \<open>None\<close> as the result of an operation means that the caller blocks, which
  is what \<open>portMAX_DELAY\<close> asks for. What the program relies on is the hypothesis \<open>kernel_laws\<close>. The delay of a task is
  counted in ticks.
\<close>

section \<open>The code\<close>

definition NUM_ITEMS :: nat where "NUM_ITEMS = 8"
definition QUEUE_LEN :: nat where "QUEUE_LEN = 4"

subsection \<open>The kernel\<close>

record ('q, 's) kernel =
  q_create :: "nat \<Rightarrow> nat \<Rightarrow> 'q option"
  s_create :: "nat \<Rightarrow> nat \<Rightarrow> 's option"
  q_send :: "int \<Rightarrow> 'q \<Rightarrow> (bool \<times> 'q) option"
  q_receive :: "'q \<Rightarrow> (int option \<times> 'q) option"
  s_take :: "'s \<Rightarrow> (bool \<times> 's) option"
  s_give :: "'s \<Rightarrow> bool \<times> 's"
  pdMS_TO_TICKS :: "nat \<Rightarrow> nat"

subsection \<open>The state\<close>

datatype task = Boot | Producer | Consumer | Worker

datatype p_point = P_For | P_Send | P_Give | P_Sleep | P_Wake | P_Deleted
datatype c_point = C_Take | C_Receive | C_Test | C_Pass | C_Halt
datatype w_point = W_Start | W_Spin | W_Check

text \<open>
  \<open>out T\<close> is what the prints the task \<open>T\<close> is in have still to send, \<open>free_seen T\<close> whether its \<open>uart_putc\<close> has seen the
  transmitter free. \<open>writes\<close> are the writes to the data register: the task, the character, and whether the transmitter
  was free and took it (\<open>rtl/gandiva_uart.sv\<close> ignores a write while it is busy).
\<close>

record ('q, 's) rtos =
  xQueue :: 'q
  xSem :: 's
  ticks :: ee_u32
  tx_busy :: bool
  writes :: "(task \<times> char \<times> bool) list"
  sim_exit :: ee_u32
  g_worker_ticks_seen :: ee_u32
  g_consumed :: int
  g_sem_taken :: int
  out :: "task \<Rightarrow> string"
  free_seen :: "task \<Rightarrow> bool"
  p_pc :: p_point
  p_i :: int
  p_delay :: nat
  c_pc :: c_point
  c_rx :: int
  w_pc :: w_point
  w_last :: ee_u32
  w_spin :: ee_u32
  w_reports :: int

subsection \<open>Printing\<close>

definition putdec_text :: "ee_s32 \<Rightarrow> string option" where
  "putdec_text v =
     (if sint v = - (2 ^ 31) then None
      else Some ((if sint v < 0 then ''-'' else '''') @ num_text dec_char 10 (nat \<bar>sint v\<bar>)))"

definition print_text :: "task \<Rightarrow> string \<Rightarrow> ('q, 's) rtos \<Rightarrow> ('q, 's) rtos" where
  "print_text T t s = s\<lparr>out := (out s)(T := t)\<rparr>"

definition print_step :: "task \<Rightarrow> ('q, 's) rtos \<Rightarrow> ('q, 's) rtos" where
  "print_step T s =
     (if \<not> free_seen s T then
        (if tx_busy s then s else s\<lparr>free_seen := (free_seen s)(T := True)\<rparr>)
      else s\<lparr>writes := writes s @ [(T, hd (out s T), \<not> tx_busy s)], tx_busy := True,
             out := (out s)(T := tl (out s T)), free_seen := (free_seen s)(T := False)\<rparr>)"

subsection \<open>The tasks\<close>

definition vProducer :: "('q, 's) kernel \<Rightarrow> ('q, 's) rtos \<Rightarrow> ('q, 's) rtos option" where
  "vProducer K s =
     (if out s Producer \<noteq> [] then Some (print_step Producer s)
      else case p_pc s of
        P_For \<Rightarrow> Some (s\<lparr>p_pc := (if p_i s \<le> int NUM_ITEMS then P_Send else P_Deleted)\<rparr>)
      | P_Send \<Rightarrow>
          do { (_, q) \<leftarrow> q_send K (p_i s) (xQueue s);
               t \<leftarrow> putdec_text (word_of_int (p_i s));
               Some (print_text Producer (line (''[P]send:'' @ t)) (s\<lparr>xQueue := q, p_pc := P_Give\<rparr>)) }
      | P_Give \<Rightarrow> Some (s\<lparr>xSem := snd (s_give K (xSem s)), p_pc := P_Sleep\<rparr>)
      | P_Sleep \<Rightarrow> Some (s\<lparr>p_delay := pdMS_TO_TICKS K 5, p_pc := P_Wake\<rparr>)
      | P_Wake \<Rightarrow> (if p_delay s = 0 then Some (s\<lparr>p_i := p_i s + 1, p_pc := P_For\<rparr>) else None)
      | P_Deleted \<Rightarrow> None)"

definition vConsumer :: "('q, 's) kernel \<Rightarrow> ('q, 's) rtos \<Rightarrow> ('q, 's) rtos option" where
  "vConsumer K s =
     (if out s Consumer \<noteq> [] then Some (print_step Consumer s)
      else case c_pc s of
        C_Take \<Rightarrow>
          do { (ok, sem) \<leftarrow> s_take K (xSem s);
               let s = s\<lparr>xSem := sem, c_pc := C_Receive\<rparr>;
               Some (if ok then print_text Consumer (line ''[C]sem'') (s\<lparr>g_sem_taken := g_sem_taken s + 1\<rparr>) else s) }
      | C_Receive \<Rightarrow>
          do { (rx, q) \<leftarrow> q_receive K (xQueue s);
               let s = s\<lparr>xQueue := q\<rparr>;
               case rx of
                 None \<Rightarrow> Some (s\<lparr>c_pc := C_Take\<rparr>)
               | Some v \<Rightarrow>
                   do { t \<leftarrow> putdec_text (word_of_int v);
                        Some (print_text Consumer (line (''[C]got:'' @ t))
                          (s\<lparr>c_rx := v, g_consumed := g_consumed s + 1, c_pc := C_Test\<rparr>)) } }
      | C_Test \<Rightarrow>
          Some (if g_consumed s = int NUM_ITEMS then print_text Consumer (line ''[DONE]ok'') (s\<lparr>c_pc := C_Pass\<rparr>)
                else s\<lparr>c_pc := C_Take\<rparr>)
      | C_Pass \<Rightarrow> Some (s\<lparr>sim_exit := 1, c_pc := C_Halt\<rparr>)
      | C_Halt \<Rightarrow> None)"

definition vWorker :: "('q, 's) rtos \<Rightarrow> ('q, 's) rtos option" where
  "vWorker s =
     (if out s Worker \<noteq> [] then Some (print_step Worker s)
      else case w_pc s of
        W_Start \<Rightarrow> Some (s\<lparr>w_last := ticks s, w_reports := 0, w_spin := 0, w_pc := W_Spin\<rparr>)
      | W_Spin \<Rightarrow> Some (if w_spin s < 4000 then s\<lparr>w_spin := w_spin s + 1\<rparr> else s\<lparr>w_pc := W_Check\<rparr>)
      | W_Check \<Rightarrow>
          (let now = ticks s; r = s\<lparr>w_spin := 0, w_pc := W_Spin\<rparr>
           in if now \<noteq> w_last s then
                let r = r\<lparr>w_last := now, g_worker_ticks_seen := now\<rparr>
                in if w_reports s < 6 then
                     do { t \<leftarrow> putdec_text now;
                          Some (print_text Worker (line (''[W]run@'' @ t)) (r\<lparr>w_reports := w_reports s + 1\<rparr>)) }
                   else Some r
              else Some r))"

subsection \<open>\<open>main\<close>\<close>

text \<open>
  \<open>main\<close> up to the start of the scheduler; \<open>neg\<close> is the build with \<open>NEG_NO_TICK\<close>, whose timer setup prints a line and
  leaves the timer off. A failed \<open>configASSERT\<close> ends the run.
\<close>

datatype failed = No_Queue | No_Semaphore

definition boot_text :: "bool \<Rightarrow> string" where
  "boot_text neg = line ''[BOOT]freertos'' @ (if neg then line ''[NEG]tick-disabled'' else [])"

definition rtos_main :: "('q, 's) kernel \<Rightarrow> bool \<Rightarrow> failed + ('q, 's) rtos" where
  "rtos_main K neg =
     (case q_create K QUEUE_LEN 4 of
        None \<Rightarrow> Inl No_Queue
      | Some q \<Rightarrow>
          (case s_create K NUM_ITEMS 0 of
             None \<Rightarrow> Inl No_Semaphore
           | Some sem \<Rightarrow>
               Inr \<lparr>xQueue = q, xSem = sem, ticks = 0, tx_busy = False,
                    writes = map (\<lambda>c. (Boot, c, True)) (boot_text neg), sim_exit = 0, g_worker_ticks_seen = 0,
                    g_consumed = 0, g_sem_taken = 0, out = \<lambda>T. [], free_seen = \<lambda>T. False,
                    p_pc = P_For, p_i = 1, p_delay = 0, c_pc = C_Take, c_rx = 0,
                    w_pc = W_Start, w_last = 0, w_spin = 0, w_reports = 0\<rparr>))"

subsection \<open>Runs\<close>

inductive rtos_step :: "('q, 's) kernel \<Rightarrow> bool \<Rightarrow> ('q, 's) rtos \<Rightarrow> ('q, 's) rtos \<Rightarrow> bool" for K neg where
  producer: "vProducer K s = Some t \<Longrightarrow> rtos_step K neg s t"
| consumer: "vConsumer K s = Some t \<Longrightarrow> rtos_step K neg s t"
| worker: "vWorker s = Some t \<Longrightarrow> rtos_step K neg s t"
| tick: "\<not> neg \<Longrightarrow> rtos_step K neg s (s\<lparr>ticks := ticks s + 1, p_delay := p_delay s - 1\<rparr>)"
| sent: "tx_busy s \<Longrightarrow> rtos_step K neg s (s\<lparr>tx_busy := False\<rparr>)"

inductive reachable :: "('q, 's) kernel \<Rightarrow> bool \<Rightarrow> ('q, 's) rtos \<Rightarrow> bool" for K neg where
  boot: "rtos_main K neg = Inr s \<Longrightarrow> reachable K neg s"
| step: "reachable K neg s \<Longrightarrow> rtos_step K neg s t \<Longrightarrow> reachable K neg t"

section \<open>What the program relies on\<close>

text \<open>
  A queue holds its items in order and up to its length; sending to a full queue and receiving from an empty one
  block. A counting semaphore counts up to its maximum; taking it at zero blocks, and giving it at the maximum fails.
  Milliseconds become ticks by the rate that the configuration sets.
\<close>

definition queue_laws :: "('q, 's) kernel \<Rightarrow> ('q \<Rightarrow> int list) \<Rightarrow> ('q \<Rightarrow> nat) \<Rightarrow> bool" where
  "queue_laws K items cap \<longleftrightarrow>
     (\<forall>n sz q. q_create K n sz = Some q \<longrightarrow> items q = [] \<and> cap q = n) \<and>
     (\<forall>q x. length (items q) < cap q \<longrightarrow>
        (\<exists>q'. q_send K x q = Some (True, q') \<and> items q' = items q @ [x] \<and> cap q' = cap q)) \<and>
     (\<forall>q x. cap q \<le> length (items q) \<longrightarrow> q_send K x q = None) \<and>
     (\<forall>q x xs. items q = x # xs \<longrightarrow> (\<exists>q'. q_receive K q = Some (Some x, q') \<and> items q' = xs \<and> cap q' = cap q)) \<and>
     (\<forall>q. items q = [] \<longrightarrow> q_receive K q = None)"

definition semaphore_laws :: "('q, 's) kernel \<Rightarrow> ('s \<Rightarrow> nat) \<Rightarrow> ('s \<Rightarrow> nat) \<Rightarrow> bool" where
  "semaphore_laws K val mx \<longleftrightarrow>
     (\<forall>n k s. s_create K n k = Some s \<longrightarrow> val s = k \<and> mx s = n) \<and>
     (\<forall>s. 0 < val s \<longrightarrow> (\<exists>s'. s_take K s = Some (True, s') \<and> val s' = val s - 1 \<and> mx s' = mx s)) \<and>
     (\<forall>s. val s = 0 \<longrightarrow> s_take K s = None) \<and>
     (\<forall>s. val s < mx s \<longrightarrow> (\<exists>s'. s_give K s = (True, s') \<and> val s' = val s + 1 \<and> mx s' = mx s)) \<and>
     (\<forall>s. mx s \<le> val s \<longrightarrow> s_give K s = (False, s))"

definition kernel_laws ::
  "('q, 's) kernel \<Rightarrow> ('q \<Rightarrow> int list) \<Rightarrow> ('q \<Rightarrow> nat) \<Rightarrow> ('s \<Rightarrow> nat) \<Rightarrow> ('s \<Rightarrow> nat) \<Rightarrow> bool" where
  "kernel_laws K items cap val mx \<longleftrightarrow> queue_laws K items cap \<and> semaphore_laws K val mx \<and>
     (\<forall>ms. pdMS_TO_TICKS K ms = ms * configTICK_RATE_HZ timer_conf div 1000)"

text \<open>The pause of the producer is five ticks.\<close>

lemma delay_ticks: "kernel_laws K items cap val mx \<Longrightarrow> pdMS_TO_TICKS K 5 = 5"
  by (simp add: kernel_laws_def timer_conf_def)

section \<open>The invariant\<close>

text \<open>The characters a task has written.\<close>

definition sent_by :: "task \<Rightarrow> ('q, 's) rtos \<Rightarrow> string" where
  "sent_by T s = map (\<lambda>(_, c, _). c) (filter (\<lambda>(U, _). U = T) (writes s))"

text \<open>The lines of the two tasks for the item \<open>k\<close>, and for the first \<open>n\<close> items.\<close>

definition p_line :: "nat \<Rightarrow> string" where
  "p_line k = line (''[P]send:'' @ num_text dec_char 10 k)"

definition c_line :: "nat \<Rightarrow> string" where
  "c_line k = line ''[C]sem'' @ line (''[C]got:'' @ num_text dec_char 10 k)"

definition p_text :: "nat \<Rightarrow> string" where
  "p_text n = concat (map p_line [1..<Suc n])"

definition c_text :: "nat \<Rightarrow> string" where
  "c_text n = concat (map c_line [1..<Suc n])"

lemma text_0 [simp]: "p_text 0 = []" "c_text 0 = []"
  by (simp_all add: p_text_def c_text_def)

lemma text_Suc: "p_text (Suc n) = p_text n @ p_line (Suc n)" "c_text (Suc n) = c_text n @ c_line (Suc n)"
  by (simp_all add: p_text_def c_text_def)

text \<open>Items sent and given, taken and received, as the points of the tasks show them.\<close>

definition n_sent :: "('q, 's) rtos \<Rightarrow> nat" where
  "n_sent s = (if p_pc s \<in> {P_For, P_Send, P_Deleted} then nat (p_i s) - 1 else nat (p_i s))"

definition n_given :: "('q, 's) rtos \<Rightarrow> nat" where
  "n_given s = (if p_pc s \<in> {P_Sleep, P_Wake} then nat (p_i s) else nat (p_i s) - 1)"

definition n_got :: "('q, 's) rtos \<Rightarrow> nat" where
  "n_got s = nat (g_consumed s)"

definition n_taken :: "('q, 's) rtos \<Rightarrow> nat" where
  "n_taken s = (if c_pc s = C_Receive then Suc (n_got s) else n_got s)"

text \<open>The producer: its range, and its output.\<close>

definition producer_ok :: "('q, 's) rtos \<Rightarrow> bool" where
  "producer_ok s \<longleftrightarrow>
     1 \<le> p_i s \<and> p_i s \<le> 9 \<and> (p_pc s = P_Deleted \<longrightarrow> p_i s = 9) \<and> (p_pc s \<notin> {P_For, P_Deleted} \<longrightarrow> p_i s \<le> 8) \<and>
     (out s Producer \<noteq> [] \<longrightarrow> p_pc s = P_Give) \<and> sent_by Producer s @ out s Producer = p_text (n_sent s)"

definition consumer_ok :: "('q, 's) rtos \<Rightarrow> bool" where
  "consumer_ok s \<longleftrightarrow>
     0 \<le> g_consumed s \<and> g_consumed s \<le> 8 \<and> g_sem_taken s = int (n_taken s) \<and>
     (c_pc s \<in> {C_Take, C_Receive} \<longrightarrow> g_consumed s < 8) \<and> (c_pc s \<in> {C_Pass, C_Halt} \<longrightarrow> g_consumed s = 8) \<and>
     (out s Consumer \<noteq> [] \<longrightarrow> c_pc s \<in> {C_Receive, C_Test, C_Pass}) \<and>
     sent_by Consumer s @ out s Consumer =
       c_text (n_got s) @ (if c_pc s = C_Receive then line ''[C]sem'' else []) @
       (if c_pc s \<in> {C_Pass, C_Halt} then line ''[DONE]ok'' else []) \<and>
     sim_exit s = (if c_pc s = C_Halt then 1 else 0)"

text \<open>The queue holds the items that were sent and not received, the semaphore counts those given and not taken.\<close>

definition shared_ok ::
  "('q \<Rightarrow> int list) \<Rightarrow> ('q \<Rightarrow> nat) \<Rightarrow> ('s \<Rightarrow> nat) \<Rightarrow> ('s \<Rightarrow> nat) \<Rightarrow> ('q, 's) rtos \<Rightarrow> bool" where
  "shared_ok items cap val mx s \<longleftrightarrow>
     items (xQueue s) = map int [Suc (n_got s)..<Suc (n_sent s)] \<and> cap (xQueue s) = QUEUE_LEN \<and>
     n_taken s \<le> n_given s \<and> val (xSem s) = n_given s - n_taken s \<and> mx (xSem s) = NUM_ITEMS"

definition rtos_ok ::
  "('q \<Rightarrow> int list) \<Rightarrow> ('q \<Rightarrow> nat) \<Rightarrow> ('s \<Rightarrow> nat) \<Rightarrow> ('s \<Rightarrow> nat) \<Rightarrow> ('q, 's) rtos \<Rightarrow> bool" where
  "rtos_ok items cap val mx s \<longleftrightarrow> producer_ok s \<and> consumer_ok s \<and> shared_ok items cap val mx s"

lemma sent_by_write: "sent_by T (s\<lparr>writes := writes s @ [(U, c, b)]\<rparr>) = sent_by T s @ (if U = T then [c] else [])"
  by (simp add: sent_by_def)

lemmas rtos_defs = producer_ok_def consumer_ok_def shared_ok_def n_sent_def n_given_def n_got_def n_taken_def sent_by_def

text \<open>A print step moves the first character from the task's output to the writes.\<close>

lemma print_step_ok:
  assumes "rtos_ok items cap val mx s" "out s T \<noteq> []"
  shows "rtos_ok items cap val mx (print_step T s)"
proof -
  have o: "hd (out s T) # tl (out s T) = out s T" using assms(2) by simp
  have all: "sent_by U (print_step T s) @ out (print_step T s) U = sent_by U s @ out s U" for U
    using o by (auto simp: print_step_def sent_by_def)
  have some: "out s U \<noteq> []" if "out (print_step T s) U \<noteq> []" for U
    using assms(2) that by (auto simp: print_step_def split: if_splits)
  have same: "n_sent (print_step T s) = n_sent s" "n_given (print_step T s) = n_given s" "n_got (print_step T s) = n_got s"
    "n_taken (print_step T s) = n_taken s" "p_pc (print_step T s) = p_pc s" "p_i (print_step T s) = p_i s" "c_pc (print_step T s) = c_pc s"
    "g_consumed (print_step T s) = g_consumed s" "g_sem_taken (print_step T s) = g_sem_taken s" "sim_exit (print_step T s) = sim_exit s"
    "xQueue (print_step T s) = xQueue s" "xSem (print_step T s) = xSem s"
    by (simp_all add: print_step_def n_sent_def n_given_def n_got_def n_taken_def)
  have "producer_ok (print_step T s)" "consumer_ok (print_step T s)"
    using assms(1) some unfolding rtos_ok_def producer_ok_def consumer_ok_def same all by blast+
  moreover have "shared_ok items cap val mx (print_step T s)" using assms(1) by (simp add: rtos_ok_def shared_ok_def same)
  ultimately show ?thesis by (simp add: rtos_ok_def)
qed

lemma putdec_small: "0 \<le> i \<Longrightarrow> i < 2 ^ 31 \<Longrightarrow> putdec_text (word_of_int i) = Some (num_text dec_char 10 (nat i))"
  using sint_of_int_s32[of i] by (simp add: putdec_text_def in_s32_def)

lemma rtos_main_ok:
  assumes "kernel_laws K items cap val mx" "rtos_main K neg = Inr s"
  shows "rtos_ok items cap val mx s"
proof -
  obtain q sem where q: "q_create K QUEUE_LEN 4 = Some q" "s_create K NUM_ITEMS 0 = Some sem"
    using assms(2) by (auto simp: rtos_main_def split: option.splits)
  have b: "filter (\<lambda>(U, _). U = T) (map (\<lambda>c. (Boot, c, True)) cs) = []" if "T \<noteq> Boot" for T cs
    using that by (induction cs) auto
  have s: "xQueue s = q" "xSem s = sem" "writes s = map (\<lambda>c. (Boot, c, True)) (boot_text neg)" "out s = (\<lambda>T. [])" "p_pc s = P_For"
    "p_i s = 1" "c_pc s = C_Take" "g_consumed s = 0" "g_sem_taken s = 0" "sim_exit s = 0"
    using assms(2) by (auto simp: rtos_main_def q)
  have "items q = []" "cap q = QUEUE_LEN" "val sem = 0" "mx sem = NUM_ITEMS"
    using assms(1) q by (auto simp: kernel_laws_def queue_laws_def semaphore_laws_def)
  then show ?thesis by (simp add: rtos_ok_def rtos_defs s b)
qed

lemma n_order:
  assumes "rtos_ok items cap val mx s"
  shows "n_got s \<le> n_taken s" "n_taken s \<le> n_given s" "n_given s \<le> n_sent s" "n_sent s \<le> 8"
proof -
  have p: "1 \<le> p_i s" "p_i s \<le> 9" "p_pc s \<notin> {P_For, P_Deleted} \<longrightarrow> p_i s \<le> 8"
    using assms by (auto simp: rtos_ok_def producer_ok_def)
  show "n_given s \<le> n_sent s" by (simp add: n_given_def n_sent_def)
  show "n_sent s \<le> 8" using p by (cases "p_pc s") (auto simp: n_sent_def)
  show "n_got s \<le> n_taken s" by (simp add: n_taken_def)
  show "n_taken s \<le> n_given s" using assms by (simp add: rtos_ok_def shared_ok_def)
qed

text \<open>The laws, as they are used.\<close>

lemma q_send_queues:
  assumes "kernel_laws K items cap val mx" "q_send K x q = Some r"
  shows "\<exists>q'. r = (True, q') \<and> items q' = items q @ [x] \<and> cap q' = cap q"
proof (cases "length (items q) < cap q")
  case True
  then obtain q' where "q_send K x q = Some (True, q') \<and> items q' = items q @ [x] \<and> cap q' = cap q"
    using assms(1) unfolding kernel_laws_def queue_laws_def by blast
  with assms(2) show ?thesis by auto
next
  case False
  then have "q_send K x q = None" using assms(1) unfolding kernel_laws_def queue_laws_def by (simp add: not_less)
  with assms(2) show ?thesis by simp
qed

lemma q_send_room:
  "kernel_laws K items cap val mx \<Longrightarrow> length (items q) < cap q \<Longrightarrow> \<exists>q'. q_send K x q = Some (True, q')"
  unfolding kernel_laws_def queue_laws_def by blast

lemma q_receive_first:
  "kernel_laws K items cap val mx \<Longrightarrow> items q = x # xs \<Longrightarrow> \<exists>q'. q_receive K q = Some (Some x, q') \<and> items q' = xs \<and> cap q' = cap q"
  unfolding kernel_laws_def queue_laws_def by blast

lemma s_take_pos:
  "kernel_laws K items cap val mx \<Longrightarrow> 0 < val m \<Longrightarrow> \<exists>m'. s_take K m = Some (True, m') \<and> val m' = val m - 1 \<and> mx m' = mx m"
  unfolding kernel_laws_def semaphore_laws_def by blast

lemma s_take_counts: "kernel_laws K items cap val mx \<Longrightarrow> s_take K m = Some r \<Longrightarrow> 0 < val m"
  unfolding kernel_laws_def semaphore_laws_def by (metis bot_nat_0.not_eq_extremum option.distinct(1))

lemma s_give_counts:
  "kernel_laws K items cap val mx \<Longrightarrow> val m < mx m \<Longrightarrow> \<exists>m'. s_give K m = (True, m') \<and> val m' = val m + 1 \<and> mx m' = mx m"
  unfolding kernel_laws_def semaphore_laws_def by blast

lemma send_ok:
  assumes "kernel_laws K items cap val mx" "rtos_ok items cap val mx s" "out s Producer = []" "p_pc s = P_Send"
    and "vProducer K s = Some t"
  shows "rtos_ok items cap val mx t"
proof -
  have i: "1 \<le> p_i s" "p_i s \<le> 8" "n_sent s = nat (p_i s) - 1" "n_given s = nat (p_i s) - 1"
    using assms(2,4) by (auto simp: rtos_ok_def producer_ok_def n_sent_def n_given_def)
  then have Suc: "Suc (n_sent s) = nat (p_i s)" by simp
  obtain r q where q: "q_send K (p_i s) (xQueue s) = Some (r, q)" using assms(3-5) by (auto simp: vProducer_def opt_simps)
  have "items q = items (xQueue s) @ [p_i s]" "cap q = cap (xQueue s)" using q_send_queues[OF assms(1) q] by auto
  moreover have "n_got s \<le> n_sent s" using n_order[OF assms(2)] by linarith
  ultimately have sh: "items q = map int [Suc (n_got s)..<Suc (nat (p_i s))]" "cap q = QUEUE_LEN"
    using assms(2) i Suc by (auto simp: rtos_ok_def shared_ok_def)
  have t: "t = print_text Producer (p_line (nat (p_i s))) (s\<lparr>xQueue := q, p_pc := P_Give\<rparr>)"
    using assms(3-5) q i putdec_small[of "p_i s"] by (simp add: vProducer_def p_line_def)
  have n: "n_sent t = nat (p_i s)" "n_given t = n_given s" "n_got t = n_got s" "n_taken t = n_taken s"
    using i by (simp_all add: t n_sent_def n_given_def n_got_def n_taken_def print_text_def assms(4))
  have tx: "p_text (nat (p_i s)) = p_text (n_sent s) @ p_line (nat (p_i s))" using text_Suc(1)[of "n_sent s"] by (simp add: Suc)
  have w: "sent_by T t = sent_by T s" for T by (simp add: t sent_by_def print_text_def)
  have "producer_ok t"
    unfolding producer_ok_def n w tx using assms(2-4) i by (simp add: t print_text_def rtos_ok_def producer_ok_def)
  moreover have "consumer_ok t"
    unfolding consumer_ok_def n w using assms(2) by (simp add: t print_text_def rtos_ok_def consumer_ok_def)
  moreover have "shared_ok items cap val mx t"
    unfolding shared_ok_def n using assms(2) sh by (simp add: t print_text_def rtos_ok_def shared_ok_def del: upt_Suc)
  ultimately show ?thesis by (simp add: rtos_ok_def)
qed

lemma give_ok:
  assumes "kernel_laws K items cap val mx" "rtos_ok items cap val mx s" "out s Producer = []" "p_pc s = P_Give"
    and "vProducer K s = Some t"
  shows "rtos_ok items cap val mx t"
proof -
  have i: "1 \<le> p_i s" "p_i s \<le> 8" "n_given s = nat (p_i s) - 1"
    using assms(2,4) by (auto simp: rtos_ok_def producer_ok_def n_given_def)
  then have Suc: "nat (p_i s) = Suc (n_given s)" by simp
  have v: "val (xSem s) = n_given s - n_taken s" "mx (xSem s) = NUM_ITEMS" "n_taken s \<le> n_given s"
    using assms(2) by (auto simp: rtos_ok_def shared_ok_def)
  then have "val (xSem s) < mx (xSem s)" using i by (simp add: NUM_ITEMS_def)
  then obtain sem where sem: "s_give K (xSem s) = (True, sem)" "val sem = val (xSem s) + 1" "mx sem = mx (xSem s)"
    using s_give_counts[OF assms(1)] by blast
  have t: "t = s\<lparr>xSem := sem, p_pc := P_Sleep\<rparr>" using assms(3-5) sem(1) by (simp add: vProducer_def)
  have n: "n_sent t = n_sent s" "n_given t = Suc (n_given s)" "n_got t = n_got s" "n_taken t = n_taken s"
    using Suc by (simp_all add: t n_sent_def n_given_def n_got_def n_taken_def assms(4))
  have w: "sent_by T t = sent_by T s" for T by (simp add: t sent_by_def)
  have "producer_ok t" "consumer_ok t"
    unfolding producer_ok_def consumer_ok_def n w using assms(2-4) i by (simp_all add: t rtos_ok_def producer_ok_def consumer_ok_def)
  moreover have "shared_ok items cap val mx t"
    unfolding shared_ok_def n using assms(2) sem v by (simp add: t rtos_ok_def shared_ok_def del: upt_Suc)
  ultimately show ?thesis by (simp add: rtos_ok_def)
qed

lemma vProducer_ok:
  assumes "kernel_laws K items cap val mx" "rtos_ok items cap val mx s" "vProducer K s = Some t"
  shows "rtos_ok items cap val mx t"
proof (cases "out s Producer = []")
  case False
  with assms(3) have "t = print_step Producer s" by (simp add: vProducer_def)
  with print_step_ok[OF assms(2) False] show ?thesis by simp
next
  case True
  show ?thesis
  proof (cases "p_pc s")
    case P_For
    have t: "t = s\<lparr>p_pc := (if p_i s \<le> 8 then P_Send else P_Deleted)\<rparr>"
      using assms(3) True P_For by (simp add: vProducer_def NUM_ITEMS_def)
    have n: "n_sent t = n_sent s" "n_given t = n_given s" "n_got t = n_got s" "n_taken t = n_taken s"
      by (simp_all add: t n_sent_def n_given_def n_got_def n_taken_def P_For)
    have w: "sent_by T t = sent_by T s" for T by (simp add: t sent_by_def)
    have "producer_ok t" "consumer_ok t" "shared_ok items cap val mx t"
      unfolding producer_ok_def consumer_ok_def shared_ok_def n w using assms(2) True P_For
      by (auto simp: t rtos_ok_def producer_ok_def consumer_ok_def shared_ok_def)
    then show ?thesis by (simp add: rtos_ok_def)
  next
    case P_Send
    with send_ok[OF assms(1,2) True _ assms(3)] show ?thesis by blast
  next
    case P_Give
    with give_ok[OF assms(1,2) True _ assms(3)] show ?thesis by blast
  next
    case P_Sleep
    have t: "t = s\<lparr>p_delay := pdMS_TO_TICKS K 5, p_pc := P_Wake\<rparr>" using assms(3) True P_Sleep by (simp add: vProducer_def)
    have n: "n_sent t = n_sent s" "n_given t = n_given s" "n_got t = n_got s" "n_taken t = n_taken s"
      by (simp_all add: t n_sent_def n_given_def n_got_def n_taken_def P_Sleep)
    have w: "sent_by T t = sent_by T s" for T by (simp add: t sent_by_def)
    have "producer_ok t" "consumer_ok t" "shared_ok items cap val mx t"
      unfolding producer_ok_def consumer_ok_def shared_ok_def n w using assms(2) True P_Sleep
      by (simp_all add: t rtos_ok_def producer_ok_def consumer_ok_def shared_ok_def del: upt_Suc)
    then show ?thesis by (simp add: rtos_ok_def)
  next
    case P_Wake
    have t: "t = s\<lparr>p_i := p_i s + 1, p_pc := P_For\<rparr>" using assms(3) True P_Wake by (simp add: vProducer_def split: if_splits)
    have n: "n_sent t = n_sent s" "n_given t = n_given s" "n_got t = n_got s" "n_taken t = n_taken s"
      using assms(2) by (simp_all add: t n_sent_def n_given_def n_got_def n_taken_def P_Wake rtos_ok_def producer_ok_def nat_add_distrib)
    have w: "sent_by T t = sent_by T s" for T by (simp add: t sent_by_def)
    have "producer_ok t" "consumer_ok t" "shared_ok items cap val mx t"
      unfolding producer_ok_def consumer_ok_def shared_ok_def n w using assms(2) True P_Wake
      by (auto simp: t rtos_ok_def producer_ok_def consumer_ok_def shared_ok_def)
    then show ?thesis by (simp add: rtos_ok_def)
  next
    case P_Deleted
    with assms(3) True show ?thesis by (simp add: vProducer_def)
  qed
qed

lemma take_ok:
  assumes "kernel_laws K items cap val mx" "rtos_ok items cap val mx s" "out s Consumer = []" "c_pc s = C_Take"
    and "vConsumer K s = Some t"
  shows "rtos_ok items cap val mx t"
proof -
  have c: "0 \<le> g_consumed s" "g_consumed s < 8" "g_sem_taken s = int (n_taken s)" "n_taken s = n_got s" "sim_exit s = 0"
    using assms(2,4) by (auto simp: rtos_ok_def consumer_ok_def n_taken_def)
  have v: "val (xSem s) = n_given s - n_taken s" "mx (xSem s) = NUM_ITEMS" "n_taken s \<le> n_given s"
    using assms(2) by (auto simp: rtos_ok_def shared_ok_def)
  obtain r where r: "s_take K (xSem s) = Some r" using assms(3-5) by (auto simp: vConsumer_def opt_simps)
  have pos: "0 < val (xSem s)" by (rule s_take_counts[OF assms(1) r])
  then obtain sem where sem: "s_take K (xSem s) = Some (True, sem)" "val sem = val (xSem s) - 1" "mx sem = mx (xSem s)"
    using s_take_pos[OF assms(1)] by blast
  have t: "t = print_text Consumer (line ''[C]sem'') (s\<lparr>xSem := sem, c_pc := C_Receive, g_sem_taken := g_sem_taken s + 1\<rparr>)"
    using assms(3-5) sem(1) by (simp add: vConsumer_def)
  have n: "n_sent t = n_sent s" "n_given t = n_given s" "n_got t = n_got s" "n_taken t = Suc (n_taken s)"
    using c by (simp_all add: t n_sent_def n_given_def n_got_def n_taken_def assms(4) print_text_def)
  have w: "sent_by T t = sent_by T s" for T by (simp add: t sent_by_def print_text_def)
  have "producer_ok t" "consumer_ok t"
    unfolding producer_ok_def consumer_ok_def n w using assms(2-4) c by (simp_all add: t print_text_def rtos_ok_def producer_ok_def consumer_ok_def)
  moreover have "shared_ok items cap val mx t"
    unfolding shared_ok_def n using assms(2) sem v pos by (simp add: t print_text_def rtos_ok_def shared_ok_def del: upt_Suc)
  ultimately show ?thesis by (simp add: rtos_ok_def)
qed

lemma receive_ok:
  assumes "kernel_laws K items cap val mx" "rtos_ok items cap val mx s" "out s Consumer = []" "c_pc s = C_Receive"
    and "vConsumer K s = Some t"
  shows "rtos_ok items cap val mx t"
proof -
  have c: "0 \<le> g_consumed s" "g_consumed s < 8" "g_sem_taken s = int (n_taken s)" "n_taken s = Suc (n_got s)" "sim_exit s = 0"
    using assms(2,4) by (auto simp: rtos_ok_def consumer_ok_def n_taken_def)
  have "n_got s < n_sent s" using n_order[OF assms(2)] c(4) by linarith
  then have "items (xQueue s) = (g_consumed s + 1) # map int [Suc (Suc (n_got s))..<Suc (n_sent s)]"
    using assms(2) c(1) by (simp add: rtos_ok_def shared_ok_def upt_conv_Cons n_got_def del: upt_Suc)
  then obtain q where q: "q_receive K (xQueue s) = Some (Some (g_consumed s + 1), q)"
    "items q = map int [Suc (Suc (n_got s))..<Suc (n_sent s)]" "cap q = cap (xQueue s)"
    using q_receive_first[OF assms(1)] by blast
  have Suc: "nat (g_consumed s + 1) = Suc (n_got s)" using c(1) by (simp add: n_got_def)
  have t: "t = print_text Consumer (line (''[C]got:'' @ num_text dec_char 10 (Suc (n_got s))))
      (s\<lparr>xQueue := q, c_rx := g_consumed s + 1, g_consumed := g_consumed s + 1, c_pc := C_Test\<rparr>)"
    using assms(3-5) q(1) c putdec_small[of "g_consumed s + 1"] by (simp add: vConsumer_def Suc)
  have n: "n_sent t = n_sent s" "n_given t = n_given s" "n_got t = Suc (n_got s)" "n_taken t = n_taken s"
    using c Suc by (simp_all add: t n_sent_def n_given_def n_got_def n_taken_def assms(4) print_text_def)
  have w: "sent_by T t = sent_by T s" for T by (simp add: t sent_by_def print_text_def)
  have "producer_ok t"
    unfolding producer_ok_def n w using assms(2) by (simp add: t print_text_def rtos_ok_def producer_ok_def)
  moreover have "consumer_ok t"
    unfolding consumer_ok_def n w text_Suc using assms(2-4) c
    by (simp add: t print_text_def rtos_ok_def consumer_ok_def c_line_def)
  moreover have "shared_ok items cap val mx t"
    unfolding shared_ok_def n using assms(2) q by (simp add: t print_text_def rtos_ok_def shared_ok_def del: upt_Suc)
  ultimately show ?thesis by (simp add: rtos_ok_def)
qed

lemma vConsumer_ok:
  assumes "kernel_laws K items cap val mx" "rtos_ok items cap val mx s" "vConsumer K s = Some t"
  shows "rtos_ok items cap val mx t"
proof (cases "out s Consumer = []")
  case False
  with assms(3) have "t = print_step Consumer s" by (simp add: vConsumer_def)
  with print_step_ok[OF assms(2) False] show ?thesis by simp
next
  case True
  show ?thesis
  proof (cases "c_pc s")
    case C_Take
    with take_ok[OF assms(1,2) True _ assms(3)] show ?thesis by blast
  next
    case C_Receive
    with receive_ok[OF assms(1,2) True _ assms(3)] show ?thesis by blast
  next
    case C_Test
    have t: "t = (if g_consumed s = 8 then print_text Consumer (line ''[DONE]ok'') (s\<lparr>c_pc := C_Pass\<rparr>) else s\<lparr>c_pc := C_Take\<rparr>)"
      using assms(3) True C_Test by (simp add: vConsumer_def NUM_ITEMS_def)
    have n: "n_sent t = n_sent s" "n_given t = n_given s" "n_got t = n_got s" "n_taken t = n_taken s"
      by (simp_all add: t n_sent_def n_given_def n_got_def n_taken_def C_Test print_text_def)
    have w: "sent_by T t = sent_by T s" for T by (simp add: t sent_by_def print_text_def)
    have "producer_ok t" "shared_ok items cap val mx t"
      unfolding producer_ok_def shared_ok_def n w using assms(2)
      by (simp_all add: t rtos_ok_def producer_ok_def shared_ok_def print_text_def)
    moreover have "consumer_ok t"
      unfolding consumer_ok_def n w using assms(2) True C_Test
      by (cases "g_consumed s = 8") (auto simp: t rtos_ok_def consumer_ok_def print_text_def)
    ultimately show ?thesis by (simp add: rtos_ok_def)
  next
    case C_Pass
    have t: "t = s\<lparr>sim_exit := 1, c_pc := C_Halt\<rparr>" using assms(3) True C_Pass by (simp add: vConsumer_def)
    have n: "n_sent t = n_sent s" "n_given t = n_given s" "n_got t = n_got s" "n_taken t = n_taken s"
      by (simp_all add: t n_sent_def n_given_def n_got_def n_taken_def C_Pass)
    have w: "sent_by T t = sent_by T s" for T by (simp add: t sent_by_def)
    have "producer_ok t" "consumer_ok t" "shared_ok items cap val mx t"
      unfolding producer_ok_def consumer_ok_def shared_ok_def n w using assms(2) True C_Pass
      by (simp_all add: t rtos_ok_def producer_ok_def consumer_ok_def shared_ok_def del: upt_Suc)
    then show ?thesis by (simp add: rtos_ok_def)
  next
    case C_Halt
    with assms(3) True show ?thesis by (simp add: vConsumer_def)
  qed
qed

text \<open>The other steps do not touch what the invariant speaks of.\<close>

lemma rtos_ok_same:
  assumes "rtos_ok items cap val mx s" "sent_by Producer t = sent_by Producer s" "sent_by Consumer t = sent_by Consumer s"
    and "out t Producer = out s Producer" "out t Consumer = out s Consumer"
    and "xQueue t = xQueue s" "xSem t = xSem s" "p_pc t = p_pc s" "p_i t = p_i s" "c_pc t = c_pc s"
    and "g_consumed t = g_consumed s" "g_sem_taken t = g_sem_taken s" "sim_exit t = sim_exit s"
  shows "rtos_ok items cap val mx t"
proof -
  have n: "n_sent t = n_sent s" "n_given t = n_given s" "n_got t = n_got s" "n_taken t = n_taken s"
    using assms(6-) by (simp_all add: n_sent_def n_given_def n_got_def n_taken_def)
  show ?thesis
    using assms(1) unfolding rtos_ok_def producer_ok_def consumer_ok_def shared_ok_def n assms(2-) by blast
qed

lemma vWorker_ok:
  assumes "rtos_ok items cap val mx s" "vWorker s = Some t"
  shows "rtos_ok items cap val mx t"
proof (cases "out s Worker = []")
  case False
  with assms(2) have "t = print_step Worker s" by (simp add: vWorker_def)
  with print_step_ok[OF assms(1) False] show ?thesis by simp
next
  case True
  show ?thesis
    by (rule rtos_ok_same[OF assms(1)])
      (use assms(2) True in \<open>auto simp: vWorker_def sent_by_def print_text_def Let_def opt_simps split: w_point.splits if_splits\<close>)
qed

lemma rtos_step_ok:
  assumes "kernel_laws K items cap val mx" "rtos_ok items cap val mx s" "rtos_step K neg s t"
  shows "rtos_ok items cap val mx t"
  using assms(3)
proof cases
  case producer
  then show ?thesis by (rule vProducer_ok[OF assms(1,2)])
next
  case consumer
  then show ?thesis by (rule vConsumer_ok[OF assms(1,2)])
next
  case worker
  then show ?thesis by (rule vWorker_ok[OF assms(2)])
next
  case tick
  then show ?thesis by (intro rtos_ok_same[OF assms(2)]) (simp_all add: sent_by_def)
next
  case sent
  then show ?thesis by (intro rtos_ok_same[OF assms(2)]) (simp_all add: sent_by_def)
qed

lemma reachable_ok:
  assumes "kernel_laws K items cap val mx" "reachable K neg s"
  shows "rtos_ok items cap val mx s"
  using assms(2)
proof induction
  case (boot s)
  then show ?case by (rule rtos_main_ok[OF assms(1)])
next
  case (step s t)
  then show ?case using rtos_step_ok[OF assms(1)] by blast
qed

section \<open>Without the timer\<close>

text \<open>The producer sleeps after the first item and never wakes.\<close>

definition asleep :: "('q, 's) rtos \<Rightarrow> bool" where
  "asleep s \<longleftrightarrow> p_i s = 1 \<and> p_pc s \<noteq> P_Deleted \<and> (p_pc s = P_Wake \<longrightarrow> p_delay s = 5)"

lemma asleep_same: "asleep s \<Longrightarrow> p_i t = p_i s \<Longrightarrow> p_pc t = p_pc s \<Longrightarrow> p_delay t = p_delay s \<Longrightarrow> asleep t"
  by (simp add: asleep_def)

lemma asleep_step:
  assumes "asleep s" "rtos_step K True s t" "pdMS_TO_TICKS K 5 = 5"
  shows "asleep t"
  using assms(2)
proof cases
  case producer
  with assms(1,3) show ?thesis
    by (auto simp: vProducer_def asleep_def print_step_def print_text_def opt_simps NUM_ITEMS_def split: p_point.splits if_splits)
next
  case consumer
  then show ?thesis
    by (intro asleep_same[OF assms(1)])
      (auto simp: vConsumer_def print_step_def print_text_def opt_simps Let_def split: c_point.splits if_splits option.splits)
next
  case worker
  then show ?thesis
    by (intro asleep_same[OF assms(1)])
      (auto simp: vWorker_def print_step_def print_text_def opt_simps Let_def split: w_point.splits if_splits)
next
  case tick
  then show ?thesis by simp
next
  case sent
  with assms(1) show ?thesis by (simp add: asleep_def)
qed

lemma reachable_asleep: "reachable K True s \<Longrightarrow> pdMS_TO_TICKS K 5 = 5 \<Longrightarrow> asleep s"
proof (induction rule: reachable.induct)
  case (boot s)
  then show ?case by (auto simp: rtos_main_def asleep_def split: option.splits)
qed (simp add: asleep_step)

section \<open>Progress\<close>

text \<open>What is left to do for producer, consumer and transmitter, as a number.\<close>

definition print_work :: "task \<Rightarrow> ('q, 's) rtos \<Rightarrow> nat" where
  "print_work T s = 3 * length (out s T) - (if free_seen s T \<and> out s T \<noteq> [] then 1 else 0)"

fun p_rank :: "p_point \<Rightarrow> nat \<Rightarrow> nat" where
  "p_rank P_For d = 90" | "p_rank P_Send d = 80" | "p_rank P_Give d = 20" | "p_rank P_Sleep d = 19"
| "p_rank P_Wake d = 10 + d" | "p_rank P_Deleted d = 0"

fun c_rank :: "c_point \<Rightarrow> nat" where
  "c_rank C_Take = 150" | "c_rank C_Receive = 100" | "c_rank C_Test = 160" | "c_rank C_Pass = 20" | "c_rank C_Halt = 0"

definition p_work :: "('q, 's) rtos \<Rightarrow> nat" where
  "p_work s = nat (9 - p_i s) * 100 + print_work Producer s + p_rank (p_pc s) (p_delay s)"

definition c_work :: "('q, 's) rtos \<Rightarrow> nat" where
  "c_work s = nat (8 - g_consumed s) * 200 + print_work Consumer s + c_rank (c_pc s)"

definition work :: "('q, 's) rtos \<Rightarrow> nat" where
  "work s = p_work s + c_work s + (if tx_busy s then 1 else 0)"

lemma print_text_work: "print_work T (print_text T t s) \<le> 3 * length t"
  by (simp add: print_work_def print_text_def)

text \<open>A task that prints gets on, or waits for a transmitter that will be free.\<close>

lemma print_progress:
  assumes "out s T \<noteq> []" "T = Producer \<or> T = Consumer" "\<not> tx_busy s \<or> free_seen s T"
  shows "work (print_step T s) < work s"
proof -
  obtain c cs where o: "out s T = c # cs" using assms(1) by (cases "out s T") auto
  have p: "p_work (print_step T s) = p_work s" if "T = Consumer"
    using that by (simp add: p_work_def print_work_def print_step_def)
  have c: "c_work (print_step T s) = c_work s" if "T = Producer"
    using that by (simp add: c_work_def print_work_def print_step_def)
  have w: "print_work T (print_step T s) + (if free_seen s T then 2 else 1) = print_work T s"
    using o assms(3) by (cases cs) (auto simp: print_work_def print_step_def)
  have b: "(if tx_busy (print_step T s) then 1 else 0) \<le> (if tx_busy s then 1 else 0) + (if free_seen s T then 1 else 0 :: nat)"
    by (simp add: print_step_def)
  have "p_work (print_step Producer s) + print_work Producer s = p_work s + print_work Producer (print_step Producer s)"
    "c_work (print_step Consumer s) + print_work Consumer s = c_work s + print_work Consumer (print_step Consumer s)"
    by (simp_all add: p_work_def c_work_def print_step_def)
  with p c w b assms(2) show ?thesis by (auto simp: work_def split: if_splits)
qed

lemma length_item [simp]: "k < 10 \<Longrightarrow> length (num_text dec_char 10 k) = 1"
  using digs_length[of 10 k 1] by (cases "k = 0") (auto simp: num_text_def le_Suc_eq)

lemma consumer_progress:
  assumes "kernel_laws K items cap val mx" "rtos_ok items cap val mx s" "out s Consumer = []" "c_pc s \<noteq> C_Halt"
    and "c_pc s = C_Take \<Longrightarrow> 0 < val (xSem s)"
  shows "\<exists>t. vConsumer K s = Some t \<and> work t < work s"
proof (cases "c_pc s")
  case C_Take
  then obtain m where "s_take K (xSem s) = Some (True, m)" using s_take_pos[OF assms(1)] assms(5) by blast
  with assms(3) C_Take show ?thesis
    by (simp add: vConsumer_def work_def p_work_def c_work_def print_work_def print_text_def line_def)
next
  case C_Receive
  have g: "0 \<le> g_consumed s" "g_consumed s < 8" "n_taken s = Suc (n_got s)"
    using assms(2) C_Receive by (auto simp: rtos_ok_def consumer_ok_def n_taken_def)
  have "n_got s < n_sent s" using n_order[OF assms(2)] g(3) by linarith
  then have "items (xQueue s) = (g_consumed s + 1) # map int [Suc (Suc (n_got s))..<Suc (n_sent s)]"
    using assms(2) g(1) by (simp add: rtos_ok_def shared_ok_def upt_conv_Cons n_got_def del: upt_Suc)
  then obtain q where "q_receive K (xQueue s) = Some (Some (g_consumed s + 1), q)" using q_receive_first[OF assms(1)] by blast
  moreover have "nat (8 - g_consumed s) = Suc (nat (8 - (g_consumed s + 1)))" using g(2) by simp
  ultimately show ?thesis using assms(3) C_Receive g putdec_small[of "g_consumed s + 1"]
    by (simp add: vConsumer_def work_def p_work_def c_work_def print_work_def print_text_def line_def)
next
  case C_Test
  with assms(3) show ?thesis
    by (simp add: vConsumer_def work_def p_work_def c_work_def print_work_def print_text_def line_def)
next
  case C_Pass
  with assms(3) show ?thesis by (simp add: vConsumer_def work_def p_work_def c_work_def print_work_def)
qed (use assms(4) in simp)

lemma producer_progress:
  assumes "kernel_laws K items cap val mx" "rtos_ok items cap val mx s" "out s Producer = []" "c_pc s = C_Take" "val (xSem s) = 0"
    and "p_pc s \<noteq> P_Wake \<or> p_delay s = 0"
  shows "\<exists>t. vProducer K s = Some t \<and> work t < work s"
proof -
  have p: "1 \<le> p_i s" "p_i s \<le> 9" "p_pc s \<notin> {P_For, P_Deleted} \<longrightarrow> p_i s \<le> 8" "p_pc s = P_Deleted \<longrightarrow> p_i s = 9"
    using assms(2) by (auto simp: rtos_ok_def producer_ok_def)
  have v: "n_given s = n_got s" using assms(2,4,5) n_order(2)[OF assms(2)] by (simp add: rtos_ok_def shared_ok_def n_taken_def)
  have got: "n_got s < 8" using assms(2,4) by (auto simp: rtos_ok_def consumer_ok_def n_got_def)
  show ?thesis
  proof (cases "p_pc s")
    case P_Send
    then have "n_sent s = n_got s" using v by (simp add: n_sent_def n_given_def)
    then have "length (items (xQueue s)) < cap (xQueue s)"
      using assms(2) by (simp add: rtos_ok_def shared_ok_def QUEUE_LEN_def del: upt_Suc)
    then obtain q where "q_send K (p_i s) (xQueue s) = Some (True, q)" using q_send_room[OF assms(1)] by blast
    then show ?thesis using assms(3) P_Send p putdec_small[of "p_i s"]
      by (simp add: vProducer_def work_def p_work_def c_work_def print_work_def print_text_def line_def)
  next
    case P_Wake
    have "nat (9 - p_i s) = Suc (nat (9 - (p_i s + 1)))" using P_Wake p(3) by simp
    then show ?thesis using assms(3,6) P_Wake
      by (simp add: vProducer_def work_def p_work_def c_work_def print_work_def)
  next
    case P_Deleted
    then show ?thesis using p(4) v got by (simp add: n_given_def)
  qed (use assms(3) delay_ticks[OF assms(1)] in \<open>simp_all add: vProducer_def work_def p_work_def c_work_def print_work_def\<close>)
qed

lemma printing_progress:
  assumes "out s T \<noteq> []" "T = Producer \<and> F = vProducer K \<or> T = Consumer \<and> F = vConsumer K"
  shows "\<exists>t. rtos_step K neg s t \<and> work t < work s"
proof (cases "tx_busy s \<and> \<not> free_seen s T")
  case True
  then have "work (s\<lparr>tx_busy := False\<rparr>) < work s" by (simp add: work_def p_work_def c_work_def print_work_def)
  with True show ?thesis using rtos_step.sent by blast
next
  case False
  moreover have "F s = Some (print_step T s)" using assms by (auto simp: vProducer_def vConsumer_def)
  ultimately show ?thesis
    using print_progress[OF assms(1)] assms(2) rtos_step.producer rtos_step.consumer by metis
qed

lemma rtos_progress:
  assumes "kernel_laws K items cap val mx" "rtos_ok items cap val mx s" "sim_exit s \<noteq> 1"
  shows "\<exists>t. rtos_step K False s t \<and> work t < work s"
proof -
  have h: "c_pc s \<noteq> C_Halt" using assms(2,3) by (auto simp: rtos_ok_def consumer_ok_def)
  consider "out s Consumer \<noteq> []" | "out s Producer \<noteq> []"
    | "out s Consumer = []" "c_pc s = C_Take \<Longrightarrow> 0 < val (xSem s)"
    | "out s Producer = []" "c_pc s = C_Take" "val (xSem s) = 0" "p_pc s \<noteq> P_Wake \<or> p_delay s = 0"
    | "p_pc s = P_Wake" "0 < p_delay s"
    by blast
  then show ?thesis
  proof cases
    case 1
    then show ?thesis using printing_progress by blast
  next
    case 2
    then show ?thesis using printing_progress by blast
  next
    case 3
    from consumer_progress[OF assms(1,2) 3(1) h 3(2)] show ?thesis using rtos_step.consumer by blast
  next
    case 4
    from producer_progress[OF assms(1,2) 4] show ?thesis using rtos_step.producer by blast
  next
    case 5
    then have "work (s\<lparr>ticks := ticks s + 1, p_delay := p_delay s - 1\<rparr>) < work s"
      by (simp add: work_def p_work_def c_work_def print_work_def)
    then show ?thesis using rtos_step.tick[of False K s] by blast
  qed
qed

lemma rtos_completes:
  assumes "kernel_laws K items cap val mx" "rtos_ok items cap val mx s"
  shows "\<exists>t. (rtos_step K False)\<^sup>*\<^sup>* s t \<and> sim_exit t = 1 \<and> rtos_ok items cap val mx t"
  using assms(2)
proof (induction "work s" arbitrary: s rule: less_induct)
  case less
  show ?case
  proof (cases "sim_exit s = 1")
    case True
    with less.prems show ?thesis by blast
  next
    case False
    obtain t where t: "rtos_step K False s t" "work t < work s" using rtos_progress[OF assms(1) less.prems False] by blast
    then obtain t' where "(rtos_step K False)\<^sup>*\<^sup>* t t'" "sim_exit t' = 1" "rtos_ok items cap val mx t'"
      using less.hyps rtos_step_ok[OF assms(1) less.prems t(1)] by blast
    with t(1) show ?thesis using converse_rtranclp_into_rtranclp[of "rtos_step K False" s t t'] by blast
  qed
qed

section \<open>What was written\<close>

lemma p_text_mono: "m \<le> n \<Longrightarrow> prefix (p_text m) (p_text n)"
proof (induction n)
  case (Suc n)
  then show ?case by (cases "m = Suc n") (auto simp: text_Suc(1) intro: prefix_order.trans[of _ "p_text n"])
qed simp

lemma c_text_mono: "m \<le> n \<Longrightarrow> prefix (c_text m) (c_text n)"
proof (induction n)
  case (Suc n)
  then show ?case by (cases "m = Suc n") (auto simp: text_Suc(2) intro: prefix_order.trans[of _ "c_text n"])
qed simp

text \<open>What a task wrote stays, and the line of an item is written completely before the semaphore is given for it.\<close>

lemma step_writes:
  assumes "rtos_step K neg s t"
  shows "prefix (sent_by Producer s) (sent_by Producer t) \<and> (out t Producer = [] \<or> n_given t = n_given s)"
proof -
  have pr: "prefix (sent_by Producer s) (sent_by Producer (print_step T s)) \<and> n_given (print_step T s) = n_given s" for T
    by (simp add: print_step_def sent_by_def n_given_def)
  show ?thesis
    using assms
  proof cases
    case producer
    show ?thesis
    proof (cases "out s Producer = []")
      case True
      with producer show ?thesis
        by (cases "p_pc s") (auto simp: vProducer_def sent_by_def n_given_def print_text_def opt_simps split: if_splits)
    qed (use producer pr in \<open>auto simp: vProducer_def\<close>)
  next
    case consumer
    show ?thesis
    proof (cases "out s Consumer = []")
      case True
      with consumer have "writes t = writes s" "p_pc t = p_pc s" "p_i t = p_i s"
        by (auto simp: vConsumer_def print_text_def opt_simps Let_def split: c_point.splits if_splits option.splits)
      then show ?thesis by (simp add: sent_by_def n_given_def)
    qed (use consumer pr in \<open>auto simp: vConsumer_def\<close>)
  next
    case worker
    show ?thesis
    proof (cases "out s Worker = []")
      case True
      with worker have "writes t = writes s" "p_pc t = p_pc s" "p_i t = p_i s"
        by (auto simp: vWorker_def print_text_def opt_simps Let_def split: w_point.splits if_splits)
      then show ?thesis by (simp add: sent_by_def n_given_def)
    qed (use worker pr in \<open>auto simp: vWorker_def\<close>)
  qed (simp_all add: sent_by_def n_given_def)
qed

lemma written_when_given:
  assumes "kernel_laws K items cap val mx" "reachable K neg s"
  shows "prefix (p_text (n_given s)) (sent_by Producer s)"
  using assms(2)
proof induction
  case (boot s)
  then have "n_given s = 0" by (auto simp: rtos_main_def n_given_def split: option.splits)
  then show ?case by simp
next
  case (step s t)
  have t: "rtos_ok items cap val mx t" using reachable_ok[OF assms(1) reachable.step[OF step.hyps]] .
  show ?case
  proof (cases "out t Producer = []")
    case True
    then have "sent_by Producer t = p_text (n_sent t)" using t by (simp add: rtos_ok_def producer_ok_def)
    with n_order(3)[OF t] show ?thesis by (simp add: p_text_mono)
  next
    case False
    with step_writes[OF step.hyps(2)] step.IH show ?thesis by (auto intro: prefix_order.trans)
  qed
qed

lemma consumer_wrote:
  assumes "rtos_ok items cap val mx s"
  shows "prefix (sent_by Consumer s) (c_text (n_taken s) @ (if n_got s = 8 then line ''[DONE]ok'' else []))"
proof -
  have "sent_by Consumer s @ out s Consumer = c_text (n_got s) @ (if c_pc s = C_Receive then line ''[C]sem'' else []) @
       (if c_pc s \<in> {C_Pass, C_Halt} then line ''[DONE]ok'' else [])"
    and got: "c_pc s \<in> {C_Pass, C_Halt} \<Longrightarrow> n_got s = 8" "c_pc s = C_Receive \<Longrightarrow> n_got s \<noteq> 8"
    using assms by (auto simp: rtos_ok_def consumer_ok_def n_got_def)
  then have "prefix (sent_by Consumer s) (c_text (n_got s) @ (if c_pc s = C_Receive then line ''[C]sem'' else []) @
       (if c_pc s \<in> {C_Pass, C_Halt} then line ''[DONE]ok'' else []))" by (metis prefixI)
  moreover have "prefix (c_text (n_got s) @ (if c_pc s = C_Receive then line ''[C]sem'' else []) @
       (if c_pc s \<in> {C_Pass, C_Halt} then line ''[DONE]ok'' else []))
       (c_text (n_taken s) @ (if n_got s = 8 then line ''[DONE]ok'' else []))"
    using got by (auto simp: n_taken_def text_Suc(2) c_line_def)
  ultimately show ?thesis by (rule prefix_order.trans)
qed

lemma passed:
  assumes "rtos_ok items cap val mx s" "sim_exit s = 1"
  shows "n_got s = 8" "sent_by Consumer s = c_text 8 @ line ''[DONE]ok''" "sent_by Producer s = p_text 8"
proof -
  have h: "c_pc s = C_Halt" using assms by (auto simp: rtos_ok_def consumer_ok_def split: if_splits)
  then show g: "n_got s = 8" using assms(1) by (simp add: rtos_ok_def consumer_ok_def n_got_def)
  then show "sent_by Consumer s = c_text 8 @ line ''[DONE]ok''" using assms(1) h by (auto simp: rtos_ok_def consumer_ok_def n_got_def)
  have n: "n_given s = 8" "n_sent s = 8" using n_order[OF assms(1)] g by linarith+
  have "out s Producer = []"
  proof (rule ccontr)
    assume "out s Producer \<noteq> []"
    then have "p_pc s = P_Give" "p_i s \<le> 8" using assms(1) by (auto simp: rtos_ok_def producer_ok_def)
    with n(1) show False by (simp add: n_given_def)
  qed
  with assms(1) n(2) show "sent_by Producer s = p_text 8" by (simp add: rtos_ok_def producer_ok_def)
qed

section \<open>Properties\<close>

text \<open>A kernel that satisfies the laws: the queue is the list of its items with its length, the semaphore a number with its maximum.\<close>

definition list_kernel :: "(int list \<times> nat, nat \<times> nat) kernel" where
  "list_kernel = \<lparr>q_create = \<lambda>n sz. Some ([], n), s_create = \<lambda>n k. Some (k, n),
     q_send = \<lambda>x (xs, n). if length xs < n then Some (True, (xs @ [x], n)) else None,
     q_receive = \<lambda>(xs, n). case xs of [] \<Rightarrow> None | x # xs \<Rightarrow> Some (Some x, (xs, n)),
     s_take = \<lambda>(k, n). if 0 < k then Some (True, (k - 1, n)) else None,
     s_give = \<lambda>(k, n). if k < n then (True, (k + 1, n)) else (False, (k, n)),
     pdMS_TO_TICKS = \<lambda>ms. ms\<rparr>"

lemma list_kernel_laws: "kernel_laws list_kernel fst snd fst snd"
  by (auto simp: kernel_laws_def queue_laws_def semaphore_laws_def list_kernel_def timer_conf_def)

lemma list_kernel_boots: "\<exists>s. rtos_main list_kernel neg = Inr s \<and> reachable list_kernel neg s"
  using reachable.boot[of list_kernel neg] by (simp add: rtos_main_def list_kernel_def)

text \<open>
  C4. What the tasks write, under every schedule: the producer's output is an initial part of the lines for the items 1 to
  8, the consumer's an initial part of \<open>[C]sem\<close>, \<open>[C]got:k\<close> for k from 1 to 8 in this order followed by \<open>[DONE]ok\<close>, and
  when the simulation is told to pass both are complete.
\<close>

theorem rtos_transcript:
  assumes "kernel_laws K items cap val mx" "reachable K neg s"
  shows "prefix (sent_by Producer s) (p_text 8) \<and> prefix (sent_by Consumer s) (c_text 8 @ line ''[DONE]ok'') \<and>
    (sim_exit s = 1 \<longrightarrow> sent_by Producer s = p_text 8 \<and> sent_by Consumer s = c_text 8 @ line ''[DONE]ok'')"
proof -
  have s: "rtos_ok items cap val mx s" by (rule reachable_ok[OF assms])
  note n = n_order[OF s]
  have "prefix (sent_by Producer s) (p_text (n_sent s))"
    using s by (metis prefixI rtos_ok_def producer_ok_def)
  then have "prefix (sent_by Producer s) (p_text 8)" using p_text_mono[OF n(4)] by (rule prefix_order.trans)
  moreover have "prefix (c_text (n_taken s) @ (if n_got s = 8 then line ''[DONE]ok'' else [])) (c_text 8 @ line ''[DONE]ok'')"
  proof (cases "n_got s = 8")
    case True
    then have "n_taken s = 8" using n by linarith
    with True show ?thesis by simp
  next
    case False
    have "prefix (c_text (n_taken s)) (c_text 8)" by (rule c_text_mono) (use n in linarith)
    with False show ?thesis by (simp add: prefix_prefix)
  qed
  then have "prefix (sent_by Consumer s) (c_text 8 @ line ''[DONE]ok'')" by (rule prefix_order.trans[OF consumer_wrote[OF s]])
  ultimately show ?thesis using passed(2,3)[OF s] by blast
qed

theorem rtos_transcript_witness:
  "\<exists>s. rtos_main list_kernel False = Inr s \<and> prefix (sent_by Producer s) (p_text 8)"
  using list_kernel_boots[of False] rtos_transcript[OF list_kernel_laws] by blast

text \<open>
  C19. Every item is announced before it is consumed: when the consumer has written more than the lines of the first k
  items, the producer has completely written its line for item k + 1.
\<close>

theorem rtos_send_before_got:
  assumes "kernel_laws K items cap val mx" "reachable K neg s" "k < 8" "length (c_text k) < length (sent_by Consumer s)"
  shows "prefix (p_text (Suc k)) (sent_by Producer s)"
proof -
  have s: "rtos_ok items cap val mx s" by (rule reachable_ok[OF assms(1,2)])
  have "k < n_taken s"
  proof (rule ccontr)
    assume "\<not> k < n_taken s"
    then have "prefix (c_text (n_taken s)) (c_text k)" "n_got s \<noteq> 8" using assms(3) n_order(1)[OF s] by (auto intro: c_text_mono)
    then have "length (sent_by Consumer s) \<le> length (c_text k)"
      using prefix_length_le[OF consumer_wrote[OF s]] prefix_length_le[of "c_text (n_taken s)" "c_text k"] by simp
    with assms(4) show False by simp
  qed
  then have "prefix (p_text (Suc k)) (p_text (n_given s))" using n_order(2)[OF s] by (intro p_text_mono) simp
  then show ?thesis using written_when_given[OF assms(1,2)] by (rule prefix_order.trans)
qed

theorem rtos_send_before_got_witness:
  "\<exists>s. reachable list_kernel False s \<and> prefix (p_text 8) (sent_by Producer s)"
proof -
  obtain s where s: "reachable list_kernel False s" using list_kernel_boots by blast
  obtain t where t: "(rtos_step list_kernel False)\<^sup>*\<^sup>* s t" "sim_exit t = 1" "rtos_ok fst snd fst snd t"
    using rtos_completes[OF list_kernel_laws reachable_ok[OF list_kernel_laws s]] by blast
  have r: "reachable list_kernel False t" using t(1) s by (induction rule: rtranclp_induct) (auto intro: reachable.step)
  have "length (c_text 7) < length (sent_by Consumer t)"
    using prefix_length_le[OF c_text_mono[of 7 8]] by (simp add: passed(2)[OF t(3,2)] line_def)
  with rtos_send_before_got[OF list_kernel_laws r, of 7] r show ?thesis by auto
qed

text \<open>
  The demo completes: from every state it can get into, whatever the schedule was so far, it can still reach the
  state where the simulation is told to pass. No order of the tasks, and no filling of the queue, leads into a deadlock.
\<close>

theorem rtos_can_pass:
  assumes "kernel_laws K items cap val mx" "reachable K False s"
  shows "\<exists>t. (rtos_step K False)\<^sup>*\<^sup>* s t \<and> sim_exit t = 1"
  using rtos_completes[OF assms(1) reachable_ok[OF assms]] by blast

theorem rtos_can_pass_witness:
  "\<exists>s t. rtos_main list_kernel False = Inr s \<and> (rtos_step list_kernel False)\<^sup>*\<^sup>* s t \<and> sim_exit t = 1"
  using list_kernel_boots[of False] rtos_can_pass[OF list_kernel_laws] by blast

text \<open>
  C20. The negative control: with the timer off the demo never passes, under any schedule; the producer writes at most its
  line for item 1 and the consumer at most its lines for item 1.
\<close>

theorem rtos_no_tick:
  assumes "kernel_laws K items cap val mx" "reachable K True s"
  shows "sim_exit s \<noteq> 1 \<and> prefix (sent_by Producer s) (p_text 1) \<and> prefix (sent_by Consumer s) (c_text 1)"
proof -
  have s: "rtos_ok items cap val mx s" by (rule reachable_ok[OF assms])
  note n = n_order[OF s]
  have "p_i s = 1" using reachable_asleep[OF assms(2) delay_ticks[OF assms(1)]] by (simp add: asleep_def)
  then have one: "n_sent s \<le> 1" by (simp add: n_sent_def)
  have "sim_exit s \<noteq> 1" using passed(1)[OF s] n one by fastforce
  moreover have "prefix (sent_by Producer s) (p_text 1)"
  proof -
    have "prefix (sent_by Producer s) (p_text (n_sent s))" using s by (metis prefixI rtos_ok_def producer_ok_def)
    then show ?thesis using p_text_mono[OF one] by (rule prefix_order.trans)
  qed
  moreover have "prefix (sent_by Consumer s) (c_text 1)"
  proof -
    have "n_got s \<noteq> 8" "n_taken s \<le> 1" using n one by linarith+
    then show ?thesis using consumer_wrote[OF s] c_text_mono[of "n_taken s" 1] prefix_order.trans by fastforce
  qed
  ultimately show ?thesis by blast
qed

theorem rtos_no_tick_witness: "\<exists>s. rtos_main list_kernel True = Inr s \<and> sim_exit s \<noteq> 1"
  using list_kernel_boots[of True] rtos_no_tick[OF list_kernel_laws] by blast

end
