(* ===== verification/Rtos_Schedule.thy ===== *)
theory Rtos_Schedule
  imports Rtos_App
begin

text \<open>
  Schedules of the RTOS demo that respect the priorities of its tasks (consumer 3, producer 2, worker 1): a task
  runs only while every task of a higher priority blocks. Every such schedule is a run of the state machine of \<open>Rtos_App\<close>.
  One of them shows that the lines of the transcript are not atomic.
\<close>

section \<open>Schedules\<close>

datatype actor = Run task | Tick | Tx_Free

fun actor_step :: "('q, 's) kernel \<Rightarrow> actor \<Rightarrow> ('q, 's) rtos \<Rightarrow> ('q, 's) rtos option" where
  "actor_step K (Run Consumer) s = vConsumer K s"
| "actor_step K (Run Producer) s = (if Option.is_none (vConsumer K s) then vProducer K s else None)"
| "actor_step K (Run Worker) s =
     (if Option.is_none (vConsumer K s) \<and> Option.is_none (vProducer K s) then vWorker s else None)"
| "actor_step K (Run Boot) s = None"
| "actor_step K Tick s = Some (s\<lparr>ticks := ticks s + 1, p_delay := p_delay s - 1\<rparr>)"
| "actor_step K Tx_Free s = (if tx_busy s then Some (s\<lparr>tx_busy := False\<rparr>) else None)"

fun schedule :: "('q, 's) kernel \<Rightarrow> actor list \<Rightarrow> ('q, 's) rtos \<Rightarrow> ('q, 's) rtos option" where
  "schedule K [] s = Some s"
| "schedule K (a # as) s = do { s \<leftarrow> actor_step K a s; schedule K as s }"

lemma schedule_append: "schedule K (as @ bs) s = Option.bind (schedule K as s) (schedule K bs)"
  by (induction as arbitrary: s) (simp_all add: Option.bind_assoc cong: Option.bind_cong)

lemma actor_step_step: "actor_step K a s = Some t \<Longrightarrow> rtos_step K False s t"
  using rtos_step.tick[of False K s] rtos_step.sent[of s K False]
  by (cases "(K, a, s)" rule: actor_step.cases)
    (auto split: if_splits intro: rtos_step.producer rtos_step.consumer rtos_step.worker)

lemma schedule_reachable: "reachable K False s \<Longrightarrow> schedule K as s = Some t \<Longrightarrow> reachable K False t"
proof (induction as arbitrary: s)
  case (Cons a as)
  then obtain r where r: "actor_step K a s = Some r" "schedule K as r = Some t" by (auto simp: opt_simps)
  have "reachable K False r" using reachable.step[OF Cons.prems(1) actor_step_step[OF r(1)]] .
  with Cons.IH r(2) show ?case by blast
qed simp

text \<open>The worker's busy loop, in one go: the other tasks do not see its counter.\<close>

lemma blocked_spin: "Option.is_none (vConsumer K (s\<lparr>w_spin := x\<rparr>)) = Option.is_none (vConsumer K s)"
  "Option.is_none (vProducer K (s\<lparr>w_spin := x\<rparr>)) = Option.is_none (vProducer K s)"
  by (cases "out s Consumer = []"; cases "c_pc s";
      auto simp: vConsumer_def Let_def Option.is_none_def bind_eq_None_conv split: option.splits prod.splits if_splits)
    (cases "out s Producer = []"; cases "p_pc s";
      auto simp: vProducer_def Option.is_none_def bind_eq_None_conv split: option.splits prod.splits if_splits)

lemma schedule_spin:
  assumes "Option.is_none (vConsumer K s)" "Option.is_none (vProducer K s)" "out s Worker = []" "w_pc s = W_Spin"
    and "unat (w_spin s) + n \<le> 4000"
  shows "schedule K (replicate n (Run Worker)) s = Some (s\<lparr>w_spin := w_spin s + of_nat n\<rparr>)"
  using assms
proof (induction n arbitrary: s)
  case (Suc n)
  let ?t = "s\<lparr>w_spin := w_spin s + 1\<rparr>"
  have less: "w_spin s < 4000" using Suc.prems(5) by (simp add: word_less_nat_alt)
  then have w: "vWorker s = Some ?t" using Suc.prems(3,4) by (simp add: vWorker_def)
  have "unat (w_spin s + 1) = unat (w_spin s) + 1" using Suc.prems(5) by (simp add: unat_word_ariths(1))
  then have "schedule K (replicate n (Run Worker)) ?t = Some (?t\<lparr>w_spin := w_spin ?t + of_nat n\<rparr>)"
    using Suc.prems by (intro Suc.IH) (simp_all add: blocked_spin)
  with w Suc.prems(1,2) show ?case by (simp add: add.assoc)
qed simp

section \<open>A split line\<close>

definition prints :: "task \<Rightarrow> nat \<Rightarrow> actor list" where
  "prints T n = concat (replicate n [Run T, Run T, Tx_Free])"

text \<open>Producer and consumer do item 1 and block, the worker starts, and a tick comes.\<close>

definition item_1 :: "actor list" where
  "item_1 = [Run Producer, Run Producer] @ prints Producer 10 @ [Run Producer, Run Consumer] @ prints Consumer 7 @
     [Run Consumer] @ prints Consumer 9 @ [Run Consumer, Run Producer, Run Worker, Tick]"

text \<open>After its busy loop the worker prints three characters, then the fifth tick wakes the producer.\<close>

definition item_2 :: "actor list" where
  "item_2 = [Run Worker, Run Worker] @ prints Worker 3 @ [Tick, Tick, Tick, Tick] @
     [Run Producer, Run Producer, Run Producer] @ prints Producer 10"

definition booted :: "(int list \<times> nat, nat \<times> nat) rtos" where
  "booted = (case rtos_main list_kernel False of Inr s \<Rightarrow> s)"

definition split_end :: "(task \<times> char \<times> bool) list" where
  "split_end = map (\<lambda>c. (Worker, c, True)) ''[W]'' @ map (\<lambda>c. (Producer, c, True)) (p_line 2)"

lemma split_run:
  "(case schedule list_kernel item_1 booted of None \<Rightarrow> False
    | Some s \<Rightarrow> Option.is_none (vConsumer list_kernel s) \<and> Option.is_none (vProducer list_kernel s) \<and>
        out s Worker = [] \<and> w_pc s = W_Spin \<and> w_spin s = 0 \<and>
        (case schedule list_kernel item_2 (s\<lparr>w_spin := 4000\<rparr>) of None \<Rightarrow> False
         | Some t \<Rightarrow> drop 41 (writes t) = split_end))"
  by code_simp

text \<open>
  C40. Lines are not atomic: under a schedule that respects the priorities the tick wakes the producer while the worker is
  in the middle of its line, and the transcript goes on with \<open>[W][P]send:2\<close>. The header of the file calls the vocabulary
  of the transcript machine-checkable, and the harness matches whole lines.
\<close>

theorem rtos_line_split:
  "\<exists>acts s. schedule list_kernel acts booted = Some s \<and> reachable list_kernel False s \<and> (\<exists>ws. writes s = ws @ split_end)"
proof -
  obtain s t where s: "schedule list_kernel item_1 booted = Some s" "Option.is_none (vConsumer list_kernel s)"
    "Option.is_none (vProducer list_kernel s)" "out s Worker = []" "w_pc s = W_Spin" "w_spin s = 0"
    and t: "schedule list_kernel item_2 (s\<lparr>w_spin := 4000\<rparr>) = Some t" "drop 41 (writes t) = split_end"
    using split_run by (auto split: option.splits)
  have "schedule list_kernel (replicate 4000 (Run Worker)) s = Some (s\<lparr>w_spin := 4000\<rparr>)"
    using schedule_spin[OF s(2-5), of 4000] s(6) by simp
  with s(1) t(1) have run: "schedule list_kernel (item_1 @ replicate 4000 (Run Worker) @ item_2) booted = Some t"
    by (simp add: schedule_append)
  obtain b where "rtos_main list_kernel False = Inr b" "reachable list_kernel False b" using list_kernel_boots by blast
  then have "reachable list_kernel False booted" by (simp add: booted_def)
  then have "reachable list_kernel False t" using run by (rule schedule_reachable)
  moreover have "writes t = take 41 (writes t) @ split_end" using t(2) by (metis append_take_drop_id)
  ultimately show ?thesis using run by blast
qed

end
