(* ===== verification/Rtos_Boot.thy ===== *)
theory Rtos_Boot
  imports Rtos_Schedule
begin

text \<open>
  \<open>main\<close> of the RTOS demo on the chip: \<open>rtos/app/main.c\<close> with the drivers and handlers of \<open>rtos/bsp/bsp.c\<close>, from the
  start to the point where the scheduler runs the tasks or the simulation is told to fail. The state in which the tasks start is
  that of \<open>rtos_main\<close>, and what was sent by then is what \<open>rtos_main\<close> records. The tasks that \<open>main\<close> creates, with the
  priorities that the schedules of \<open>Rtos_Schedule\<close> respect and the limits of \<open>Rtos_Config\<close>.
\<close>

section \<open>The code\<close>

text \<open>The calls of \<open>xTaskCreate\<close>: task, name, stack in words, priority.\<close>

definition rtos_tasks :: "(task \<times> string \<times> nat \<times> nat) list" where
  "rtos_tasks =
     [(Consumer, ''C'', configMINIMAL_STACK_SIZE scheduler_conf, 3),
      (Producer, ''P'', configMINIMAL_STACK_SIZE scheduler_conf, 2),
      (Worker, ''W'', configMINIMAL_STACK_SIZE scheduler_conf, 1)]"

text \<open>The timer setup of the build with \<open>NEG_NO_TICK\<close>.\<close>

definition vPortSetupTimerInterrupt :: "status \<Rightarrow> soc \<Rightarrow> soc option" where
  "vPortSetupTimerInterrupt st s = soc_out (bsp_puts st (c_str (line ''[NEG]tick-disabled''))) s"

text \<open>
  \<open>Inr\<close>: the scheduler runs, with the tasks that exist; \<open>Inl\<close>: the program has stopped in \<open>sim_fail\<close>. A task exists if
  the kernel had memory for it, which is \<open>creates\<close>: the code ignores the result of \<open>xTaskCreate\<close>. The scheduler returns only when it
  has no memory for its own tasks; that is \<open>returns\<close>.
\<close>

definition boot_main ::
  "status \<Rightarrow> string \<Rightarrow> ('q, 's) kernel \<Rightarrow> (task \<Rightarrow> bool) \<Rightarrow> bool \<Rightarrow> bool \<Rightarrow> soc \<Rightarrow> (soc + task list \<times> soc) option" where
  "boot_main st file K creates neg returns s =
     do { let s = uart_init s;
          s \<leftarrow> soc_out (bsp_puts st (c_str (line ''[BOOT]freertos''))) s;
          let queue = q_create K QUEUE_LEN 4;
          let sem = s_create K NUM_ITEMS 0;
          a \<leftarrow> configASSERT st file 139 (\<not> Option.is_none queue) s;
          case a of Inl s \<Rightarrow> Some (Inl s)
          | Inr s \<Rightarrow>
              do { a \<leftarrow> configASSERT st file 140 (\<not> Option.is_none sem) s;
                   case a of Inl s \<Rightarrow> Some (Inl s)
                   | Inr s \<Rightarrow>
                       let tasks = filter creates (map fst rtos_tasks) in
                       if returns then
                         do { s \<leftarrow> soc_out (bsp_puts st (c_str (line ''[FATAL]scheduler returned''))) s;
                              Some (Inl (sim_fail s)) }
                       else map_option (\<lambda>s. Inr (tasks, s)) (if neg then vPortSetupTimerInterrupt st s else Some s) } }"

section \<open>The tasks and the configuration\<close>

text \<open>
  Priorities lie below the maximum and differ, names fit with their terminator, and the stacks of the three tasks and of the idle
  task take a quarter of the heap.
\<close>

lemma rtos_tasks_fit:
  "(T, n, k, p) \<in> set rtos_tasks \<Longrightarrow> 0 < p \<and> p < configMAX_PRIORITIES scheduler_conf \<and> length n < configMAX_TASK_NAME_LEN scheduler_conf"
  "distinct (map (\<lambda>(_, _, _, p). p) rtos_tasks)"
  "4 * (sum_list (map (\<lambda>(_, _, k, _). 4 * k) rtos_tasks) + 4 * configMINIMAL_STACK_SIZE scheduler_conf) \<le> configTOTAL_HEAP_SIZE memory_conf"
  by (auto simp: rtos_tasks_def scheduler_conf_def memory_conf_def)

text \<open>The kernel functions that the tasks call are compiled in.\<close>

lemma tasks_api: "INCLUDE vTaskDelete" "INCLUDE vTaskDelay" "configUSE_COUNTING_SEMAPHORES scheduler_conf"
  "configSUPPORT_DYNAMIC_ALLOCATION memory_conf"
  by (simp_all add: scheduler_conf_def memory_conf_def)

definition priority :: "task \<Rightarrow> nat" where
  "priority T = (case map_of (map (\<lambda>(T, _, _, p). (T, p)) rtos_tasks) T of Some p \<Rightarrow> p | None \<Rightarrow> 0)"

fun task_step :: "('q, 's) kernel \<Rightarrow> task \<Rightarrow> ('q, 's) rtos \<Rightarrow> ('q, 's) rtos option" where
  "task_step K Boot s = None"
| "task_step K Producer s = vProducer K s"
| "task_step K Consumer s = vConsumer K s"
| "task_step K Worker s = vWorker s"

text \<open>The schedules respect these priorities: a task runs exactly when every task above it blocks.\<close>

lemma actor_step_priority:
  "actor_step K (Run T) s = Some t \<longleftrightarrow> task_step K T s = Some t \<and> (\<forall>U. priority T < priority U \<longrightarrow> task_step K U s = None)"
proof -
  have all: "(\<forall>U. P U) \<longleftrightarrow> P Boot \<and> P Producer \<and> P Consumer \<and> P Worker" for P by (metis task.exhaust)
  show ?thesis unfolding all by (cases T) (auto simp: priority_def rtos_tasks_def Option.is_none_def)
qed

section \<open>The outcome\<close>

lemma soc_puts_sent:
  assumes "ready st" "CHR 0x00 \<notin> set t"
  shows "\<exists>u. soc_out (bsp_puts st (c_str t)) s = Some (s\<lparr>soc_uart := u\<rparr>) \<and> sent t (soc_uart s) u"
  by (rule soc_out_sent) (use bsp_uart.puts_sent[OF assms] in \<open>simp add: bsp_puts_def\<close>)

lemma assert_outcome:
  assumes "ready st" "CHR 0x00 \<notin> set file" "l < 2 ^ 31"
  shows "configASSERT st file (of_nat l) True s = Some (Inr s)"
    and "\<exists>t. configASSERT st file (of_nat l) False s = Some (Inl t) \<and> tohost t = 2 \<and> \<not> interrupts t \<and>
      usent (soc_uart t) = usent (soc_uart s) @ map of_char ([CHR 0x0A] @ line (''[ASSERT] '' @ file @ '':'' @ num_text dec_char 10 l))"
proof -
  show "configASSERT st file (of_nat l) True s = Some (Inr s)" by (simp add: configASSERT_def)
  have l: "unat (of_nat l :: ee_u32) = l" using assms(3) by (simp add: unat_of_nat_s32)
  then have "uint (of_nat l :: ee_u32) = int l" by (metis uint_nat)
  then have "sint (of_nat l :: ee_u32) = int l" using sint_uint_s32[of "of_nat l"] assms(3) by simp
  with assert_sends[OF assms(1,2), of "of_nat l" s]
  show "\<exists>t. configASSERT st file (of_nat l) False s = Some (Inl t) \<and> tohost t = 2 \<and> \<not> interrupts t \<and>
      usent (soc_uart t) = usent (soc_uart s) @ map of_char ([CHR 0x0A] @ line (''[ASSERT] '' @ file @ '':'' @ num_text dec_char 10 l))"
    by (auto simp: sent_def line_def configASSERT_def)
qed

text \<open>What is sent until the scheduler runs or the program stops.\<close>

definition boot_output :: "string \<Rightarrow> bool \<Rightarrow> bool \<Rightarrow> failed option \<Rightarrow> string" where
  "boot_output file neg returns failure =
     line ''[BOOT]freertos'' @
     (case failure of
        Some No_Queue \<Rightarrow> [CHR 0x0A] @ line (''[ASSERT] '' @ file @ '':139'')
      | Some No_Semaphore \<Rightarrow> [CHR 0x0A] @ line (''[ASSERT] '' @ file @ '':140'')
      | None \<Rightarrow> if returns then line ''[FATAL]scheduler returned'' else if neg then line ''[NEG]tick-disabled'' else [])"

lemma line_numbers: "num_text dec_char 10 139 = ''139''" "num_text dec_char 10 140 = ''140''"
  by code_simp+

lemma no_nul_lines: "CHR 0x00 \<notin> set (line ''[BOOT]freertos'')" "CHR 0x00 \<notin> set (line ''[FATAL]scheduler returned'')"
  "CHR 0x00 \<notin> set (line ''[NEG]tick-disabled'')"
  by (simp_all add: line_def)

text \<open>
  C21. The start of the RTOS demo on the chip. Whatever the kernel does with the requests for queue and semaphore, \<open>main\<close>
  gets through without undefined behaviour. If both exist and the scheduler does not return, the tasks start in the
  state \<open>rtos_main\<close> describes, with the baud divider set, and the serial port has sent exactly the characters recorded
  there. The tasks are the ones the kernel had memory for; only if it had memory for all three are they the tasks of \<open>rtos_main\<close>. In
  all other cases the program stops with 2 in \<open>tohost\<close> after reporting the line of the failed assertion (with interrupts
  off) or the return of the scheduler.
\<close>

theorem boot_main_outcome:
  assumes "ready st" "CHR 0x00 \<notin> set file"
  shows "\<exists>a. boot_main st file K creates neg returns s = Some a \<and>
    (case rtos_main K neg of
       Inl f \<Rightarrow> \<exists>t. a = Inl t \<and> tohost t = 2 \<and> \<not> interrupts t \<and>
         usent (soc_uart t) = usent (soc_uart s) @ map of_char (boot_output file neg returns (Some f))
     | Inr r \<Rightarrow> if returns then \<exists>t. a = Inl t \<and> tohost t = 2 \<and>
           usent (soc_uart t) = usent (soc_uart s) @ map of_char (boot_output file neg True None)
         else \<exists>t. a = Inr (filter creates [Consumer, Producer, Worker], t) \<and> bauddiv t = 2 \<and> tohost t = tohost s \<and> interrupts t = interrupts s \<and>
           usent (soc_uart t) = usent (soc_uart s) @ map of_char (boot_output file neg False None) \<and>
           boot_output file neg False None = sent_by Boot r)"
proof -
  let ?s = "uart_init s"
  obtain u where u: "soc_out (bsp_puts st (c_str (line ''[BOOT]freertos''))) ?s = Some (?s\<lparr>soc_uart := u\<rparr>)"
    "sent (line ''[BOOT]freertos'') (soc_uart ?s) u" using soc_puts_sent[OF assms(1) no_nul_lines(1), of ?s] by blast
  let ?t = "?s\<lparr>soc_uart := u\<rparr>"
  have us: "usent u = usent (soc_uart s) @ map of_char (line ''[BOOT]freertos'')" using u(2) by (auto simp: sent_def uart_init_def)
  consider (queue) "q_create K QUEUE_LEN 4 = None" | (sem) q where "q_create K QUEUE_LEN 4 = Some q" "s_create K NUM_ITEMS 0 = None"
    | (ok) q m where "q_create K QUEUE_LEN 4 = Some q" "s_create K NUM_ITEMS 0 = Some m" by fastforce
  then show ?thesis
  proof cases
    case queue
    then show ?thesis
      using u(1) us assert_outcome(2)[OF assms, of 139 ?t] by (auto simp: boot_main_def rtos_main_def boot_output_def Let_def line_numbers)
  next
    case sem
    then show ?thesis
      using u(1) us assert_outcome(1)[OF assms, of 139 ?t] assert_outcome(2)[OF assms, of 140 ?t]
      by (auto simp: boot_main_def rtos_main_def boot_output_def Let_def line_numbers)
  next
    case ok
    note a = assert_outcome(1)[OF assms, of 139 ?t] assert_outcome(1)[OF assms, of 140 ?t]
    obtain v where v: "soc_out (bsp_puts st (c_str (line ''[FATAL]scheduler returned''))) ?t = Some (?t\<lparr>soc_uart := v\<rparr>)"
      "sent (line ''[FATAL]scheduler returned'') u v" using soc_puts_sent[OF assms(1) no_nul_lines(2), of ?t] by auto
    obtain w where w: "soc_out (bsp_puts st (c_str (line ''[NEG]tick-disabled''))) ?t = Some (?t\<lparr>soc_uart := w\<rparr>)"
      "sent (line ''[NEG]tick-disabled'') u w" using soc_puts_sent[OF assms(1) no_nul_lines(3), of ?t] by auto
    have b: "map ((\<lambda>(_, c, _). c) \<circ> (\<lambda>c. (Boot, c, True))) cs = cs" for cs :: string by (simp add: comp_def)
    show ?thesis
      using ok u(1) us v w a
      by (auto simp: boot_main_def rtos_main_def boot_output_def Let_def sent_def sim_fail_def uart_init_def
        vPortSetupTimerInterrupt_def sent_by_def boot_text_def comp_def rtos_tasks_def)
  qed
qed

theorem boot_main_outcome_witness:
  "\<exists>t. boot_main (\<lambda>n. 0) ''main.c'' list_kernel (\<lambda>T. T \<noteq> Worker) True False \<lparr>soc_uart = idle_uart, bauddiv = 0, tohost = 0, interrupts = True\<rparr> = Some (Inr ([Consumer, Producer], t)) \<and>
    usent (soc_uart t) = map of_char (line ''[BOOT]freertos'' @ line ''[NEG]tick-disabled'')"
proof -
  obtain r where "rtos_main list_kernel True = Inr r" using list_kernel_boots by blast
  then show ?thesis
    using boot_main_outcome[OF ready_idle, of "''main.c''" list_kernel "\<lambda>T. T \<noteq> Worker" True False "\<lparr>soc_uart = idle_uart, bauddiv = 0, tohost = 0, interrupts = True\<rparr>"]
    by (auto simp: boot_output_def idle_uart_def)
qed

end
