(* ===== verification/Rtos_Fair.thy ===== *)
theory Rtos_Fair
  imports Rtos_Schedule
begin

text \<open>
  The RTOS demo ends: every fair run reaches the state where the simulation is told to pass. Fair means that producer,
  consumer, timer and transmitter are each, again and again, blocked or the one that moves; nothing is asked of the
  worker. The kernel's scheduling by priority gives that, as long as the timer ticks and the transmitter gets free.

  The argument is the usual one for weak fairness, stated once as a locale: a number that no step increases, and in
  every state one move that decreases it and stays possible for as long as nothing else decreases it.
\<close>

section \<open>Fair runs\<close>

locale fair_progress =
  fixes move :: "'a \<Rightarrow> 's \<Rightarrow> 's option"
    and acts :: "'a set"
    and takes :: "'s \<Rightarrow> 's \<Rightarrow> bool"
    and inv :: "'s \<Rightarrow> bool"
    and goal :: "'s \<Rightarrow> bool"
    and rank :: "'s \<Rightarrow> nat"
    and view :: "'s \<Rightarrow> 'v"
  assumes inv_step: "inv s \<Longrightarrow> takes s t \<Longrightarrow> inv t"
    and rank_step: "inv s \<Longrightarrow> takes s t \<Longrightarrow> rank t < rank s \<or> rank t = rank s \<and> view t = view s"
    and helpful: "inv s \<Longrightarrow> \<not> goal s \<Longrightarrow>
      \<exists>a\<in>acts. \<forall>t. inv t \<and> view t = view s \<longrightarrow> (\<exists>u. move a t = Some u \<and> rank u < rank t)"
begin

lemma run_inv: "inv (f 0) \<Longrightarrow> \<forall>n. takes (f n) (f (Suc n)) \<Longrightarrow> inv (f n)"
  by (induction n) (auto intro: inv_step)

lemma run_rank:
  assumes "\<forall>n. inv (f n)" "\<forall>n. takes (f n) (f (Suc n))" "n \<le> m"
  shows "rank (f m) < rank (f n) \<or> rank (f m) = rank (f n) \<and> view (f m) = view (f n)"
  using assms(3)
proof (induction m rule: dec_induct)
  case (step m)
  then show ?case using rank_step[of "f m" "f (Suc m)"] assms(1,2) by fastforce
qed simp

lemma fair_decreases:
  assumes "\<forall>n. inv (f n)" "\<forall>n. takes (f n) (f (Suc n))" "\<not> goal (f n)"
    and "\<forall>a\<in>acts. \<exists>m\<ge>n. move a (f m) = None \<or> move a (f m) = Some (f (Suc m))"
  shows "\<exists>m\<ge>n. rank (f m) < rank (f n)"
proof (rule ccontr)
  assume c: "\<not> (\<exists>m\<ge>n. rank (f m) < rank (f n))"
  obtain a where a: "a \<in> acts" "\<forall>t. inv t \<and> view t = view (f n) \<longrightarrow> (\<exists>u. move a t = Some u \<and> rank u < rank t)"
    using helpful assms(1,3) by blast
  obtain m where m: "n \<le> m" "move a (f m) = None \<or> move a (f m) = Some (f (Suc m))" using assms(4) a(1) by blast
  have s: "rank (f m) = rank (f n)" "view (f m) = view (f n)" using run_rank[OF assms(1,2) m(1)] c m(1) by blast+
  then obtain u where "move a (f m) = Some u" "rank u < rank (f m)" using a(2) assms(1) by blast
  with m(2) have "rank (f (Suc m)) < rank (f n)" by (simp add: s)
  with c m(1) show False by (meson le_SucI)
qed

lemma fair_reaches:
  assumes "\<forall>n. inv (f n)" "\<forall>n. takes (f n) (f (Suc n))"
    and "\<forall>a\<in>acts. \<forall>n. \<exists>m\<ge>n. move a (f m) = None \<or> move a (f m) = Some (f (Suc m))"
  shows "\<exists>m\<ge>n. goal (f m)"
proof (induction "rank (f n)" arbitrary: n rule: less_induct)
  case less
  show ?case
  proof (cases "goal (f n)")
    case False
    then obtain m where m: "n \<le> m" "rank (f m) < rank (f n)" using fair_decreases[OF assms(1,2)] assms(3) by blast
    with less[of m] show ?thesis by (meson order_trans)
  qed blast
qed

end

section \<open>The demo\<close>

fun rtos_move :: "('q, 's) kernel \<Rightarrow> actor \<Rightarrow> ('q, 's) rtos \<Rightarrow> ('q, 's) rtos option" where
  "rtos_move K (Run Consumer) s = vConsumer K s"
| "rtos_move K (Run Producer) s = vProducer K s"
| "rtos_move K (Run Worker) s = vWorker s"
| "rtos_move K (Run Boot) s = None"
| "rtos_move K Tick s = Some (s\<lparr>ticks := ticks s + 1, p_delay := p_delay s - 1\<rparr>)"
| "rtos_move K Tx_Free s = (if tx_busy s then Some (s\<lparr>tx_busy := False\<rparr>) else None)"

definition fair_actors :: "actor set" where
  "fair_actors = {Run Consumer, Run Producer, Tick, Tx_Free}"

definition fair_run :: "('q, 's) kernel \<Rightarrow> (nat \<Rightarrow> ('q, 's) rtos) \<Rightarrow> bool" where
  "fair_run K f \<longleftrightarrow> (\<forall>n. rtos_step K False (f n) (f (Suc n))) \<and>
     (\<forall>a\<in>fair_actors. \<forall>n. \<exists>m\<ge>n. rtos_move K a (f m) = None \<or> rtos_move K a (f m) = Some (f (Suc m)))"

text \<open>The work that is left, with that of the worker: its reports are bounded, its busy loop is no work.\<close>

definition w_work :: "('q, 's) rtos \<Rightarrow> nat" where
  "w_work s = (if w_pc s = W_Start then 700 else nat (6 - w_reports s) * 100) + print_work Worker s"

definition all_work :: "('q, 's) rtos \<Rightarrow> nat" where
  "all_work s = work s + w_work s"

text \<open>What the moves of producer, consumer, timer and transmitter depend on.\<close>

definition rtos_view where
  "rtos_view s = ((xQueue s, xSem s, tx_busy s), (\<lambda>T. if T \<in> {Producer, Consumer} then (out s T, free_seen s T) else ([], False)),
     (p_pc s, p_i s, if p_pc s = P_Wake then p_delay s else 0), (c_pc s, g_consumed s))"

lemma rtos_viewD:
  assumes "rtos_view t = rtos_view s"
  shows "xQueue t = xQueue s" "xSem t = xSem s" "tx_busy t = tx_busy s" "out t Producer = out s Producer" "out t Consumer = out s Consumer"
    "free_seen t Producer = free_seen s Producer" "free_seen t Consumer = free_seen s Consumer" "p_pc t = p_pc s" "p_i t = p_i s"
    "p_pc s = P_Wake \<Longrightarrow> p_delay t = p_delay s" "c_pc t = c_pc s" "g_consumed t = g_consumed s"
  using assms by (auto simp: rtos_view_def dest: fun_cong[of _ _ Producer] fun_cong[of _ _ Consumer])

subsection \<open>No step adds work\<close>

lemma length_putdec: "putdec_text v = Some t \<Longrightarrow> length t \<le> 11"
proof -
  have "nat \<bar>sint v\<bar> < 10 ^ 10" using sint_greater_eq[of v] sint_less[of v] by simp
  then have "length (num_text dec_char 10 (nat \<bar>sint v\<bar>)) \<le> 10" using digs_length[of 10 "nat \<bar>sint v\<bar>" 10] by (simp add: num_text_def)
  then show "putdec_text v = Some t \<Longrightarrow> length t \<le> 11" by (auto simp: putdec_text_def split: if_splits)
qed

lemma print_step_work:
  assumes "out s T \<noteq> []" "T \<in> {Producer, Consumer, Worker}"
  shows "all_work (print_step T s) < all_work s \<or> print_step T s = s"
proof (cases "tx_busy s \<and> \<not> free_seen s T")
  case True
  then show ?thesis by (simp add: print_step_def)
next
  case False
  have "all_work (print_step T s) < all_work s"
  proof (cases "T = Worker")
    case True
    obtain c cs where o: "out s Worker = c # cs" using assms(1) True by (cases "out s T") auto
    have "p_work (print_step Worker s) = p_work s" "c_work (print_step Worker s) = c_work s"
      by (simp_all add: p_work_def c_work_def print_work_def print_step_def)
    moreover have "print_work Worker (print_step Worker s) + (if free_seen s Worker then 2 else 1) = print_work Worker s"
      using o False True by (cases cs) (auto simp: print_work_def print_step_def)
    moreover have "tx_busy (print_step Worker s) = (free_seen s Worker \<or> tx_busy s)" by (simp add: print_step_def)
    moreover have "w_work (print_step Worker s) + print_work Worker s = w_work s + print_work Worker (print_step Worker s)"
      by (simp add: w_work_def print_step_def)
    ultimately show ?thesis using True by (auto simp: all_work_def work_def split: if_splits)
  next
    case other: False
    have "w_work (print_step T s) = w_work s" using other by (simp add: w_work_def print_work_def print_step_def)
    moreover have "work (print_step T s) < work s" using print_progress[OF assms(1)] assms(2) other False by blast
    ultimately show ?thesis by (simp add: all_work_def)
  qed
  then show ?thesis ..
qed

text \<open>The variables of the worker are its own.\<close>

lemma worker_vars [simp]:
  "work (s\<lparr>w_pc := v0\<rparr>) = work s" "rtos_view (s\<lparr>w_pc := v0\<rparr>) = rtos_view s"
  "work (s\<lparr>w_spin := v1\<rparr>) = work s" "rtos_view (s\<lparr>w_spin := v1\<rparr>) = rtos_view s"
  "work (s\<lparr>w_last := v2\<rparr>) = work s" "rtos_view (s\<lparr>w_last := v2\<rparr>) = rtos_view s"
  "work (s\<lparr>w_reports := v3\<rparr>) = work s" "rtos_view (s\<lparr>w_reports := v3\<rparr>) = rtos_view s"
  "work (s\<lparr>g_worker_ticks_seen := v4\<rparr>) = work s" "rtos_view (s\<lparr>g_worker_ticks_seen := v4\<rparr>) = rtos_view s"
  by (simp_all add: work_def p_work_def c_work_def print_work_def rtos_view_def cong: if_cong)

lemma worker_print_vars [simp]:
  "print_work T (s\<lparr>w_pc := v0\<rparr>) = print_work T s"
  "print_work T (s\<lparr>w_spin := v1\<rparr>) = print_work T s"
  "print_work T (s\<lparr>w_last := v2\<rparr>) = print_work T s"
  "print_work T (s\<lparr>w_reports := v3\<rparr>) = print_work T s"
  "print_work T (s\<lparr>g_worker_ticks_seen := v4\<rparr>) = print_work T s"
  by (simp_all add: print_work_def)

lemma worker_prints [simp]: "work (print_text Worker t s) = work s"
  by (simp add: work_def p_work_def c_work_def print_work_def print_text_def)

lemma worker_work:
  assumes "vWorker s = Some t"
  shows "all_work t < all_work s \<or> all_work t = all_work s \<and> rtos_view t = rtos_view s"
proof (cases "out s Worker = []")
  case False
  then show ?thesis using assms print_step_work[of s Worker] by (auto simp: vWorker_def)
next
  case True
  show ?thesis
  proof (cases "w_pc s")
    case W_Start
    then have "t = s\<lparr>w_last := ticks s, w_reports := 0, w_spin := 0, w_pc := W_Spin\<rparr>" using True assms by (simp add: vWorker_def)
    with W_Start show ?thesis by (simp add: all_work_def w_work_def)
  next
    case W_Spin
    then have "t = s\<lparr>w_spin := w_spin s + 1\<rparr> \<or> t = s\<lparr>w_pc := W_Check\<rparr>" using True assms by (auto simp: vWorker_def split: if_splits)
    with W_Spin show ?thesis by (auto simp: all_work_def w_work_def)
  next
    case W_Check
    let ?r = "s\<lparr>w_spin := 0, w_pc := W_Spin\<rparr>" and ?u = "s\<lparr>w_spin := 0, w_pc := W_Spin, w_last := ticks s, g_worker_ticks_seen := ticks s\<rparr>"
    consider d where "w_reports s < 6" "putdec_text (ticks s) = Some d"
        "t = print_text Worker (line (''[W]run@'' @ d)) (?u\<lparr>w_reports := w_reports s + 1\<rparr>)" | "t = ?r" | "t = ?u"
      using True assms W_Check by (auto simp: vWorker_def Let_def opt_simps split: if_splits)
    then show ?thesis
    proof cases
      case 1
      have "nat (6 - w_reports s) = Suc (nat (6 - (w_reports s + 1)))" using 1(1) by simp
      moreover have "print_work Worker t \<le> 57" using length_putdec[OF 1(2)] by (simp add: 1(3) print_work_def print_text_def line_def)
      moreover have "work t = work s" "w_pc t = W_Spin" "w_reports t = w_reports s + 1" by (simp_all add: 1(3)) (simp_all add: print_text_def)
      ultimately have "all_work t < all_work s" using W_Check by (simp add: all_work_def w_work_def)
      then show ?thesis ..
    qed (use W_Check in \<open>simp_all add: all_work_def w_work_def\<close>)
  qed
qed

lemma w_work_same:
  "out t Worker = out s Worker \<Longrightarrow> free_seen t = free_seen s \<Longrightarrow> w_pc t = w_pc s \<Longrightarrow> w_reports t = w_reports s \<Longrightarrow> w_work t = w_work s"
  by (simp add: w_work_def print_work_def)

lemma consumer_silent_work:
  assumes "kernel_laws K items cap val mx" "rtos_ok items cap val mx s" "vConsumer K s = Some t" and True: "out s Consumer = []"
  shows "all_work t < all_work s"
proof -
  have "c_pc s = C_Take \<Longrightarrow> \<exists>r. s_take K (xSem s) = Some r" using assms(3) True by (auto simp: vConsumer_def opt_simps)
  then have "c_pc s = C_Take \<Longrightarrow> 0 < val (xSem s)" using s_take_counts[OF assms(1)] by blast
  moreover have "c_pc s \<noteq> C_Halt" using assms(3) True by (auto simp: vConsumer_def)
  ultimately have "work t < work s" using consumer_progress[OF assms(1,2) True] assms(3) by auto
  moreover have "w_work t = w_work s"
    by (rule w_work_same; use assms(3) True in
      \<open>auto simp: vConsumer_def print_text_def Let_def opt_simps split: c_point.splits option.splits if_splits\<close>)
  ultimately show ?thesis by (simp add: all_work_def)
qed

lemma consumer_work:
  assumes "kernel_laws K items cap val mx" "rtos_ok items cap val mx s" "vConsumer K s = Some t"
  shows "all_work t < all_work s \<or> t = s"
proof (cases "out s Consumer = []")
  case False
  then show ?thesis using assms(3) print_step_work[of s Consumer] by (auto simp: vConsumer_def)
qed (use consumer_silent_work[OF assms] in blast)

lemma producer_work:
  assumes "rtos_ok items cap val mx s" "vProducer K s = Some t" "pdMS_TO_TICKS K 5 = 5"
  shows "all_work t < all_work s \<or> t = s"
proof (cases "out s Producer = []")
  case False
  then show ?thesis using assms(2) print_step_work[of s Producer] by (auto simp: vProducer_def)
next
  case True
  have p: "1 \<le> p_i s" "p_i s \<le> 9" "p_pc s \<notin> {P_For, P_Deleted} \<longrightarrow> p_i s \<le> 8"
    using assms(1) by (auto simp: rtos_ok_def producer_ok_def)
  have "work t < work s"
  proof (cases "p_pc s")
    case P_Send
    then obtain q where "t = print_text Producer (line (''[P]send:'' @ num_text dec_char 10 (nat (p_i s)))) (s\<lparr>xQueue := q, p_pc := P_Give\<rparr>)"
      using assms(2) True p putdec_small[of "p_i s"] by (auto simp: vProducer_def opt_simps)
    then show ?thesis using True P_Send p by (simp add: work_def p_work_def c_work_def print_work_def print_text_def line_def)
  next
    case P_Wake
    then have t: "t = s\<lparr>p_i := p_i s + 1, p_pc := P_For\<rparr>" using assms(2) True by (simp add: vProducer_def split: if_splits)
    have "nat (9 - p_i s) = Suc (nat (9 - (p_i s + 1)))" using p(3) P_Wake by simp
    with P_Wake show ?thesis unfolding t by (simp add: work_def p_work_def c_work_def print_work_def)
  next
    case P_Deleted
    with True assms(2) show ?thesis by (simp add: vProducer_def)
  next
    case P_For
    then have t: "t = s\<lparr>p_pc := (if p_i s \<le> int NUM_ITEMS then P_Send else P_Deleted)\<rparr>" using assms(2) True by (simp add: vProducer_def)
    then show ?thesis using P_For by (simp add: t work_def p_work_def c_work_def print_work_def)
  next
    case P_Give
    then have t: "t = s\<lparr>xSem := snd (s_give K (xSem s)), p_pc := P_Sleep\<rparr>" using assms(2) True by (simp add: vProducer_def)
    show ?thesis using P_Give by (simp add: t work_def p_work_def c_work_def print_work_def)
  next
    case P_Sleep
    then have t: "t = s\<lparr>p_delay := 5, p_pc := P_Wake\<rparr>" using assms(2,3) True by (simp add: vProducer_def)
    show ?thesis using P_Sleep by (simp add: t work_def p_work_def c_work_def print_work_def)
  qed
  moreover have "w_work t = w_work s"
    by (rule w_work_same; use assms(2) True in
      \<open>auto simp: vProducer_def print_text_def opt_simps split: p_point.splits if_splits\<close>)
  ultimately show ?thesis by (simp add: all_work_def)
qed

lemma step_work:
  assumes "kernel_laws K items cap val mx" "rtos_ok items cap val mx s" "rtos_step K neg s t"
  shows "all_work t < all_work s \<or> all_work t = all_work s \<and> rtos_view t = rtos_view s"
  using assms(3)
proof cases
  case producer
  with producer_work[OF assms(2) _ delay_ticks[OF assms(1)]] show ?thesis by blast
next
  case consumer
  with consumer_work[OF assms(1,2)] show ?thesis by blast
next
  case worker
  then show ?thesis by (rule worker_work)
next
  case tick
  have "w_work t = w_work s" by (simp add: tick w_work_def print_work_def)
  moreover have "work t < work s \<or> work t = work s \<and> rtos_view t = rtos_view s"
    by (cases "p_pc s") (auto simp: tick(1) work_def p_work_def c_work_def print_work_def rtos_view_def)
  ultimately show ?thesis by (auto simp: all_work_def)
next
  case sent
  then show ?thesis by (simp add: all_work_def w_work_def work_def p_work_def c_work_def print_work_def)
qed

subsection \<open>One move helps\<close>

lemma printing_helps:
  assumes "out s T \<noteq> []" "T \<in> {Producer, Consumer, Worker}" "\<not> tx_busy s"
  shows "all_work (print_step T s) < all_work s"
proof -
  have "print_step T s \<noteq> s"
  proof
    assume "print_step T s = s"
    then have "free_seen (print_step T s) T = free_seen s T" by simp
    then show False using assms(3) by (auto simp: print_step_def split: if_splits)
  qed
  with print_step_work[OF assms(1,2)] show ?thesis by blast
qed

lemma move_helps:
  assumes "kernel_laws K items cap val mx" "rtos_ok items cap val mx s" "sim_exit s \<noteq> 1"
  shows "\<exists>a\<in>fair_actors. \<forall>t. rtos_ok items cap val mx t \<and> rtos_view t = rtos_view s \<longrightarrow>
    (\<exists>u. rtos_move K a t = Some u \<and> all_work u < all_work t)"
proof -
  have h: "c_pc s \<noteq> C_Halt" using assms(2,3) by (auto simp: rtos_ok_def consumer_ok_def)
  have strict: "all_work u < all_work t" if "all_work u < all_work t \<or> u = t" "work u < work t" for u t using that by auto
  consider "tx_busy s" | "\<not> tx_busy s" "out s Consumer \<noteq> []" | "\<not> tx_busy s" "out s Producer \<noteq> []"
    | "out s Consumer = []" "c_pc s = C_Take \<Longrightarrow> 0 < val (xSem s)"
    | "out s Producer = []" "c_pc s = C_Take" "val (xSem s) = 0" "p_pc s \<noteq> P_Wake \<or> p_delay s = 0"
    | "p_pc s = P_Wake" "0 < p_delay s"
    by blast
  then show ?thesis
  proof cases
    case 1
    have "\<exists>u. rtos_move K Tx_Free t = Some u \<and> all_work u < all_work t" if "rtos_view t = rtos_view s" for t
      using 1 rtos_viewD(3)[OF that] by (simp add: all_work_def w_work_def work_def p_work_def c_work_def print_work_def)
    then show ?thesis by (intro bexI[of _ Tx_Free]) (auto simp: fair_actors_def)
  next
    case 2
    have "\<exists>u. rtos_move K (Run Consumer) t = Some u \<and> all_work u < all_work t" if "rtos_view t = rtos_view s" for t
      using 2 rtos_viewD[OF that] printing_helps[of t Consumer] by (simp add: vConsumer_def)
    then show ?thesis by (intro bexI[of _ "Run Consumer"]) (auto simp: fair_actors_def)
  next
    case 3
    have "\<exists>u. rtos_move K (Run Producer) t = Some u \<and> all_work u < all_work t" if "rtos_view t = rtos_view s" for t
      using 3 rtos_viewD[OF that] printing_helps[of t Producer] by (simp add: vProducer_def)
    then show ?thesis by (intro bexI[of _ "Run Producer"]) (auto simp: fair_actors_def)
  next
    case 4
    have "\<exists>u. rtos_move K (Run Consumer) t = Some u \<and> all_work u < all_work t"
      if t: "rtos_ok items cap val mx t" "rtos_view t = rtos_view s" for t
    proof -
      have "out t Consumer = []" "c_pc t \<noteq> C_Halt" "c_pc t = C_Take \<Longrightarrow> 0 < val (xSem t)" using 4 h rtos_viewD[OF t(2)] by simp_all
      then obtain u where u: "vConsumer K t = Some u" "work u < work t" using consumer_progress[OF assms(1) t(1)] by blast
      with strict[OF consumer_work[OF assms(1) t(1) u(1)]] show ?thesis by simp
    qed
    then show ?thesis by (intro bexI[of _ "Run Consumer"]) (auto simp: fair_actors_def)
  next
    case 5
    have "\<exists>u. rtos_move K (Run Producer) t = Some u \<and> all_work u < all_work t"
      if t: "rtos_ok items cap val mx t" "rtos_view t = rtos_view s" for t
    proof -
      have "out t Producer = []" "c_pc t = C_Take" "val (xSem t) = 0" "p_pc t \<noteq> P_Wake \<or> p_delay t = 0"
        using 5 rtos_viewD[OF t(2)] by auto
      then obtain u where u: "vProducer K t = Some u" "work u < work t" using producer_progress[OF assms(1) t(1)] by blast
      with strict[OF producer_work[OF t(1) u(1) delay_ticks[OF assms(1)]]] show ?thesis by simp
    qed
    then show ?thesis by (intro bexI[of _ "Run Producer"]) (auto simp: fair_actors_def)
  next
    case 6
    have "\<exists>u. rtos_move K Tick t = Some u \<and> all_work u < all_work t" if "rtos_view t = rtos_view s" for t
      using 6 rtos_viewD[OF that] by (simp add: all_work_def w_work_def work_def p_work_def c_work_def print_work_def)
    then show ?thesis by (intro bexI[of _ Tick]) (auto simp: fair_actors_def)
  qed
qed

interpretation rtos_ends: fair_progress "rtos_move K" fair_actors "rtos_step K False"
  "\<lambda>s. kernel_laws K items cap val mx \<and> rtos_ok items cap val mx s" "\<lambda>s. sim_exit s = 1" all_work rtos_view
proof
  show "\<exists>a\<in>fair_actors. \<forall>t. (kernel_laws K items cap val mx \<and> rtos_ok items cap val mx t) \<and> rtos_view t = rtos_view s \<longrightarrow>
      (\<exists>u. rtos_move K a t = Some u \<and> all_work u < all_work t)"
    if "kernel_laws K items cap val mx \<and> rtos_ok items cap val mx s" "sim_exit s \<noteq> 1" for s :: "('a, 'b) rtos"
    using move_helps[of K items cap val mx s] that by blast
qed (use rtos_step_ok step_work in blast)+

lemma fair_run_passes:
  assumes "kernel_laws K items cap val mx" "reachable K False (f 0)" "fair_run K f"
  shows "\<exists>n. sim_exit (f n) = 1 \<and> sent_by Producer (f n) = p_text 8 \<and> sent_by Consumer (f n) = c_text 8 @ line ''[DONE]ok''"
proof -
  have steps: "\<forall>n. rtos_step K False (f n) (f (Suc n))"
    and fair: "\<forall>a\<in>fair_actors. \<forall>n. \<exists>m\<ge>n. rtos_move K a (f m) = None \<or> rtos_move K a (f m) = Some (f (Suc m))"
    using assms(3) by (auto simp: fair_run_def)
  have inv: "\<forall>n. kernel_laws K items cap val mx \<and> rtos_ok items cap val mx (f n)"
    using rtos_ends.run_inv[OF _ steps] assms(1) reachable_ok[OF assms(1,2)] by blast
  obtain n where "sim_exit (f n) = 1" using rtos_ends.fair_reaches[OF inv steps fair] by blast
  with passed(2,3)[of items cap val mx "f n"] inv show ?thesis by blast
qed

section \<open>Scheduling by priority\<close>

text \<open>
  The processor runs the task with the highest priority that is not blocked, again and again the timer ticks, and the
  transmitter does not stay busy.
\<close>

definition priority_run :: "('q, 's) kernel \<Rightarrow> (nat \<Rightarrow> actor) \<Rightarrow> (nat \<Rightarrow> ('q, 's) rtos) \<Rightarrow> bool" where
  "priority_run K a f \<longleftrightarrow> (\<forall>n. actor_step K (a n) (f n) = Some (f (Suc n))) \<and>
     (\<forall>n. \<exists>m\<ge>n. (\<exists>T. a m = Run T) \<or> (\<forall>T. rtos_move K (Run T) (f m) = None)) \<and>
     (\<forall>n. \<exists>m\<ge>n. a m = Tick) \<and> (\<forall>n. \<exists>m\<ge>n. a m = Tx_Free \<or> \<not> tx_busy (f m))"

lemma actor_step_move:
  assumes "actor_step K (Run T) s = Some t"
  shows "T = Consumer \<and> vConsumer K s = Some t \<or> T = Producer \<and> vConsumer K s = None \<and> vProducer K s = Some t \<or>
    T = Worker \<and> vConsumer K s = None \<and> vProducer K s = None \<and> vWorker s = Some t"
  using assms by (cases T) (auto simp: Option.is_none_def split: if_splits)

text \<open>With a free transmitter the consumer gets on.\<close>

lemma consumer_gets_on:
  assumes "kernel_laws K items cap val mx" "rtos_ok items cap val mx s" "vConsumer K s = Some t" "\<not> tx_busy s"
  shows "all_work t < all_work s"
proof (cases "out s Consumer = []")
  case False
  with assms(3) have "t = print_step Consumer s" by (simp add: vConsumer_def)
  with printing_helps[OF False] assms(4) show ?thesis by simp
qed (use consumer_silent_work[OF assms(1-3)] in blast)

lemma producer_not_starved:
  assumes "kernel_laws K items cap val mx" "\<forall>n. rtos_ok items cap val mx (f n)" "priority_run K a f"
  shows "\<exists>m\<ge>n. vProducer K (f m) = None \<or> vProducer K (f m) = Some (f (Suc m))"
proof (rule ccontr)
  assume c: "\<not> (\<exists>m\<ge>n. vProducer K (f m) = None \<or> vProducer K (f m) = Some (f (Suc m)))"
  have step: "\<forall>n. actor_step K (a n) (f n) = Some (f (Suc n))" and runs: "\<exists>m\<ge>n. (\<exists>T. a m = Run T) \<or> (\<forall>T. rtos_move K (Run T) (f m) = None)"
    and tx: "\<exists>m\<ge>n. a m = Tx_Free \<or> \<not> tx_busy (f m)" for n
    using assms(3) by (auto simp: priority_run_def)
  have steps: "\<forall>n. rtos_step K False (f n) (f (Suc n))" using step actor_step_step by blast
  have inv: "\<forall>n. kernel_laws K items cap val mx \<and> rtos_ok items cap val mx (f n)" using assms(1,2) by blast
  obtain l where l: "n \<le> l" "\<forall>m\<ge>n. all_work (f l) \<le> all_work (f m)"
    using ex_has_least_nat[of "\<lambda>m. n \<le> m" n "\<lambda>m. all_work (f m)"] by blast
  have same: "all_work (f m) = all_work (f l)" "rtos_view (f m) = rtos_view (f l)" if "l \<le> m" for m
    using rtos_ends.run_rank[OF inv steps that] l that by (meson leD le_trans)+
  obtain k where k: "l \<le> k" "\<not> tx_busy (f k)"
  proof -
    obtain k where k: "l \<le> k" "a k = Tx_Free \<or> \<not> tx_busy (f k)" using tx by blast
    have "\<not> tx_busy (f (Suc k))" if "a k = Tx_Free"
    proof -
      have "f (Suc k) = f k\<lparr>tx_busy := False\<rparr>" using step[rule_format, of k] that by (auto split: if_splits)
      then show ?thesis by simp
    qed
    then show ?thesis using k that[of k] that[of "Suc k"] by auto
  qed
  have free: "\<not> tx_busy (f m)" if "l \<le> m" for m using rtos_viewD(3)[OF same(2)[OF that]] rtos_viewD(3)[OF same(2)[OF k(1)]] k(2) by simp
  obtain m where m: "l \<le> m" "(\<exists>T. a m = Run T) \<or> (\<forall>T. rtos_move K (Run T) (f m) = None)" using runs by blast
  have p: "vProducer K (f m) \<noteq> None" "vProducer K (f m) \<noteq> Some (f (Suc m))" using c l(1) m(1) by auto
  then obtain T where "a m = Run T" using m(2) rtos_move.simps(2)[of K "f m"] by metis
  then have "vConsumer K (f m) = Some (f (Suc m))" using actor_step_move[of K T "f m" "f (Suc m)"] step p by metis
  then have "all_work (f (Suc m)) < all_work (f m)" using consumer_gets_on[OF assms(1)] assms(2) free[OF m(1)] by blast
  with same(1)[OF m(1)] same(1)[of "Suc m"] m(1) show False by simp
qed

lemma priority_fair:
  assumes "kernel_laws K items cap val mx" "\<forall>n. rtos_ok items cap val mx (f n)" "priority_run K a f"
  shows "fair_run K f"
proof -
  have step: "\<forall>n. actor_step K (a n) (f n) = Some (f (Suc n))" and runs: "\<exists>m\<ge>n. (\<exists>T. a m = Run T) \<or> (\<forall>T. rtos_move K (Run T) (f m) = None)"
    and tick: "\<exists>m\<ge>n. a m = Tick" and tx: "\<exists>m\<ge>n. a m = Tx_Free \<or> \<not> tx_busy (f m)" for n
    using assms(3) by (auto simp: priority_run_def)
  have "\<exists>m\<ge>n. rtos_move K (Run Consumer) (f m) = None \<or> rtos_move K (Run Consumer) (f m) = Some (f (Suc m))" for n
  proof -
    obtain m where m: "n \<le> m" "(\<exists>T. a m = Run T) \<or> (\<forall>T. rtos_move K (Run T) (f m) = None)" using runs by blast
    then show ?thesis using actor_step_move[of K _ "f m" "f (Suc m)"] step rtos_move.simps(1)[of K "f m"] by metis
  qed
  moreover have "\<exists>m\<ge>n. rtos_move K Tick (f m) = None \<or> rtos_move K Tick (f m) = Some (f (Suc m))" for n
    using tick[of n] step by (metis actor_step.simps(5) rtos_move.simps(5))
  moreover have "\<exists>m\<ge>n. rtos_move K Tx_Free (f m) = None \<or> rtos_move K Tx_Free (f m) = Some (f (Suc m))" for n
    using tx[of n] step by (metis actor_step.simps(6) rtos_move.simps(6))
  ultimately show ?thesis
    using producer_not_starved[OF assms] step actor_step_step unfolding fair_run_def fair_actors_def by (metis emptyE insertE rtos_move.simps(2))
qed

section \<open>Properties\<close>

text \<open>
  C5. The demo passes: whenever the processor runs the task with the highest priority that is not blocked, the timer ticks
  and the transmitter gets free, the run reaches the state where the simulation is told to pass, from whatever state it has
  got into before, and there producer and consumer have written all their lines, those of the items 1 to 8 in order.
\<close>

theorem rtos_passes:
  assumes "kernel_laws K items cap val mx" "reachable K False (f 0)" "priority_run K a f"
  shows "\<exists>n. sim_exit (f n) = 1 \<and> sent_by Producer (f n) = p_text 8 \<and> sent_by Consumer (f n) = c_text 8 @ line ''[DONE]ok''"
proof -
  have "reachable K False (f n)" for n
  proof (induction n)
    case (Suc n)
    have "actor_step K (a n) (f n) = Some (f (Suc n))" using assms(3) by (simp add: priority_run_def)
    with reachable.step[OF Suc actor_step_step] show ?case by blast
  qed (rule assms(2))
  then have "fair_run K f" using reachable_ok[OF assms(1)] by (intro priority_fair[OF assms(1) _ assms(3)]) blast
  then show ?thesis by (rule fair_run_passes[of K items cap val mx f, OF assms(1,2)])
qed

text \<open>Processor, timer and transmitter take turns; whoever cannot move leaves its turn to the timer.\<close>

definition turn :: "nat \<Rightarrow> (int list \<times> nat, nat \<times> nat) rtos \<Rightarrow> actor" where
  "turn n s =
     (if n mod 3 = 0 then
        (if \<not> Option.is_none (vConsumer list_kernel s) then Run Consumer
         else if \<not> Option.is_none (vProducer list_kernel s) then Run Producer
         else if \<not> Option.is_none (vWorker s) then Run Worker else Tick)
      else if n mod 3 = 1 \<and> tx_busy s then Tx_Free else Tick)"

fun turns :: "nat \<Rightarrow> (int list \<times> nat, nat \<times> nat) rtos" where
  "turns 0 = booted"
| "turns (Suc n) = the (actor_step list_kernel (turn n (turns n)) (turns n))"

lemma turns_run: "priority_run list_kernel (\<lambda>n. turn n (turns n)) turns"
proof -
  have "\<exists>t. actor_step list_kernel (turn n s) s = Some t" for n s by (auto simp: turn_def Option.is_none_def)
  then have step: "actor_step list_kernel (turn n (turns n)) (turns n) = Some (turns (Suc n))" for n by (metis option.sel turns.simps(2))
  have cpu: "(\<exists>T. turn (3 * n) s = Run T) \<or> (\<forall>T. rtos_move list_kernel (Run T) s = None)" for n s
  proof -
    have "rtos_move list_kernel (Run T) s = None" if "vConsumer list_kernel s = None" "vProducer list_kernel s = None" "vWorker s = None" for T
      using that by (cases T) simp_all
    then show ?thesis by (auto simp: turn_def Option.is_none_def)
  qed
  have "turn (3 * n + 2) s = Tick" "turn (3 * n + 1) s = Tx_Free \<or> \<not> tx_busy s" for n s by (auto simp: turn_def mod_Suc)
  then have "n \<le> 3 * n + 2 \<and> turn (3 * n + 2) (turns (3 * n + 2)) = Tick"
    "n \<le> 3 * n + 1 \<and> (turn (3 * n + 1) (turns (3 * n + 1)) = Tx_Free \<or> \<not> tx_busy (turns (3 * n + 1)))" for n
    by (simp_all del: turns.simps add_2_eq_Suc' One_nat_def)
  then have "\<exists>m\<ge>n. turn m (turns m) = Tick" "\<exists>m\<ge>n. turn m (turns m) = Tx_Free \<or> \<not> tx_busy (turns m)" for n by blast+
  moreover have "\<exists>m\<ge>n. (\<exists>T. turn m (turns m) = Run T) \<or> (\<forall>T. rtos_move list_kernel (Run T) (turns m) = None)" for n
    using cpu[of n "turns (3 * n)"] by (intro exI[of _ "3 * n"]) simp
  ultimately show ?thesis using step by (simp add: priority_run_def)
qed

theorem rtos_passes_witness: "\<exists>n. sim_exit (turns n) = 1 \<and> sent_by Producer (turns n) = p_text 8"
proof -
  have "reachable list_kernel False (turns 0)" using list_kernel_boots[of False] by (auto simp: booted_def)
  then show ?thesis using rtos_passes[OF list_kernel_laws _ turns_run] by blast
qed

end
