(* ===== verification/Spec2Isabelle.thy ===== *)
theory Spec2Isabelle
  imports Prelude Core_Util Crc_Eval Core_State List_Heap List_Sort List_Order Core_Matrix Core_List List_Value List_Init Digits Uart Ee_Printf Ee_Float Core_Main Known_State Known_Matrix Known_Run Local_Digits Core_Debug Dhry_Port Dhrystone Embench_Board Rtos_Bsp Rtos_Config Rtos_App Rtos_Schedule Rtos_Boot Rtos_Fair
begin

text \<open>
  Verification of the C programs that the Gandiva repository runs on its RISC-V core: CoreMark, Dhrystone, the
  Embench board support and a FreeRTOS demo. The core itself is SystemVerilog and not modelled; what the
  programs see of it, the status of the serial transmitter, the machine timer, the cycle counter, is a parameter of the
  definitions that read it.

  \<^bold>\<open>The programs.\<close> CoreMark (\<open>src/coremark\<close>): \<open>main\<close> takes the seeds, divides the memory among three
  algorithms, calibrates the iteration count, times \<open>iterate\<close>, and compares checksums with known values. \<open>iterate\<close> calls the list
  benchmark, which sorts, finds and reverses a linked list; comparing two elements runs the matrix or the state machine benchmark
  and caches the result in the element. All results go through a CRC, all reports through \<open>ee_printf\<close> to the serial port.
  Dhrystone (\<open>src/dhrystone\<close>): a loop of procedures over two records, two arrays and two strings, with a \<open>printf\<close> of its own. Embench
  (\<open>src/embench/config/gandiva\<close>): the two triggers around a benchmark and the exit that reports the cycles. RTOS
  (\<open>src/rtos\<close>): three tasks that share a queue, a semaphore and the serial port.

  \<^bold>\<open>Theories and sources.\<close> \<^theory_text>\<open>Prelude\<close>: integer types, memory objects, counted loops, options.
  \<^item> \<^theory_text>\<open>Core_Util\<close>: \<open>core_util.c\<close>. CRC = bit-serial CRC-16 and its burst detection; the seed parser and where it overflows; the type check. \<^theory_text>\<open>Crc_Eval\<close>: equations to
    evaluate the CRC.
  \<^item> \<^theory_text>\<open>Core_State\<close>: \<open>core_state.c\<close>. What the scanner recognises; that the benchmark stays in its block and
    undoes its corruption; what the generated input looks like.
  \<^item> \<^theory_text>\<open>List_Heap\<close>, \<^theory_text>\<open>List_Sort\<close>, \<^theory_text>\<open>List_Order\<close>, \<^theory_text>\<open>Core_List\<close>, \<^theory_text>\<open>List_Value\<close>, \<^theory_text>\<open>List_Init\<close>: \<open>core_list_join.c\<close>. The
    operations on cells in a store; the merge sort, loop by loop, over any comparison (locales \<open>list_cmp\<close>, \<open>list_cmp_total\<close>, \<open>list_cmp_key\<close>, interpreted on \<open>cmp_idx\<close> and
    \<open>cmp_complex\<close>); the benchmark as a whole, which gives the list back, and what it computes as a function
    without pointers; its construction.
  \<^item> \<^theory_text>\<open>Core_Matrix\<close>: \<open>core_matrix.c\<close>. Layout, product, restoration, absence of overflow.
  \<^item> \<^theory_text>\<open>Digits\<close>, \<^theory_text>\<open>Local_Digits\<close>: the digit loop all printers share. \<^theory_text>\<open>Uart\<close>: the serial port and the locale
    \<open>uart_port\<close>, the contract of a driver, interpreted on the four drivers of the repository.
  \<^item> \<^theory_text>\<open>Ee_Printf\<close>, \<^theory_text>\<open>Ee_Float\<close>: \<open>barebones/ee_printf.c\<close>. The formatter refines a specification of the text
    without buffers and loops; the floating-point part over an abstract \<open>double\<close>.
  \<^item> \<^theory_text>\<open>Core_Main\<close>: \<open>core_main.c\<close> and the timer of \<open>core_portme.c\<close>. The whole program: it terminates, and what it reports.
  \<^item> \<^theory_text>\<open>Core_Debug\<close>: the matrix printers of \<open>core_matrix.c\<close> and the text they send.
  \<^item> \<^theory_text>\<open>Known_State\<close>, \<^theory_text>\<open>Known_Matrix\<close>, \<^theory_text>\<open>Known_Run\<close>: no code of their own. They evaluate the performance
    and the validation run through equivalent functions on lists of integers: the checksums that the code computes are those
    in the tables of \<open>core_main.c\<close>, so the program reports correct operation.
  \<^item> \<^theory_text>\<open>Dhry_Port\<close>, \<^theory_text>\<open>Dhrystone\<close>: \<open>dhry_port.c\<close>; \<open>dhry_1.c\<close>, \<open>dhry_2.c\<close>, \<open>dhry.h\<close>. The state after every run and the
    complete report.
  \<^item> \<^theory_text>\<open>Embench_Board\<close>: \<open>boardsupport.c\<close>. The cycles it reports.
  \<^item> \<^theory_text>\<open>Rtos_Bsp\<close>: \<open>bsp.c\<close>, \<open>libc_stubs.c\<close>. \<^theory_text>\<open>Rtos_Config\<close>: \<open>FreeRTOSConfig.h\<close>. \<^theory_text>\<open>Rtos_App\<close>: \<open>app/main.c\<close> as a step relation with its invariant.
    \<^theory_text>\<open>Rtos_Schedule\<close>: schedules that respect the priorities. \<^theory_text>\<open>Rtos_Boot\<close>: \<open>main\<close> on the chip, up to the first task. \<^theory_text>\<open>Rtos_Fair\<close>: fair runs, and runs by priority, end
    (locale \<open>fair_progress\<close>).
  \<^item> This theory: which number texts of the formatter the seed parser reads back, and the tasks of the RTOS demo queue
    what the board support sends.

  \<^bold>\<open>Conventions.\<close> A definition returns an option where the C code can have undefined behaviour (an access outside an
  object, a signed overflow, a null pointer, an uninitialised local, a division by zero) or may not end: then the result is \<open>None\<close>.
  So every theorem that gives \<open>Some\<close> states absence of undefined behaviour and termination.
  Integers keep their width: words where the source wraps or tests bits, \<open>int\<close> with the range checked (\<open>s32\<close>) where a signed
  overflow would be undefined. Records, arrays and structures keep the names of the source; a few names that HOL has taken
  are changed (\<open>heads\<close>, \<open>datas\<close>, \<open>execs\<close>, \<open>err\<close>).

  \<^bold>\<open>Loops and bounds.\<close> Loops that count are \<open>for_loop\<close> or structural. Loops that follow a list, wait for the hardware or search
  are \<open>partial_function (option)\<close>; that they end is proved under what the callers establish (the list is finite, the transmitter
  is free again and again, the timer advances). There is no fuel. Sizes: the block of CoreMark has 2000 bytes,
  \<open>ee_printf\<close> has a buffer of 1024 characters, \<open>flt\<close> one of 80; the theorems say what fits.

  \<^bold>\<open>Not modelled.\<close> The RTL, the test benches, linker scripts, start-up code in assembly and Python scripts (not C). The FreeRTOS
  kernel and the Embench benchmarks, which are not in the repository: the kernel is a parameter with the documented behaviour of its
  queue and semaphore as hypothesis. Threads (\<open>MULTITHREAD\<close> is 1), \<open>malloc\<close> memory, and, of the output under
  \<open>CORE_DEBUG\<close>, everything but the matrix printers. The time a transmission takes: in the
  RTOS demo the transmitter may get free at any moment, so the interleavings of the real chip are among those considered.
\<close>

section \<open>Printing and parsing\<close>

lemmas format_decimal = format_d[unfolded dec_text_def]

lemma parseval_d:
  assumes "sint x \<noteq> - (2 ^ 31)"
  shows "parseval ((if sint x < 0 then ''-'' else '''') @ num_text dec_char 10 (nat \<bar>sint x\<bar>)) = Some x"
proof -
  have n: "nat \<bar>sint x\<bar> < 2 ^ 31" using assms sint_greater_eq[of x] sint_less[of x] by simp
  have "parseval ((if sint x < 0 then ''-'' else '''') @ num_text dec_char 10 (nat \<bar>sint x\<bar>) @ '''')
      = signed_s32 (sint x < 0) (nat \<bar>sint x\<bar>)"
    using parseval_dec_eq[OF dec_num_text(2), of "''''" "sint x < 0" "nat \<bar>sint x\<bar>"] by (simp add: dec_num_text(1) suffix_scale_def)
  also have "\<dots> = Some (word_of_int (sint x))" using n by (simp add: signed_s32_def)
  finally show ?thesis by simp
qed

text \<open>Hexadecimal digits are read back with their values.\<close>

lemma hex_char_val: "d < 16 \<Longrightarrow> is_hex (hex_char d) \<and> hex_digit_val (hex_char d) = d"
proof -
  have "\<forall>d\<in>set [0..<16]. is_hex (hex_char d) \<and> hex_digit_val (hex_char d) = d" by code_simp
  then show "d < 16 \<Longrightarrow> is_hex (hex_char d) \<and> hex_digit_val (hex_char d) = d" by simp
qed

lemma hex_val_digits: "\<forall>d\<in>set ds. d < 16 \<Longrightarrow> hex_val (map hex_char (rev ds)) = digs_val 16 ds"
  by (induction ds) (simp_all add: hex_val_def hex_char_val)

lemma hex_num_text: "hex_val (num_text hex_char 16 n) = n" "list_all is_hex (num_text hex_char 16 n)"
proof -
  have b: "\<forall>d\<in>set (digs 16 n). d < 16" using digs_bound[of 16] by simp
  show "hex_val (num_text hex_char 16 n) = n"
    using hex_val_digits[OF b] by (auto simp: num_text_def digs_val_digs hex_val_def hex_char_val)
  show "list_all is_hex (num_text hex_char 16 n)"
    using b by (auto simp: num_text_def list_all_iff hex_char_val)
qed

lemma digit_char_hex: "d < 16 \<Longrightarrow> digit_char 0 d = hex_char d"
proof -
  have "\<forall>d\<in>set [0..<16]. ee_digits ! d = hex_char d" by code_simp
  then show "d < 16 \<Longrightarrow> digit_char 0 d = hex_char d" by (simp add: digit_char_def)
qed

lemma num_text_hex: "num_text (digit_char 0) 16 n = num_text hex_char 16 n"
  using digs_bound[of 16 _ n] by (auto simp: num_text_def digit_char_hex)

lemma format_x: "format_text (c_str ''0x%x'') [VWord x] = Some (''0x'' @ num_text hex_char 16 (unat x))"
proof -
  have p: "parse_spec (c_str ''x'') [VWord x] = Some (-1, 0, -1, -1, c_str ''x'', [VWord x])" by (simp add: parse_simps)
  have "num_field 0 16 (-1) (-1) x = num_text hex_char 16 (unat x)"
    by (simp add: num_field_def sign_text_def prefix_text_def digits_text_def magnitude_def justify_def Let_def num_text_hex)
  with p show ?thesis
    by (simp add: format_text.simps[of "CHR ''%'' # _"] format_text.simps[of "CHR ''0'' # _"] format_text.simps[of "CHR ''x'' # CHR ''%'' # _"]
      format_text.simps[of "[CHR 0x00]"] c_str_def conv_text_def int_conv_def int_text_def)
qed

lemma parseval_x: "parseval (''0x'' @ num_text hex_char 16 (unat x)) = (if sint x < 0 then None else Some x)"
proof -
  have "unat x < 2 ^ 31 \<longleftrightarrow> 0 \<le> sint x"
  proof (cases "0 \<le> sint x")
    case True
    with unat_nonneg[OF True] sint_less[of x] show ?thesis by simp
  next
    case False
    have "unat x < 2 ^ 31 \<Longrightarrow> 0 \<le> sint x" using sint_of_nat_s32[of "unat x"] by simp
    with False show ?thesis by blast
  qed
  then show ?thesis
    using parseval_hex_eq[OF hex_num_text(2), of "''''" False "unat x"] by (simp add: hex_num_text(1) suffix_scale_def signed_s32_def)
qed

lemma length_number_text: "length (num_text c b (unat (x :: ee_u32))) \<le> 32" if "2 \<le> b"
  using digs_length_u32[OF that, of x] by (simp add: num_text_def)

text \<open>
  C11. What the formatter prints, the seed parser reads: \<open>ee_printf("%d", x)\<close> sends a text that \<open>parseval\<close> maps back to
  \<open>x\<close>, for every \<open>x\<close> but the most negative one, and so does \<open>ee_printf("0x%x", x)\<close> for every \<open>x\<close> that is not negative. The
  hexadecimal text of a negative \<open>x\<close> is sent as well, but reading it back overflows, which is undefined.
\<close>

theorem print_parse:
  assumes "ready st"
  shows "(sint x \<noteq> - (2 ^ 31) \<longrightarrow> (\<exists>t n. parseval t = Some x \<and>
      ee_printf st (c_str ''%d'') [VWord x] u = Some (length t, u\<lparr>ureads := n, usent := usent u @ map of_char t\<rparr>))) \<and>
    (\<exists>t n. parseval t = (if sint x < 0 then None else Some x) \<and>
      ee_printf st (c_str ''0x%x'') [VWord x] u = Some (length t, u\<lparr>ureads := n, usent := usent u @ map of_char t\<rparr>))"
proof -
  have print: "\<exists>n. ee_printf st f args u = Some (length t, u\<lparr>ureads := n, usent := usent u @ map of_char t\<rparr>)"
    if "format_text f args = Some t" "length t < 1024" "CHR 0x00 \<notin> set t" for f args t
  proof -
    have "takeWhile (\<lambda>c. c \<noteq> CHR 0x00) t = t" using that(3) by (auto simp: takeWhile_eq_all_conv)
    with ee_printf_put[OF that(1,2) assms, of u] show ?thesis by auto
  qed
  have len: "length (num_text c 10 (nat \<bar>sint x\<bar>)) \<le> 32" "length (num_text c 16 (unat x)) \<le> 32" for c
  proof -
    have "nat \<bar>sint x\<bar> < 10 ^ 32" using sint_greater_eq[of x] sint_less[of x] by simp
    then show "length (num_text c 10 (nat \<bar>sint x\<bar>)) \<le> 32" using digs_length[of 10 "nat \<bar>sint x\<bar>" 32] by (simp add: num_text_def)
    show "length (num_text c 16 (unat x)) \<le> 32" by (rule length_number_text) simp
  qed
  have dec: "CHR 0x00 \<notin> set (num_text dec_char 10 n)" for n
    using dec_num_text(2)[of n] by (auto simp: list_all_iff is_digit_def char_code_def)
  then have d: "sint x \<noteq> - (2 ^ 31) \<longrightarrow> (\<exists>t n. parseval t = Some x \<and>
      ee_printf st (c_str ''%d'') [VWord x] u = Some (length t, u\<lparr>ureads := n, usent := usent u @ map of_char t\<rparr>))"
    using print[OF format_decimal[of x]] parseval_d[of x] len(1)[of dec_char]
    by (intro impI exI[of _ "(if sint x < 0 then ''-'' else '''') @ num_text dec_char 10 (nat \<bar>sint x\<bar>)"]) auto
  have hex: "hex_char d \<noteq> CHR 0x00" if "d < 16" for d
  proof -
    have "\<forall>d\<in>set [0..<16]. hex_char d \<noteq> CHR 0x00" by code_simp
    with that show ?thesis by simp
  qed
  have "CHR 0x00 \<notin> set (num_text hex_char 16 n)" for n
  proof
    assume "CHR 0x00 \<in> set (num_text hex_char 16 n)"
    then have "\<exists>d<16. CHR 0x00 = hex_char d" by (rule num_text_chars[rotated]) simp
    then obtain d where "d < 16" "CHR 0x00 = hex_char d" by blast
    with hex[of d] show False by simp
  qed
  then have "\<exists>t n. parseval t = (if sint x < 0 then None else Some x) \<and>
      ee_printf st (c_str ''0x%x'') [VWord x] u = Some (length t, u\<lparr>ureads := n, usent := usent u @ map of_char t\<rparr>)"
    using print[OF format_x[of x]] parseval_x[of x] len(2)[of hex_char]
    by (intro exI[of _ "''0x'' @ num_text hex_char 16 (unat x)"]) auto
  with d show ?thesis by blast
qed

theorem print_parse_witness:
  "\<exists>t n. parseval t = Some 0xe714 \<and>
    ee_printf (\<lambda>n. 0) (c_str ''0x%x'') [VWord 0xe714] idle_uart = Some (length t, \<lparr>ureads = n, usent = map of_char t\<rparr>)"
  using print_parse[OF ready_idle, of "0xe714" idle_uart] by (auto simp: idle_uart_def)

section \<open>What the tasks queue is what the driver sends\<close>

text \<open>
  The state machine of the RTOS demo queues the text of a number as a whole. That text is what \<open>uart_putdec\<close> of the board
  support sends, character by character, and it is undefined for the same number.
\<close>

lemma bsp_putdec_text:
  assumes "ready st"
  shows "case putdec_text v of None \<Rightarrow> bsp_putdec st v u = None | Some t \<Rightarrow> \<exists>u'. bsp_putdec st v u = Some u' \<and> sent t u u'"
proof (cases "sint v = - (2 ^ 31)")
  case True
  obtain u1 where "bsp_putc st (CHR ''-'') u = Some u1" using bsp_uart.putc_sent[OF assms] by blast
  with True show ?thesis by (simp add: putdec_text_def bsp_putdec_def word_sless_alt neg_s32_def)
next
  case False
  with bsp_putdec_sent[OF assms False, of u] show ?thesis by (simp add: putdec_text_def)
qed

end
